(* ===== verification/Ssm_Prelude.thy ===== *)
theory Ssm_Prelude
  imports Main "HOL-Library.Word"
begin

text \<open>
  Shared vocabulary of the development: machine integers at Go's widths, byte
  strings, the error values of the whole repository, and the small locale of
  transition systems on which every concurrent component is built.

  Go's \<^verbatim>\<open>string\<close> and \<^verbatim>\<open>[]byte\<close> are both byte sequences. Text is kept as HOL's
  \<^typ>\<open>string\<close> (one \<^typ>\<open>char\<close> per byte), wire data as \<open>8 word list\<close>;
  \<open>bytes_of\<close> and \<open>string_of\<close> are the Go conversions \<^verbatim>\<open>[]byte(s)\<close> and
  \<^verbatim>\<open>string(b)\<close>. The platform is a 64-bit one, so Go's \<^verbatim>\<open>int\<close> is \<^verbatim>\<open>int64\<close>.
\<close>

section \<open>Types and automation shared by the components\<close>

type_synonym u8 = "8 word"
type_synonym u32 = "32 word"
type_synonym u64 = "64 word"
type_synonym int64 = "64 word"
type_synonym bytes = "8 word list"
type_synonym time = int

text \<open>
  Two collections carry most proofs: the named constants of the source, and the
  unfolding lemmas of the small stdlib helpers.
\<close>

named_theorems go_consts "constants of the source, to be unfolded for evaluation"
named_theorems codec_simps "length and round-trip facts of the byte codecs"

subsection \<open>Strings and bytes\<close>

definition byte_of_char :: "char \<Rightarrow> u8" where
  "byte_of_char c = word_of_nat (of_char c)"

definition char_of_byte :: "u8 \<Rightarrow> char" where
  "char_of_byte b = char_of (unat b)"

definition bytes_of :: "string \<Rightarrow> bytes" where
  "bytes_of = map byte_of_char"

definition string_of :: "bytes \<Rightarrow> string" where
  "string_of = map char_of_byte"

lemma char_of_byte_of_char [simp]: "char_of_byte (byte_of_char c) = c"
proof -
  have "(of_char c :: nat) < 256"
    by simp
  then show ?thesis
    by (simp add: char_of_byte_def byte_of_char_def unat_of_nat)
qed

lemma byte_of_char_of_byte [simp]: "byte_of_char (char_of_byte b) = b"
proof -
  have "unat b < 256"
    using unsigned_less [of b, where 'a = nat] by simp
  then show ?thesis
    by (simp add: char_of_byte_def byte_of_char_def)
qed

lemma string_of_bytes_of [simp]: "string_of (bytes_of s) = s"
  by (simp add: string_of_def bytes_of_def comp_def)

lemma bytes_of_string_of [simp]: "bytes_of (string_of b) = b"
  by (simp add: string_of_def bytes_of_def comp_def)

lemma length_bytes_of [simp, codec_simps]: "length (bytes_of s) = length s"
  by (simp add: bytes_of_def)

lemma length_string_of [simp, codec_simps]: "length (string_of b) = length b"
  by (simp add: string_of_def)

subsection \<open>Signed reading of int64 values\<close>

text \<open>
  \<^verbatim>\<open>int64\<close> values are \<open>64 word\<close>s; the code compares them as signed numbers, so
  the comparisons of the models go through \<^const>\<open>sint\<close>.
\<close>

lemma sint_of_nat_64 [simp]:
  "n < 2 ^ 63 \<Longrightarrow> sint (word_of_nat n :: int64) = int n"
proof -
  assume n: "n < 2 ^ 63"
  have "sint (word_of_nat n :: int64) = sint (word_of_int (int n) :: int64)"
    by simp
  also have "\<dots> = signed_take_bit 63 (int n)"
    unfolding sint_sbintrunc' by simp
  also have "\<dots> = int n"
    by (rule signed_take_bit_int_eq_self) (use n in \<open>simp_all flip: of_nat_power\<close>)
  finally show ?thesis .
qed

lemma sint_64_bounds: "- (2 ^ 63) \<le> sint (w :: int64)" "sint (w :: int64) < 2 ^ 63"
  using sint_range_size [of w] by (simp_all add: word_size)

lemma int64_of_sint [simp]: "word_of_int (sint (w :: int64)) = w"
  by simp

section \<open>Errors\<close>

text \<open>
  The sentinel errors of the four packages, the standard-library errors the code
  returns or compares with, and errors made outside the repository (\<open>ExternalErr\<close>,
  told apart by a number). \<^verbatim>\<open>fmt.Errorf\<close> with \<^verbatim>\<open>%w\<close> verbs is \<open>Errorf\<close>: a text
  and the wrapped errors in order.
\<close>

datatype go_error =
    ErrWebsocketDialFailed | ErrOpenDataChannelFailed | ErrRemoteSSMClosedPipe
  | ErrCreateAcknowledgmentFailed | ErrQueueAcknowledgmentFailed | ErrSessionStopped
  | ErrAckTimeout | ErrReadWebsocketMessageFailed | ErrUnmarshalMessageFailed
  | ErrSendAcknowledgmentFailed | errSessionStopRequested
  | ErrCreateTerminalResize | ErrCreateHandshake | ErrUnmarshalAck | ErrInvalidAgentMessage
  | ErrSessionHandshake | ErrUnmarshalHandshake | ErrCreateHandshakeResp | ErrSendHandshakeResp
  | ErrGetSessionMessage | ErrWriteData | ErrWriteSessionMessage | ErrReadData
  | ErrCreateSizeMessage | ErrWriteSizeMessage
  | errStreamStopRequested
  | ErrHandshakeFailed | ErrRemoteVersionNotSupported | ErrCreateSmuxClientFailed
  | ErrFailedGetDialRequest | ErrFailedGetDialResponse | ErrFailedRequestDial | ErrFailedDial
  | errMuxStopRequested
  | io_EOF | io_ErrClosedPipe | context_Canceled | context_DeadlineExceeded
  | json_SyntaxError | json_UnmarshalTypeError
  | ExternalErr nat
  | Errorf string "go_error list"

text \<open>\<^verbatim>\<open>errors.Is\<close>: the error itself or anything it wraps, at any depth.\<close>

fun errors_Is :: "go_error \<Rightarrow> go_error \<Rightarrow> bool" where
  "errors_Is (Errorf t es) target =
     (Errorf t es = target \<or> list_ex (\<lambda>e. errors_Is e target) es)"
| "errors_Is e target = (e = target)"

lemma errors_Is_refl [simp]: "errors_Is e e"
  by (cases e) simp_all

text \<open>
  What a call that may panic does: return an error value (\<^term>\<open>None\<close> is Go's nil)
  or panic.
\<close>

datatype outcome = Returns "go_error option" | Panics

section \<open>Transition systems\<close>

text \<open>
  Every concurrent component is a set of initial states and a step relation. The
  reachable states and the invariant rule are proved once, for any such system;
  each component interprets the locale on its own step relation.
\<close>

inductive reachable :: "('s \<Rightarrow> bool) \<Rightarrow> ('s \<Rightarrow> 's \<Rightarrow> bool) \<Rightarrow> 's \<Rightarrow> bool"
  for ini :: "'s \<Rightarrow> bool" and step :: "'s \<Rightarrow> 's \<Rightarrow> bool" where
  reach_init: "ini s \<Longrightarrow> reachable ini step s"
| reach_step: "reachable ini step s \<Longrightarrow> step s t \<Longrightarrow> reachable ini step t"

locale inductive_invariant =
  fixes ini :: "'s \<Rightarrow> bool"
    and step :: "'s \<Rightarrow> 's \<Rightarrow> bool"
    and inv :: "'s \<Rightarrow> bool"
  assumes inv_init: "ini s \<Longrightarrow> inv s"
    and inv_step: "inv s \<Longrightarrow> step s t \<Longrightarrow> inv t"
begin

lemma reachable_inv: "reachable ini step s \<Longrightarrow> inv s"
  by (induction rule: reachable.induct) (auto intro: inv_init inv_step)

lemma rtranclp_inv: "step\<^sup>*\<^sup>* s t \<Longrightarrow> inv s \<Longrightarrow> inv t"
  by (induction rule: rtranclp_induct) (auto intro: inv_step)

end

lemma reachable_rtranclp:
  "reachable ini step s \<Longrightarrow> step\<^sup>*\<^sup>* s t \<Longrightarrow> reachable ini step t"
  by (rotate_tac, induction rule: rtranclp_induct) (auto intro: reach_step)

end
