(* ===== verification/Go_Strconv.thy ===== *)
theory Go_Strconv
  imports Ssm_Prelude
begin

text \<open>
  What the code uses of Go's \<^verbatim>\<open>strconv\<close> and \<^verbatim>\<open>strings\<close>: \<^verbatim>\<open>Itoa\<close>, \<^verbatim>\<open>Atoi\<close> and
  \<^verbatim>\<open>Split\<close> on a one-character separator. \<^verbatim>\<open>Atoi\<close> reads an optional sign and at
  least one decimal digit and fails (\<^term>\<open>None\<close>) on anything else and on values
  outside int64.
\<close>

section \<open>Decimal numbers\<close>

definition is_digit :: "char \<Rightarrow> bool" where
  "is_digit c \<longleftrightarrow> (48 :: nat) \<le> of_char c \<and> (of_char c :: nat) \<le> 57"

definition digit_val :: "char \<Rightarrow> nat" where
  "digit_val c = of_char c - 48"

definition digit_char :: "nat \<Rightarrow> char" where
  "digit_char d = char_of (48 + d)"

fun formatNat :: "nat \<Rightarrow> string" where
  "formatNat n =
     (if n < 10 then [digit_char n] else formatNat (n div 10) @ [digit_char (n mod 10)])"

declare formatNat.simps [simp del]

definition Itoa :: "int \<Rightarrow> string" where
  "Itoa i = (if i < 0 then CHR ''-'' # formatNat (nat (- i)) else formatNat (nat i))"

definition digitsVal :: "string \<Rightarrow> nat" where
  "digitsVal s = foldl (\<lambda>a c. 10 * a + digit_val c) 0 s"

definition parseDigits :: "string \<Rightarrow> nat option" where
  "parseDigits s = (if s \<noteq> [] \<and> list_all is_digit s then Some (digitsVal s) else None)"

definition Atoi :: "string \<Rightarrow> int option" where
  "Atoi s =
     (case s of [] \<Rightarrow> None
      | c # cs \<Rightarrow>
          (case (if c = CHR ''-'' \<or> c = CHR ''+'' then parseDigits cs else parseDigits s) of
             None \<Rightarrow> None
           | Some n \<Rightarrow>
               let i = (if c = CHR ''-'' then - int n else int n)
               in if - (2 ^ 63) \<le> i \<and> i < 2 ^ 63 then Some i else None))"

lemma is_digit_char [simp]: "d < 10 \<Longrightarrow> is_digit (digit_char d)"
  by (simp add: is_digit_def digit_char_def)

lemma digit_val_char [simp]: "d < 10 \<Longrightarrow> digit_val (digit_char d) = d"
  by (simp add: digit_val_def digit_char_def)

lemma formatNat_digits: "list_all is_digit (formatNat n)"
proof (induction n rule: formatNat.induct)
  case (1 n)
  then show ?case by (cases "n < 10") (simp_all add: formatNat.simps [of n])
qed

lemma formatNat_nonempty [simp]: "formatNat n \<noteq> []"
  by (subst formatNat.simps) simp

lemma digitsVal_snoc: "digitsVal (s @ [c]) = 10 * digitsVal s + digit_val c"
  by (simp add: digitsVal_def)

lemma digitsVal_formatNat [simp]: "digitsVal (formatNat n) = n"
proof (induction n rule: formatNat.induct)
  case (1 n)
  show ?case
  proof (cases "n < 10")
    case True
    then show ?thesis by (simp add: formatNat.simps [of n] digitsVal_def)
  next
    case False
    with 1 show ?thesis by (simp add: formatNat.simps [of n] digitsVal_snoc)
  qed
qed

lemma parseDigits_formatNat [simp]: "parseDigits (formatNat n) = Some n"
  by (simp add: parseDigits_def formatNat_digits)

lemma formatNat_hd:
  obtains c cs where "formatNat n = c # cs" "is_digit c"
  using formatNat_digits [of n] by (cases "formatNat n") auto

lemma not_digit_sign [simp]: "\<not> is_digit CHR ''-''" "\<not> is_digit CHR ''+''" "\<not> is_digit CHR ''.''"
  by (simp_all add: is_digit_def)

lemma Atoi_formatNat: "int n < 2 ^ 63 \<Longrightarrow> Atoi (formatNat n) = Some (int n)"
proof -
  assume n: "int n < 2 ^ 63"
  obtain c cs where c: "formatNat n = c # cs" "is_digit c" by (rule formatNat_hd)
  then have "c \<noteq> CHR ''-''" "c \<noteq> CHR ''+''" by auto
  with n show ?thesis
    using parseDigits_formatNat [of n] by (simp add: Atoi_def c)
qed

lemma Atoi_Itoa:
  assumes "- (2 ^ 63) \<le> i" and "i < 2 ^ 63"
  shows "Atoi (Itoa i) = Some i"
proof (cases "i < 0")
  case True
  with assms show ?thesis by (simp add: Itoa_def Atoi_def)
next
  case False
  with assms Atoi_formatNat [of "nat i"] show ?thesis by (simp add: Itoa_def)
qed

section \<open>Splitting\<close>

text \<open>\<^verbatim>\<open>strings.Split\<close>: never empty, the empty string splits into one empty piece.\<close>

fun Split :: "string \<Rightarrow> char \<Rightarrow> string list" where
  "Split [] sep = [[]]"
| "Split (c # cs) sep =
     (if c = sep then [] # Split cs sep
      else (case Split cs sep of [] \<Rightarrow> [[c]] | p # ps \<Rightarrow> (c # p) # ps))"

fun join :: "char \<Rightarrow> string list \<Rightarrow> string" where
  "join sep [] = []"
| "join sep [s] = s"
| "join sep (s # t # ss) = s @ sep # join sep (t # ss)"

lemma Split_nonempty [simp]: "Split s sep \<noteq> []"
  by (induction s) (auto split: list.splits)

lemma Split_no_sep: "sep \<notin> set s \<Longrightarrow> Split s sep = [s]"
  by (induction s) auto

lemma Split_append_sep:
  "sep \<notin> set s \<Longrightarrow> Split (s @ sep # t) sep = s # Split t sep"
  by (induction s) auto

lemma Split_join:
  "ss \<noteq> [] \<Longrightarrow> \<forall>s \<in> set ss. sep \<notin> set s \<Longrightarrow> Split (join sep ss) sep = ss"
  by (induction sep ss rule: join.induct) (simp_all add: Split_no_sep Split_append_sep)

end
