(* ===== verification/Version.thy ===== *)
theory Version
  imports Go_Strconv
begin

text \<open>
  \<^verbatim>\<open>version/version.go\<close>: a feature flag is the first agent version that has the
  feature, and \<^verbatim>\<open>SupportsVersion\<close> compares it with the agent's version component by
  component. The abstract notion is the lexicographic order on the lists of
  components, an instance of \<^verbatim>\<open>linorder\<close>.
\<close>

section \<open>The code\<close>

type_synonym FeatureFlag = string

text \<open>The loop of lines 26 to 44, over the two component lists.\<close>

fun compareComponents :: "string list \<Rightarrow> string list \<Rightarrow> bool" where
  "compareComponents (t # ts) (a # as) =
     (case Atoi t of
        None \<Rightarrow> False
      | Some thisVersionComponent \<Rightarrow>
          (case Atoi a of
             None \<Rightarrow> False
           | Some agentVersionComponent \<Rightarrow>
               if agentVersionComponent > thisVersionComponent then True
               else if agentVersionComponent < thisVersionComponent then False
               else compareComponents ts as))"
| "compareComponents _ _ = True"

definition SupportsVersion :: "FeatureFlag \<Rightarrow> string \<Rightarrow> bool" where
  "SupportsVersion v agentVersion =
     (let thisVersionSlice = Split v CHR ''.'';
          agentVersionSlice = Split agentVersion CHR ''.''
      in if length thisVersionSlice \<noteq> length agentVersionSlice then False
         else compareComponents thisVersionSlice agentVersionSlice)"

section \<open>Version numbers and their order\<close>

datatype version_number = VersionNumber (components: "int list")

fun lex_le :: "int list \<Rightarrow> int list \<Rightarrow> bool" where
  "lex_le [] ys = True"
| "lex_le (x # xs) [] = False"
| "lex_le (x # xs) (y # ys) = (x < y \<or> x = y \<and> lex_le xs ys)"

lemma lex_le_refl [simp]: "lex_le xs xs"
  by (induction xs) auto

lemma lex_le_trans: "lex_le xs ys \<Longrightarrow> lex_le ys zs \<Longrightarrow> lex_le xs zs"
  by (induction xs ys arbitrary: zs rule: lex_le.induct) (case_tac zs; auto)+

lemma lex_le_antisym: "lex_le xs ys \<Longrightarrow> lex_le ys xs \<Longrightarrow> xs = ys"
  by (induction xs ys rule: lex_le.induct) (auto elim: lex_le.elims)

lemma lex_le_total: "lex_le xs ys \<or> lex_le ys xs"
  by (induction xs ys rule: lex_le.induct) auto

instantiation version_number :: linorder
begin

definition less_eq_version_number :: "version_number \<Rightarrow> version_number \<Rightarrow> bool" where
  "v \<le> w \<longleftrightarrow> lex_le (components v) (components w)"

definition less_version_number :: "version_number \<Rightarrow> version_number \<Rightarrow> bool" where
  "v < w \<longleftrightarrow> lex_le (components v) (components w) \<and> v \<noteq> (w :: version_number)"

instance
proof
  fix v w u :: version_number
  show "v < w \<longleftrightarrow> v \<le> w \<and> \<not> w \<le> v"
    by (auto simp: less_eq_version_number_def less_version_number_def
        intro: version_number.expand dest: lex_le_antisym)
  show "v \<le> v"
    by (simp add: less_eq_version_number_def)
  show "v \<le> w \<Longrightarrow> w \<le> u \<Longrightarrow> v \<le> u"
    by (auto simp: less_eq_version_number_def intro: lex_le_trans)
  show "v \<le> w \<Longrightarrow> w \<le> v \<Longrightarrow> v = w"
    by (auto simp: less_eq_version_number_def intro: version_number.expand lex_le_antisym)
  show "v \<le> w \<or> w \<le> v"
    by (simp add: less_eq_version_number_def lex_le_total)
qed

end

text \<open>The dotted form an agent reports.\<close>

definition showVersion :: "version_number \<Rightarrow> string" where
  "showVersion v = join CHR ''.'' (map Itoa (components v))"

definition int64_components :: "version_number \<Rightarrow> bool" where
  "int64_components v \<longleftrightarrow>
     components v \<noteq> [] \<and> (\<forall>i \<in> set (components v). - (2 ^ 63) \<le> i \<and> i < 2 ^ 63)"

lemma formatNat_no_dot: "CHR ''.'' \<notin> set (formatNat n)"
  using formatNat_digits [of n] by (auto simp: list_all_iff)

lemma Itoa_no_dot: "CHR ''.'' \<notin> set (Itoa i)"
  by (auto simp: Itoa_def formatNat_no_dot)

lemma Split_showVersion:
  "int64_components v \<Longrightarrow> Split (showVersion v) CHR ''.'' = map Itoa (components v)"
  unfolding showVersion_def int64_components_def
  by (rule Split_join) (auto simp: Itoa_no_dot)

lemma compareComponents_lex:
  assumes "length fs = length as"
    and "\<forall>i \<in> set fs \<union> set as. - (2 ^ 63) \<le> i \<and> i < 2 ^ 63"
  shows "compareComponents (map Itoa fs) (map Itoa as) = lex_le fs as"
  using assms by (induction fs as rule: list_induct2) (auto simp: Atoi_Itoa)

lemma SupportsVersion_showVersion:
  assumes "int64_components f" and "int64_components a"
  shows "SupportsVersion (showVersion f) (showVersion a) \<longleftrightarrow>
    length (components f) = length (components a) \<and> f \<le> a"
proof -
  have bounds: "\<forall>i \<in> set (components f) \<union> set (components a). - (2 ^ 63) \<le> i \<and> i < 2 ^ 63"
    using assms by (auto simp: int64_components_def)
  show ?thesis
    using compareComponents_lex [OF _ bounds]
    by (simp add: SupportsVersion_def Split_showVersion assms less_eq_version_number_def)
qed

text \<open>
  On arbitrary strings: the comparison is decided at the first position where the
  components differ, and everything behind that position is never read.
\<close>

definition equalUpTo :: "nat \<Rightarrow> string list \<Rightarrow> string list \<Rightarrow> bool" where
  "equalUpTo n ts as \<longleftrightarrow> (\<forall>i < n. \<exists>x. Atoi (ts ! i) = Some x \<and> Atoi (as ! i) = Some x)"

definition newerAt :: "nat \<Rightarrow> string list \<Rightarrow> string list \<Rightarrow> bool" where
  "newerAt n ts as \<longleftrightarrow> (\<exists>t a. Atoi (ts ! n) = Some t \<and> Atoi (as ! n) = Some a \<and> t < a)"

lemma equalUpTo_0 [simp]: "equalUpTo 0 ts as"
  by (simp add: equalUpTo_def)

lemma equalUpTo_Suc_Cons [simp]:
  "equalUpTo (Suc n) (t # ts) (a # as) \<longleftrightarrow>
    (\<exists>x. Atoi t = Some x \<and> Atoi a = Some x) \<and> equalUpTo n ts as"
  by (auto simp: equalUpTo_def less_Suc_eq_0_disj)

lemma newerAt_Suc_Cons [simp]: "newerAt (Suc n) (t # ts) (a # as) = newerAt n ts as"
  by (simp add: newerAt_def)

lemma newerAt_0_Cons [simp]:
  "newerAt 0 (t # ts) (a # as) \<longleftrightarrow> (\<exists>x y. Atoi t = Some x \<and> Atoi a = Some y \<and> x < y)"
  by (simp add: newerAt_def)

lemma ex_less_Suc_split: "(\<exists>n < Suc k. P n) \<longleftrightarrow> P 0 \<or> (\<exists>n < k. P (Suc n))"
  by (auto simp: less_Suc_eq_0_disj)

lemma compareComponents_iff:
  "length ts = length as \<Longrightarrow>
   compareComponents ts as \<longleftrightarrow>
     equalUpTo (length ts) ts as
     \<or> (\<exists>n < length ts. equalUpTo n ts as \<and> newerAt n ts as)"
proof (induction ts as rule: list_induct2)
  case (Cons t ts a as)
  then show ?case
    by (cases "Atoi t"; cases "Atoi a")
      (auto simp: ex_less_Suc_split)
qed simp

lemma compareComponents_prefix:
  assumes "length ts = length as" and "length ts' = length as'"
    and "n < length ts" and "equalUpTo n ts as" and "newerAt n ts as"
  shows "compareComponents (ts @ ts') (as @ as')"
proof -
  have "equalUpTo n (ts @ ts') (as @ as')" "newerAt n (ts @ ts') (as @ as')"
    using assms by (auto simp: equalUpTo_def newerAt_def nth_append)
  with assms show ?thesis
    by (subst compareComponents_iff) auto
qed

section \<open>Properties\<close>

text \<open>C34: The feature test is the lexicographic order of version numbers. For versions
  whose components are int64 values printed in decimal, a flag supports an agent exactly
  when both have the same number of components and the flag's version is at most the
  agent's.\<close>

theorem SupportsVersion_order:
  assumes "int64_components f" and "int64_components a"
  shows "SupportsVersion (showVersion f) (showVersion a) \<longleftrightarrow>
    length (components f) = length (components a) \<and> f \<le> a"
  using assms by (rule SupportsVersion_showVersion)

theorem SupportsVersion_order_witness:
  "SupportsVersion (showVersion (VersionNumber [3, 0, 196, 0])) (showVersion (VersionNumber [3, 1, 0, 0]))
   \<and> \<not> SupportsVersion (showVersion (VersionNumber [3, 0, 196, 0])) (showVersion (VersionNumber [3, 0, 195, 0]))"
proof -
  have ok: "int64_components (VersionNumber [3, 0, 196, 0])"
    "int64_components (VersionNumber [3, 1, 0, 0])" "int64_components (VersionNumber [3, 0, 195, 0])"
    by (simp_all add: int64_components_def)
  show ?thesis
    using SupportsVersion_order [OF ok(1) ok(2)] SupportsVersion_order [OF ok(1) ok(3)]
    by (simp add: less_eq_version_number_def)
qed

text \<open>On arbitrary strings: the flag supports the agent exactly when the component
  counts agree and either all components parse and are equal, or at the first position
  where they are not equal both parse and the agent's is larger. A component that does not
  parse, met before such a position, makes the answer false.\<close>

lemma SupportsVersion_iff:
  "SupportsVersion v a \<longleftrightarrow>
    (let ts = Split v CHR ''.''; as = Split a CHR ''.''
     in length ts = length as
        \<and> (equalUpTo (length ts) ts as \<or> (\<exists>n < length ts. equalUpTo n ts as \<and> newerAt n ts as)))"
  by (auto simp: SupportsVersion_def Let_def compareComponents_iff)

text \<open>The comment of line 22 says that a version with a component that is not a number
  is not comparable. The code is weaker: once an earlier component is newer, the remaining
  components of both versions are accepted whatever they hold.\<close>

theorem SupportsVersion_ignores_tail:
  assumes "length ts = length as" and "length ts' = length as'"
    and "n < length ts" and "equalUpTo n ts as" and "newerAt n ts as"
    and "\<forall>s \<in> set (ts @ ts' @ as @ as'). CHR ''.'' \<notin> set s"
  shows "SupportsVersion (join CHR ''.'' (ts @ ts')) (join CHR ''.'' (as @ as'))"
proof -
  have ne: "ts @ ts' \<noteq> []" "as @ as' \<noteq> []" using assms(1,3) by auto
  have "Split (join CHR ''.'' (ts @ ts')) CHR ''.'' = ts @ ts'"
    "Split (join CHR ''.'' (as @ as')) CHR ''.'' = as @ as'"
    using Split_join [OF ne(1)] Split_join [OF ne(2)] assms(6) by auto
  with assms(1,2) compareComponents_prefix [OF assms(1-5)] show ?thesis
    by (simp add: SupportsVersion_def)
qed

theorem SupportsVersion_ignores_tail_witness:
  "SupportsVersion ''3.0.196.0'' ''4.x..y''"
  using SupportsVersion_ignores_tail
    [of "[''3'']" "[''4'']" "[''0'', ''196'', ''0'']" "[''x'', '''', ''y'']" 0]
  by (simp add: newerAt_def Atoi_def parseDigits_def is_digit_def digitsVal_def digit_val_def)

end
