(* ===== verification/Message_Types.thy ===== *)
theory Message_Types
  imports Ssm_Prelude
begin

text \<open>
  The constants of \<^verbatim>\<open>messages/types.go\<close>. Go's named integer and string types are
  open: a value from the wire may be none of the constants, so they are kept as words
  and strings at the source's width.
\<close>

section \<open>MessageType\<close>

type_synonym MessageType = string

definition InteractiveShell :: MessageType where [go_consts]: "InteractiveShell = ''interactive_shell''"
definition TaskReply :: MessageType where [go_consts]: "TaskReply = ''agent_task_reply''"
definition TaskComplete :: MessageType where [go_consts]: "TaskComplete = ''agent_task_complete''"
definition Acknowledge :: MessageType where [go_consts]: "Acknowledge = ''acknowledge''"
definition AgentSession :: MessageType where [go_consts]: "AgentSession = ''agent_session_state''"
definition ChannelClosed :: MessageType where [go_consts]: "ChannelClosed = ''channel_closed''"
definition OutputStreamData :: MessageType where [go_consts]: "OutputStreamData = ''output_stream_data''"
definition InputStreamData :: MessageType where [go_consts]: "InputStreamData = ''input_stream_data''"
definition PausePublication :: MessageType where [go_consts]: "PausePublication = ''pause_publication''"
definition StartPublication :: MessageType where [go_consts]: "StartPublication = ''start_publication''"

section \<open>AgentMessageFlag\<close>

type_synonym AgentMessageFlag = u64

definition Data :: AgentMessageFlag where [go_consts]: "Data = 0"
definition Syn :: AgentMessageFlag where [go_consts]: "Syn = 1"
definition Fin :: AgentMessageFlag where [go_consts]: "Fin = 2"
definition Ack :: AgentMessageFlag where [go_consts]: "Ack = 3"

section \<open>PayloadType and PayloadTypeFlag\<close>

type_synonym PayloadTypeT = u32

definition Undefined :: PayloadTypeT where [go_consts]: "Undefined = 0"
definition Output :: PayloadTypeT where [go_consts]: "Output = 1"
definition Error :: PayloadTypeT where [go_consts]: "Error = 2"
definition Size :: PayloadTypeT where [go_consts]: "Size = 3"
definition Parameter :: PayloadTypeT where [go_consts]: "Parameter = 4"
definition HandshakeRequest :: PayloadTypeT where [go_consts]: "HandshakeRequest = 5"
definition HandshakeResponse :: PayloadTypeT where [go_consts]: "HandshakeResponse = 6"
definition HandshakeComplete :: PayloadTypeT where [go_consts]: "HandshakeComplete = 7"
definition EncChallengeRequest :: PayloadTypeT where [go_consts]: "EncChallengeRequest = 8"
definition EncChallengeResponse :: PayloadTypeT where [go_consts]: "EncChallengeResponse = 9"
definition Flag :: PayloadTypeT where [go_consts]: "Flag = 10"

definition DisconnectToPort :: u32 where [go_consts]: "DisconnectToPort = 1"
definition TerminateSession :: u32 where [go_consts]: "TerminateSession = 2"
definition ConnectToPortError :: u32 where [go_consts]: "ConnectToPortError = 3"

section \<open>Handshake actions\<close>

definition KMSEncryption :: string where [go_consts]: "KMSEncryption = ''KMSEncryption''"
definition SessionType :: string where [go_consts]: "SessionType = ''SessionType''"

definition Success :: int where [go_consts]: "Success = 1"
definition Failed :: int where [go_consts]: "Failed = 2"
definition Unsupported :: int where [go_consts]: "Unsupported = 3"

end
