(* ===== verification/Go_Bytes.thy ===== *)
theory Go_Bytes
  imports Ssm_Prelude
begin

unbundle bit_operations_syntax

text \<open>
  What the message codec uses of Go's \<^verbatim>\<open>encoding/binary\<close> (big-endian integers) and
  \<^verbatim>\<open>bytes\<close> (\<^verbatim>\<open>TrimRight\<close>, \<^verbatim>\<open>TrimSpace\<close>), with the laws the codec proofs need. The
  fixed-width codecs share one locale: encoding has a fixed length and decoding,
  which looks at a prefix only, inverts it.
\<close>

section \<open>Big-endian integers\<close>

definition PutUint32 :: "u32 \<Rightarrow> bytes" where
  "PutUint32 v = [ucast (drop_bit 24 v), ucast (drop_bit 16 v), ucast (drop_bit 8 v), ucast v]"

definition PutUint64 :: "u64 \<Rightarrow> bytes" where
  "PutUint64 v =
     [ucast (drop_bit 56 v), ucast (drop_bit 48 v), ucast (drop_bit 40 v), ucast (drop_bit 32 v),
      ucast (drop_bit 24 v), ucast (drop_bit 16 v), ucast (drop_bit 8 v), ucast v]"

text \<open>
  \<^verbatim>\<open>Uint32\<close> and \<^verbatim>\<open>Uint64\<close> index the first bytes of their argument; on a shorter
  slice Go panics, and every call in the code is guarded by a length check.
\<close>

definition Uint32 :: "bytes \<Rightarrow> u32" where
  "Uint32 b = ucast (b ! 3) OR push_bit 8 (ucast (b ! 2))
     OR push_bit 16 (ucast (b ! 1)) OR push_bit 24 (ucast (b ! 0))"

definition Uint64 :: "bytes \<Rightarrow> u64" where
  "Uint64 b = ucast (b ! 7) OR push_bit 8 (ucast (b ! 6))
     OR push_bit 16 (ucast (b ! 5)) OR push_bit 24 (ucast (b ! 4))
     OR push_bit 32 (ucast (b ! 3)) OR push_bit 40 (ucast (b ! 2))
     OR push_bit 48 (ucast (b ! 1)) OR push_bit 56 (ucast (b ! 0))"

locale fixed_codec =
  fixes enc :: "'a \<Rightarrow> bytes"
    and dec :: "bytes \<Rightarrow> 'a"
    and width :: nat
  assumes length_enc: "length (enc v) = width"
    and dec_enc: "dec (enc v @ rest) = v"
    and enc_dec: "length b = width \<Longrightarrow> enc (dec b) = b"
begin

lemma dec_enc_exact: "dec (enc v) = v"
  using dec_enc [of v "[]"] by simp

lemma enc_inject: "enc v = enc w \<longleftrightarrow> v = w"
  by (metis dec_enc_exact)

lemma dec_take:
  assumes "width \<le> n" and "width \<le> length b"
  shows "dec (take n b) = dec b"
proof -
  have *: "dec c = dec (take width c)" if "width \<le> length c" for c
  proof -
    have "enc (dec (take width c)) = take width c"
      by (rule enc_dec) (use that in simp)
    then have "c = enc (dec (take width c)) @ drop width c"
      by simp
    then have "dec c = dec (enc (dec (take width c)) @ drop width c)"
      by (rule arg_cong)
    then show ?thesis
      by (simp only: dec_enc)
  qed
  from * [of b] * [of "take n b"] show ?thesis
    using assms by (simp add: min_absorb1)
qed

lemma enc_at:
  assumes "bs = pre @ enc v @ post" and "length pre = k"
  shows "dec (take width (drop k bs)) = v"
  using assms by (simp add: length_enc dec_enc_exact)

end

text \<open>
  A bit position below \<open>8 * k\<close> is a byte index and a position inside that byte. With
  the position split this way every \<open>push_bit\<close> and \<open>ucast\<close> of the two definitions
  is decided by linear arithmetic.
\<close>

lemma byte_position:
  assumes "n < 8 * k"
  obtains q r where "n = 8 * q + r" "r < 8" "q < (k::nat)"
proof
  show "n = 8 * (n div 8) + n mod 8" "n mod 8 < 8" "n div 8 < k"
    using assms by auto
qed

lemma no_high_bit_u8: "8 \<le> n \<Longrightarrow> \<not> bit (b :: u8) n"
  by (auto dest: bit_imp_le_length)

lemmas byte_bits = bit_or_iff bit_push_bit_iff bit_ucast_iff bit_drop_bit_eq no_high_bit_u8

lemma less_8_cases: "q < 8 \<Longrightarrow> q = 0 \<or> q = 1 \<or> q = 2 \<or> q = 3 \<or> q = 4 \<or> q = 5 \<or> q = 6 \<or> q = (7::nat)"
  by arith

lemma less_4_cases: "q < 4 \<Longrightarrow> q = 0 \<or> q = 1 \<or> q = 2 \<or> q = (3::nat)"
  by arith

lemma Uint32_Put: "Uint32 (PutUint32 v @ rest) = v"
proof (rule bit_word_eqI)
  fix n assume "n < LENGTH(32)"
  then have "n < 8 * 4" by simp
  then obtain q r where n: "n = 8 * q + r" "r < 8" "q < 4" by (rule byte_position)
  from less_4_cases [OF n(3)] n(2)
  show "bit (Uint32 (PutUint32 v @ rest)) n = bit v n"
    unfolding n(1) by (elim disjE) (simp_all add: Uint32_def PutUint32_def byte_bits)
qed

lemma Put_Uint32:
  assumes "length b = 4"
  shows "PutUint32 (Uint32 b) = b"
proof -
  from assms obtain b0 b1 b2 b3 where b: "b = [b0, b1, b2, b3]"
    by (auto simp: length_Suc_conv eval_nat_numeral)
  show ?thesis
    by (simp add: b PutUint32_def Uint32_def) (intro conjI bit_word_eqI; simp add: byte_bits)
qed

lemma Uint64_Put: "Uint64 (PutUint64 v @ rest) = v"
proof (rule bit_word_eqI)
  fix n assume "n < LENGTH(64)"
  then have "n < 8 * 8" by simp
  then obtain q r where n: "n = 8 * q + r" "r < 8" "q < 8" by (rule byte_position)
  from less_8_cases [OF n(3)] n(2)
  show "bit (Uint64 (PutUint64 v @ rest)) n = bit v n"
    unfolding n(1) by (elim disjE) (simp_all add: Uint64_def PutUint64_def byte_bits)
qed

lemma Put_Uint64:
  assumes "length b = 8"
  shows "PutUint64 (Uint64 b) = b"
proof -
  from assms obtain b0 b1 b2 b3 b4 b5 b6 b7 where b: "b = [b0, b1, b2, b3, b4, b5, b6, b7]"
    by (auto simp: length_Suc_conv eval_nat_numeral)
  show ?thesis
    by (simp add: b PutUint64_def Uint64_def) (intro conjI bit_word_eqI; simp add: byte_bits)
qed

lemma length_PutUint32: "length (PutUint32 v) = 4"
  by (simp add: PutUint32_def)

lemma length_PutUint64: "length (PutUint64 v) = 8"
  by (simp add: PutUint64_def)

interpretation be32: fixed_codec PutUint32 Uint32 4
  by (rule fixed_codec.intro [OF length_PutUint32 Uint32_Put Put_Uint32])

interpretation be64: fixed_codec PutUint64 Uint64 8
  by (rule fixed_codec.intro [OF length_PutUint64 Uint64_Put Put_Uint64])

lemmas be_length [simp, codec_simps] = be32.length_enc be64.length_enc
lemmas be_roundtrip [simp, codec_simps] = be32.dec_enc be64.dec_enc be32.dec_enc_exact be64.dec_enc_exact

section \<open>Trimming\<close>

text \<open>
  \<^verbatim>\<open>bytes.TrimSpace\<close> removes leading and trailing white space, where white space is
  any rune with Unicode's White\_Space property, read as UTF-8. Besides the six
  ASCII bytes these are eighteen runes with a two- or three-byte encoding; since a
  UTF-8 encoding is never a proper part of another one, testing for a rune at either
  end is comparing with its bytes.
\<close>

definition asciiSpace :: "u8 \<Rightarrow> bool" where
  "asciiSpace c \<longleftrightarrow> c \<in> set [9, 10, 11, 12, 13, 32]"

definition unicodeSpaces :: "bytes list" where
  "unicodeSpaces =
     [[0xC2, 0x85], [0xC2, 0xA0], [0xE1, 0x9A, 0x80]]
     @ map (\<lambda>c. [0xE2, 0x80, c])
         [0x80, 0x81, 0x82, 0x83, 0x84, 0x85, 0x86, 0x87, 0x88, 0x89, 0x8A, 0xA8, 0xA9, 0xAF]
     @ [[0xE2, 0x81, 0x9F], [0xE3, 0x80, 0x80]]"

text \<open>The length of the space that \<open>b\<close> starts with, 0 if it starts with none.\<close>

definition spaceLen :: "bytes list \<Rightarrow> bytes \<Rightarrow> nat" where
  "spaceLen ps b =
     (case b of [] \<Rightarrow> 0
      | c # _ \<Rightarrow>
          if asciiSpace c then 1
          else (case find (\<lambda>p. take (length p) b = p) ps of None \<Rightarrow> 0 | Some p \<Rightarrow> length p))"

lemma spaceLen_Nil [simp]: "spaceLen ps [] = 0"
  by (simp add: spaceLen_def)

lemma spaceLen_pos: "spaceLen ps b \<noteq> 0 \<Longrightarrow> 0 < length b"
  by (cases b) auto

function dropSpaces :: "bytes list \<Rightarrow> bytes \<Rightarrow> bytes" where
  "dropSpaces ps b =
     (if spaceLen ps b = 0 then b else dropSpaces ps (drop (spaceLen ps b) b))"
  by pat_completeness auto
termination
  by (relation "measure (\<lambda>(ps, b). length b)") (use spaceLen_pos in \<open>force+\<close>)

declare dropSpaces.simps [simp del]

definition TrimSpace :: "bytes \<Rightarrow> bytes" where
  "TrimSpace b =
     rev (dropSpaces (map rev unicodeSpaces) (rev (dropSpaces unicodeSpaces b)))"

text \<open>\<^verbatim>\<open>bytes.TrimRight(data, "\\x00")\<close>: a cutset of one ASCII byte.\<close>

definition TrimRight :: "bytes \<Rightarrow> u8 \<Rightarrow> bytes" where
  "TrimRight b c = rev (dropWhile (\<lambda>x. x = c) (rev b))"

text \<open>A text that trimming leaves alone on both sides.\<close>

definition trimmed :: "bytes \<Rightarrow> bool" where
  "trimmed b \<longleftrightarrow> b \<noteq> [] \<and> last b \<noteq> 0 \<and> spaceLen unicodeSpaces b = 0
     \<and> spaceLen (map rev unicodeSpaces) (rev b) = 0"

lemma dropSpaces_stop: "spaceLen ps b = 0 \<Longrightarrow> dropSpaces ps b = b"
  by (subst dropSpaces.simps) simp

lemma dropSpaces_blanks: "dropSpaces ps (replicate n 0x20 @ b) = dropSpaces ps b"
proof (induction n)
  case (Suc n)
  have "spaceLen ps (replicate (Suc n) 0x20 @ b) = 1"
    by (simp add: spaceLen_def asciiSpace_def)
  with Suc show ?case
    by (subst dropSpaces.simps) simp
qed simp

lemma unicodeSpaces_no_blank: "p \<in> set unicodeSpaces \<Longrightarrow> 0x20 \<notin> set p"
  by (auto simp: unicodeSpaces_def)

lemma take_blanks_not_space:
  assumes "p \<in> set unicodeSpaces" and "take (length p) b \<noteq> p"
  shows "take (length p) (b @ replicate n 0x20) \<noteq> p"
proof (cases "length p \<le> length b \<or> n = 0")
  case True
  with assms(2) show ?thesis by auto
next
  case False
  then have "0x20 \<in> set (take (length p) (b @ replicate n 0x20))"
    by (cases "length p - length b"; cases n) auto
  with unicodeSpaces_no_blank [OF assms(1)] show ?thesis by metis
qed

lemma spaceLen_blanks:
  assumes "b \<noteq> []" and "spaceLen unicodeSpaces b = 0"
  shows "spaceLen unicodeSpaces (b @ replicate n 0x20) = 0"
proof -
  have nonempty: "length p \<noteq> 0" if "p \<in> set unicodeSpaces" for p
    using that by (auto simp: unicodeSpaces_def)
  obtain c b' where b: "b = c # b'" using assms(1) by (cases b) auto
  with assms(2) have c: "\<not> asciiSpace c" by (auto simp: spaceLen_def)
  have "find (\<lambda>p. take (length p) b = p) unicodeSpaces = None"
  proof (rule ccontr)
    assume "find (\<lambda>p. take (length p) b = p) unicodeSpaces \<noteq> None"
    then obtain p where p: "find (\<lambda>p. take (length p) b = p) unicodeSpaces = Some p" by auto
    then have "p \<in> set unicodeSpaces" by (auto simp: find_Some_iff)
    from nonempty [OF this] assms(2) p c b show False by (simp add: spaceLen_def)
  qed
  then have "find (\<lambda>p. take (length p) (b @ replicate n 0x20) = p) unicodeSpaces = None"
    using take_blanks_not_space [of _ b n] by (auto simp: find_None_iff)
  with b c show ?thesis by (simp add: spaceLen_def)
qed

lemma TrimSpace_blanks:
  assumes "trimmed b"
  shows "TrimSpace (b @ replicate n 0x20) = b"
  using assms spaceLen_blanks [of b n]
  by (simp add: TrimSpace_def trimmed_def dropSpaces_stop dropSpaces_blanks)

lemma TrimRight_last: "b \<noteq> [] \<Longrightarrow> last b \<noteq> c \<Longrightarrow> TrimRight b c = b"
  by (cases b rule: rev_cases) (auto simp: TrimRight_def)

lemma TrimSpace_TrimRight_blanks:
  assumes "trimmed b"
  shows "TrimSpace (TrimRight (b @ replicate n 0x20) 0) = b"
proof -
  have "TrimRight (b @ replicate n 0x20) 0 = b @ replicate n 0x20"
    using assms by (intro TrimRight_last) (auto simp: trimmed_def last_append)
  then show ?thesis
    by (simp add: TrimSpace_blanks assms)
qed

end
