(* ===== verification/Sha256.thy ===== *)
theory Sha256
  imports Go_Bytes
begin

text \<open>
  Go's \<^verbatim>\<open>crypto/sha256\<close>, which the message codec uses for the payload digest: the
  function of FIPS 180-4 on byte strings, computed word by word at 32 bits. The round
  constants are written in decimal. The codec proofs need no more of it than that it is
  a function with 32-byte results; it is defined in full so that concrete messages can
  be evaluated.
\<close>

definition roundConstants :: "u32 list" where
  "roundConstants =
    [
     1116352408, 1899447441, 3049323471, 3921009573, 961987163, 1508970993,
     2453635748, 2870763221, 3624381080, 310598401, 607225278, 1426881987,
     1925078388, 2162078206, 2614888103, 3248222580, 3835390401, 4022224774,
     264347078, 604807628, 770255983, 1249150122, 1555081692, 1996064986,
     2554220882, 2821834349, 2952996808, 3210313671, 3336571891, 3584528711,
     113926993, 338241895, 666307205, 773529912, 1294757372, 1396182291,
     1695183700, 1986661051, 2177026350, 2456956037, 2730485921, 2820302411,
     3259730800, 3345764771, 3516065817, 3600352804, 4094571909, 275423344,
     430227734, 506948616, 659060556, 883997877, 958139571, 1322822218,
     1537002063, 1747873779, 1955562222, 2024104815, 2227730452, 2361852424,
     2428436474, 2756734187, 3204031479, 3329325298]"

definition initialHash :: "u32 list" where
  "initialHash =
    [
     1779033703, 3144134277, 1013904242, 2773480762, 1359893119, 2600822924,
     528734635, 1541459225]"

definition padMessage :: "bytes \<Rightarrow> bytes" where
  "padMessage m =
     m @ 0x80 # replicate ((119 - length m mod 64) mod 64) 0 @ PutUint64 (word_of_nat (8 * length m))"

fun chunks :: "nat \<Rightarrow> nat \<Rightarrow> 'a list \<Rightarrow> 'a list list" where
  "chunks 0 k xs = []"
| "chunks (Suc n) k xs = take k xs # chunks n k (drop k xs)"

definition blockWords :: "bytes \<Rightarrow> u32 list" where
  "blockWords b = map Uint32 (chunks 16 4 b)"

text \<open>The message schedule, newest word first: word \<open>t\<close> comes from words \<open>t-2\<close>,
  \<open>t-7\<close>, \<open>t-15\<close> and \<open>t-16\<close>.\<close>

definition scheduleNext :: "u32 list \<Rightarrow> u32" where
  "scheduleNext ws =
     (let a = ws ! 1; b = ws ! 14;
          s1 = word_rotr 17 a XOR word_rotr 19 a XOR drop_bit 10 a;
          s0 = word_rotr 7 b XOR word_rotr 18 b XOR drop_bit 3 b
      in s1 + ws ! 6 + s0 + ws ! 15)"

fun extendSchedule :: "nat \<Rightarrow> u32 list \<Rightarrow> u32 list" where
  "extendSchedule 0 ws = ws"
| "extendSchedule (Suc n) ws = extendSchedule n (scheduleNext ws # ws)"

fun shaRound :: "u32 list \<Rightarrow> u32 \<times> u32 \<Rightarrow> u32 list" where
  "shaRound [a, b, c, d, e, f, g, h] (k, w) =
     (let t1 = h + (word_rotr 6 e XOR word_rotr 11 e XOR word_rotr 25 e)
                 + ((e AND f) XOR (NOT e AND g)) + k + w;
          t2 = (word_rotr 2 a XOR word_rotr 13 a XOR word_rotr 22 a)
                 + ((a AND b) XOR (a AND c) XOR (b AND c))
      in [t1 + t2, a, b, c, d + t1, e, f, g])"
| "shaRound v kw = v"

definition shaBlock :: "u32 list \<Rightarrow> bytes \<Rightarrow> u32 list" where
  "shaBlock h b =
     (let ws = rev (extendSchedule 48 (rev (blockWords b)))
      in map2 (+) h (foldl shaRound h (zip roundConstants ws)))"

definition sha256_Sum :: "bytes \<Rightarrow> bytes" where
  "sha256_Sum m =
     (let p = padMessage m
      in concat (map PutUint32 (foldl shaBlock initialHash (chunks (length p div 64) 64 p))))"

definition sha256_Size :: nat where [go_consts]: "sha256_Size = 32"

lemma length_shaRound [simp]: "length (shaRound v kw) = length v"
  by (induction v kw rule: shaRound.induct) (simp_all add: Let_def)

lemma length_foldl_shaRound [simp]: "length (foldl shaRound v kws) = length v"
  by (induction kws arbitrary: v) simp_all

lemma length_shaBlock [simp]: "length (shaBlock h b) = length h"
  by (simp add: shaBlock_def Let_def)

lemma length_foldl_shaBlock [simp]: "length (foldl shaBlock h bs) = length h"
  by (induction bs arbitrary: h) simp_all

lemma length_concat_PutUint32: "length (concat (map PutUint32 ws)) = 4 * length ws"
  by (induction ws) simp_all

lemma length_sha256 [simp, codec_simps]: "length (sha256_Sum m) = 32"
  by (simp add: sha256_Sum_def Let_def length_concat_PutUint32 initialHash_def)

text \<open>Padding fills whole blocks.\<close>

lemma length_padMessage_mod: "length (padMessage m) mod 64 = 0"
proof -
  define r where "r = length m mod 64"
  define q where "q = length m div 64"
  have m: "length m = 64 * q + r" "r < 64" by (simp_all add: q_def r_def)
  have fill: "(119 - r) mod 64 = (if r \<le> 55 then 55 - r else 119 - r)"
    by (cases "r \<le> 55") (use m(2) in \<open>simp_all add: le_mod_geq\<close>)
  have "length (padMessage m) = 64 * q + (r + 9 + (119 - r) mod 64)"
    by (simp add: padMessage_def m)
  also have "\<dots> = 64 * q + (if r \<le> 55 then 64 else 128)"
    using m(2) by (simp add: fill)
  finally show ?thesis by simp
qed

end
