(* ===== verification/Agent_Message.thy ===== *)
theory Agent_Message
  imports Message_Types Go_Bytes Sha256
begin

text \<open>
  The binary codec of \<^verbatim>\<open>messages/message.go\<close>: the \<^verbatim>\<open>AgentMessage\<close> struct with
  \<^verbatim>\<open>ValidateMessage\<close>, \<^verbatim>\<open>UnmarshalBinary\<close> and \<^verbatim>\<open>MarshalBinary\<close>. Both codec methods
  mutate their receiver, so their models return it updated. A Go slice expression that
  would panic is a \<open>Panics\<close> result; 32-bit arithmetic is word arithmetic and wraps as
  it does in Go.

  \<^verbatim>\<open>time.Time\<close> is an integer number of nanoseconds since the Unix epoch, \<^verbatim>\<open>uuid.UUID\<close> a
  list of 16 bytes (\<open>wf_message\<close>).
\<close>

section \<open>The struct\<close>

definition agentMsgHeaderLen :: u32 where [go_consts]: "agentMsgHeaderLen = 116"

record agent_message =
  headerLength :: u32
  MessageType :: string
  SchemaVersion :: u32
  CreatedDate :: time
  SequenceNumber :: int64
  Flags :: u64
  MessageID :: bytes
  PayloadDigest :: bytes
  PayloadType :: u32
  PayloadLength :: u32
  Payload :: bytes

text \<open>The zero \<^verbatim>\<open>time.Time\<close> is midnight, January 1 of year 1.\<close>

definition zeroTime :: time where [go_consts]: "zeroTime = - 62135596800 * 10 ^ 9"

definition zeroMessage :: agent_message where
  "zeroMessage =
     \<lparr>headerLength = 0, MessageType = [], SchemaVersion = 0, CreatedDate = zeroTime,
      SequenceNumber = 0, Flags = 0, MessageID = replicate 16 0, PayloadDigest = [],
      PayloadType = 0, PayloadLength = 0, Payload = []\<rparr>"

definition wf_message :: "agent_message \<Rightarrow> bool" where
  "wf_message m \<longleftrightarrow> length (MessageID m) = 16"

section \<open>Helpers\<close>

definition IsZero :: "time \<Rightarrow> bool" where
  "IsZero t \<longleftrightarrow> t = zeroTime"

definition UnixMilli :: "time \<Rightarrow> int64" where
  "UnixMilli t = word_of_int (t div 10 ^ 6)"

text \<open>\<^verbatim>\<open>parseTime\<close>: the product with \<^verbatim>\<open>time.Millisecond\<close> is an int64 product and wraps.\<close>

definition parseTime :: "bytes \<Rightarrow> time" where
  "parseTime data = sint (Uint64 data * 10 ^ 6)"

definition formatUUIDBytes :: "bytes \<Rightarrow> bytes" where
  "formatUUIDBytes data = drop 8 data @ take 8 data"

definition parseMessageType :: "bytes \<Rightarrow> string" where
  "parseMessageType data = string_of (TrimSpace (TrimRight data 0))"

definition convertMessageType :: "agent_message \<Rightarrow> bytes" where
  "convertMessageType m =
     (let msgTypeLen = 32;
          msgType = (if length (MessageType m) \<ge> msgTypeLen then bytes_of (MessageType m)
                     else bytes_of (MessageType m)
                       @ replicate (msgTypeLen - length (MessageType m)) 0x20)
      in take msgTypeLen msgType)"

definition computePayloadDigest :: "agent_message \<Rightarrow> bytes" where
  "computePayloadDigest m = sha256_Sum (Payload m)"

definition sha256PayloadDigest :: "agent_message \<Rightarrow> agent_message" where
  "sha256PayloadDigest m = m\<lparr>PayloadDigest := computePayloadDigest m\<rparr>"

section \<open>Validation\<close>

abbreviation invalid :: "string \<Rightarrow> go_error" where
  "invalid text \<equiv> Errorf text [ErrInvalidAgentMessage]"

definition ValidateMessage :: "agent_message \<Rightarrow> go_error option" where
  "ValidateMessage m =
     (if MessageType m = StartPublication \<or> MessageType m = PausePublication then None
      else if headerLength m > agentMsgHeaderLen \<or> headerLength m < agentMsgHeaderLen - 4 then
        Some (invalid ''invalid header length'')
      else if SchemaVersion m < 1 then Some (invalid ''invalid schema version'')
      else if length (MessageType m) < 10 then Some (invalid ''invalid type'')
      else if IsZero (CreatedDate m) then Some (invalid ''invalid date'')
      else if length (MessageID m) \<noteq> 16 then Some (invalid ''invalid id'')
      else if length (Payload m) \<noteq> unat (PayloadLength m) then
        Some (invalid ''payload length mismatch'')
      else if PayloadLength m > 0 \<and> computePayloadDigest m \<noteq> PayloadDigest m then
        Some (invalid ''payload digest mismatch'')
      else None)"

section \<open>Decoding\<close>

text \<open>
  The slice expression \<^verbatim>\<open>data[a:b]\<close>: \<open>slice\<close> where the code has already checked the
  length, \<open>checked_slice\<close> where it is the bounds check of the runtime that decides
  (\<^term>\<open>None\<close> is the panic).
\<close>

definition slice :: "bytes \<Rightarrow> nat \<Rightarrow> nat \<Rightarrow> bytes" where
  "slice data a b = take (b - a) (drop a data)"

definition checked_slice :: "bytes \<Rightarrow> nat \<Rightarrow> nat \<Rightarrow> bytes option" where
  "checked_slice data a b =
     (if a \<le> b \<and> b \<le> length data then Some (slice data a b) else None)"

text \<open>Lines 220 to 226: the fields up to the digest.\<close>

definition readBasicHeader :: "agent_message \<Rightarrow> bytes \<Rightarrow> agent_message" where
  "readBasicHeader m data =
     m\<lparr>MessageType := parseMessageType (slice data 4 36),
       SchemaVersion := Uint32 (slice data 36 40),
       CreatedDate := parseTime (slice data 40 48),
       SequenceNumber := Uint64 (slice data 48 56),
       Flags := Uint64 (slice data 56 64),
       MessageID := formatUUIDBytes (slice data 64 80),
       PayloadDigest := slice data 80 (80 + sha256_Size)\<rparr>"

text \<open>Lines 236 to 251: the payload length and the payload.\<close>

definition readPayload :: "agent_message \<Rightarrow> bytes \<Rightarrow> outcome \<times> agent_message" where
  "readPayload m data =
     (let payloadLenEnd = headerLength m + 4 in
      if length data < unat payloadLenEnd then
        (Returns (Some (invalid ''data too short for payload length field'')), m)
      else
        let m = m\<lparr>PayloadLength := Uint32 (slice data (unat (headerLength m)) (unat payloadLenEnd))\<rparr>;
            totalRequired = payloadLenEnd + PayloadLength m in
        if length data < unat totalRequired then
          (Returns (Some (invalid ''data too short for payload'')), m)
        else
          (case checked_slice data (unat payloadLenEnd) (unat (payloadLenEnd + PayloadLength m)) of
             None \<Rightarrow> (Panics, m)
           | Some p \<Rightarrow> let m = m\<lparr>Payload := p\<rparr> in (Returns (ValidateMessage m), m)))"

definition UnmarshalBinary :: "agent_message \<Rightarrow> bytes \<Rightarrow> outcome \<times> agent_message" where
  "UnmarshalBinary m data =
     (if length data < 4 then
        (Returns (Some (invalid ''data too short for header length field'')), m)
      else
        let m = m\<lparr>headerLength := Uint32 data\<rparr> in
        if headerLength m > agentMsgHeaderLen \<or> headerLength m < agentMsgHeaderLen - 4 then
          (Returns (Some (invalid ''invalid header length'')), m)
        else if length data < 80 + sha256_Size then
          (Returns (Some (invalid ''data too short for basic header'')), m)
        else
          let m = readBasicHeader m data in
          if headerLength m = agentMsgHeaderLen then
            if length data < unat (headerLength m) then
              (Returns (Some (invalid ''data too short for full header'')), m)
            else
              readPayload (m\<lparr>PayloadType := Uint32 (slice data 112 (unat (headerLength m)))\<rparr>) data
          else readPayload m data)"

section \<open>Encoding\<close>

definition wireBytes :: "agent_message \<Rightarrow> bytes" where
  "wireBytes m =
     PutUint32 (headerLength m) @ convertMessageType m @ PutUint32 (SchemaVersion m)
     @ PutUint64 (UnixMilli (CreatedDate m)) @ PutUint64 (SequenceNumber m) @ PutUint64 (Flags m)
     @ formatUUIDBytes (MessageID m) @ take sha256_Size (PayloadDigest m)
     @ PutUint32 (PayloadType m) @ PutUint32 (PayloadLength m) @ Payload m"

text \<open>
  \<^verbatim>\<open>MarshalBinary\<close>: the result and the receiver, whose digest and length it sets.
  Writes of fixed-size values to a \<^verbatim>\<open>bytes.Buffer\<close> do not fail.
\<close>

definition MarshalBinary :: "agent_message \<Rightarrow> (go_error + bytes) \<times> agent_message" where
  "MarshalBinary m =
     (let m = sha256PayloadDigest m;
          m = m\<lparr>PayloadLength := word_of_nat (length (Payload m))\<rparr>
      in case ValidateMessage m of
           Some e \<Rightarrow> (Inl e, m)
         | None \<Rightarrow> (Inr (wireBytes m), m))"

section \<open>The layout\<close>

lemma length_convertMessageType [simp]: "length (convertMessageType m) = 32"
  by (simp add: convertMessageType_def Let_def)

lemma convertMessageType_update [simp]:
  "convertMessageType (m\<lparr>PayloadDigest := d\<rparr>) = convertMessageType m"
  "convertMessageType (m\<lparr>PayloadLength := n\<rparr>) = convertMessageType m"
  by (simp_all add: convertMessageType_def)

lemma length_formatUUIDBytes [simp]: "length (formatUUIDBytes b) = length b"
  by (simp add: formatUUIDBytes_def)

lemma formatUUIDBytes_twice [simp]: "length b = 16 \<Longrightarrow> formatUUIDBytes (formatUUIDBytes b) = b"
  by (simp add: formatUUIDBytes_def)

text \<open>The message a successful \<^verbatim>\<open>MarshalBinary\<close> leaves in its receiver.\<close>

definition sealed :: "agent_message \<Rightarrow> agent_message" where
  "sealed m = m\<lparr>PayloadDigest := sha256_Sum (Payload m),
     PayloadLength := word_of_nat (length (Payload m))\<rparr>"

lemma MarshalBinary_sealed:
  "MarshalBinary m =
    (case ValidateMessage (sealed m) of
       Some e \<Rightarrow> (Inl e, sealed m) | None \<Rightarrow> (Inr (wireBytes (sealed m)), sealed m))"
  by (simp add: MarshalBinary_def sealed_def sha256PayloadDigest_def computePayloadDigest_def Let_def
      split: option.split)

lemma MarshalBinary_Inr:
  assumes "MarshalBinary m = (Inr bs, m')"
  shows "bs = wireBytes (sealed m)" and "m' = sealed m" and "ValidateMessage (sealed m) = None"
  using assms by (auto simp: MarshalBinary_sealed split: option.splits)

lemma sealed_simps [simp]:
  "headerLength (sealed m) = headerLength m" "MessageType (sealed m) = MessageType m"
  "SchemaVersion (sealed m) = SchemaVersion m" "CreatedDate (sealed m) = CreatedDate m"
  "SequenceNumber (sealed m) = SequenceNumber m" "Flags (sealed m) = Flags m"
  "MessageID (sealed m) = MessageID m" "PayloadDigest (sealed m) = sha256_Sum (Payload m)"
  "PayloadType (sealed m) = PayloadType m"
  "PayloadLength (sealed m) = word_of_nat (length (Payload m))" "Payload (sealed m) = Payload m"
  "convertMessageType (sealed m) = convertMessageType m"
  by (simp_all add: sealed_def)

lemma length_wireBytes:
  "length (MessageID m) = 16 \<Longrightarrow> length (PayloadDigest m) = 32 \<Longrightarrow>
   length (wireBytes m) = 120 + length (Payload m)"
  by (simp add: wireBytes_def go_consts)

text \<open>Cutting a field out of a concatenation at its offset.\<close>

lemma slice_append:
  "slice (x @ y) a b =
    (if b \<le> length x then slice x a b
     else if length x \<le> a then slice y (a - length x) (b - length x)
     else slice x a (length x) @ slice y 0 (b - length x))"
  by (auto simp: slice_def take_drop)

lemma slice_all: "length x = n \<Longrightarrow> slice x 0 n = x"
  by (simp add: slice_def)

lemma slice_empty: "slice x a a = []"
  by (simp add: slice_def)

lemmas slice_simps = slice_append slice_all slice_empty

lemma slice_wireBytes:
  assumes uuid: "length (MessageID m) = 16" and digest: "length (PayloadDigest m) = 32"
  shows "slice (wireBytes m @ junk) 4 36 = convertMessageType m"
  "slice (wireBytes m @ junk) 36 40 = PutUint32 (SchemaVersion m)"
  "slice (wireBytes m @ junk) 40 48 = PutUint64 (UnixMilli (CreatedDate m))"
  "slice (wireBytes m @ junk) 48 56 = PutUint64 (SequenceNumber m)"
  "slice (wireBytes m @ junk) 56 64 = PutUint64 (Flags m)"
  "slice (wireBytes m @ junk) 64 80 = formatUUIDBytes (MessageID m)"
  "slice (wireBytes m @ junk) 80 112 = PayloadDigest m"
  "slice (wireBytes m @ junk) 112 116 = PutUint32 (PayloadType m)"
  "slice (wireBytes m @ junk) 116 120 = PutUint32 (PayloadLength m)"
  "slice (wireBytes m @ junk) 120 (120 + length (Payload m)) = Payload m"
  by (simp_all add: wireBytes_def slice_simps uuid digest go_consts)

lemma Uint32_wireBytes: "Uint32 (wireBytes m @ junk) = headerLength m"
  by (simp add: wireBytes_def)

section \<open>Decoding what was encoded\<close>

definition truncateMilli :: "time \<Rightarrow> time" where
  "truncateMilli t = t div 10 ^ 6 * 10 ^ 6"

text \<open>Dates whose milliseconds survive the int64 nanoseconds of \<^verbatim>\<open>parseTime\<close>:
  roughly the years 1678 to 2262.\<close>

definition wireDate :: "time \<Rightarrow> bool" where
  "wireDate t \<longleftrightarrow> - (2 ^ 63) \<le> truncateMilli t \<and> truncateMilli t < 2 ^ 63"

text \<open>Type names that fill at most the 32-byte field and carry no padding of their own.\<close>

definition wireType :: "string \<Rightarrow> bool" where
  "wireType t \<longleftrightarrow> length t \<le> 32 \<and> trimmed (bytes_of t)"

lemma sint_word_of_int_64: "- (2 ^ 63) \<le> i \<Longrightarrow> i < 2 ^ 63 \<Longrightarrow> sint (word_of_int i :: int64) = i"
  unfolding sint_sbintrunc' by (rule signed_take_bit_int_eq_self) simp_all

lemma parseTime_UnixMilli:
  assumes "wireDate t"
  shows "parseTime (PutUint64 (UnixMilli t)) = truncateMilli t"
proof -
  have "word_of_int (t div 10 ^ 6) * (10 ^ 6 :: int64) = word_of_int (truncateMilli t)"
    by (simp add: truncateMilli_def)
  then show ?thesis
    using assms sint_word_of_int_64 [of "truncateMilli t"]
    by (simp add: parseTime_def UnixMilli_def wireDate_def)
qed

lemma parseMessageType_convert:
  assumes "wireType (MessageType m)"
  shows "parseMessageType (convertMessageType m) = MessageType m"
proof -
  have "convertMessageType m =
      bytes_of (MessageType m) @ replicate (32 - length (MessageType m)) 0x20"
    using assms by (auto simp: convertMessageType_def wireType_def)
  then show ?thesis
    using assms by (simp add: parseMessageType_def TrimSpace_TrimRight_blanks wireType_def)
qed

lemma parseTime_not_zero: "parseTime b \<noteq> zeroTime"
  using sint_64_bounds(1) [of "Uint64 b * 10 ^ 6"] by (auto simp: parseTime_def zeroTime_def)

lemma unat_add_no_wrap: "unat (a :: u32) + unat b < 2 ^ 32 \<Longrightarrow> unat (a + b) = unat a + unat b"
  by (simp add: unat_word_ariths)

lemma unat_headerLength:
  assumes "\<not> (h > agentMsgHeaderLen \<or> h < agentMsgHeaderLen - 4)"
  shows "112 \<le> unat h" and "unat h \<le> 116" and "unat (h + 4) = unat h + 4"
proof -
  have "\<not> 116 < h" "\<not> h < 112" using assms by (simp_all add: go_consts)
  then show "112 \<le> unat h" "unat h \<le> 116" by (simp_all add: word_less_nat_alt)
  then show "unat (h + 4) = unat h + 4" by (simp add: unat_word_ariths)
qed

lemma headerLen_unat:
  "h = agentMsgHeaderLen \<longleftrightarrow> unat h = 116"
  "h > agentMsgHeaderLen \<or> h < agentMsgHeaderLen - 4 \<longleftrightarrow> \<not> (112 \<le> unat h \<and> unat h \<le> 116)"
  by (auto simp: go_consts word_less_nat_alt word_unat_eq_iff)

text \<open>The message a peer decodes from the bytes of \<open>m\<close>.\<close>

definition received :: "agent_message \<Rightarrow> agent_message" where
  "received m = m\<lparr>CreatedDate := truncateMilli (CreatedDate m)\<rparr>"

lemma ValidateMessage_received:
  assumes "ValidateMessage m = None" and "wireDate (CreatedDate m)"
  shows "ValidateMessage (received m) = None"
proof -
  have "truncateMilli (CreatedDate m) \<noteq> zeroTime"
    using assms(2) by (auto simp: wireDate_def zeroTime_def)
  then show ?thesis
    using assms(1)
    by (auto simp: ValidateMessage_def received_def IsZero_def computePayloadDigest_def
        split: if_splits)
qed

lemma readBasicHeader_wireBytes:
  assumes "length (MessageID m) = 16" and "length (PayloadDigest m) = 32"
    and "wireType (MessageType m)" and "wireDate (CreatedDate m)"
  shows "readBasicHeader r (wireBytes m @ junk) =
    r\<lparr>MessageType := MessageType m, SchemaVersion := SchemaVersion m,
      CreatedDate := truncateMilli (CreatedDate m), SequenceNumber := SequenceNumber m,
      Flags := Flags m, MessageID := MessageID m, PayloadDigest := PayloadDigest m\<rparr>"
  using assms
  by (simp add: readBasicHeader_def slice_wireBytes parseMessageType_convert parseTime_UnixMilli
      go_consts)

lemma UnmarshalBinary_wireBytes:
  assumes m: "length (MessageID m) = 16" "length (PayloadDigest m) = 32"
    "wireType (MessageType m)" "wireDate (CreatedDate m)" "headerLength m = agentMsgHeaderLen"
    and len: "PayloadLength m = word_of_nat (length (Payload m))" "length (Payload m) < 2 ^ 32 - 120"
    and valid: "ValidateMessage m = None"
  shows "UnmarshalBinary r (wireBytes m @ junk) = (Returns None, received m)"
proof -
  have L: "unat (PayloadLength m) = length (Payload m)"
    using len by (simp add: unat_of_nat)
  have total: "unat (120 + PayloadLength m) = 120 + length (Payload m)"
    using L len(2) by (simp add: unat_word_ariths)
  have size: "length (wireBytes m @ junk) = 120 + length (Payload m) + length junk"
    using length_wireBytes m by simp
  note slices = slice_wireBytes [OF m(1,2), of junk]
  have whole: "r\<lparr>headerLength := agentMsgHeaderLen, MessageType := MessageType m,
      SchemaVersion := SchemaVersion m, CreatedDate := truncateMilli (CreatedDate m),
      SequenceNumber := SequenceNumber m, Flags := Flags m, MessageID := MessageID m,
      PayloadDigest := PayloadDigest m, PayloadType := PayloadType m,
      PayloadLength := PayloadLength m, Payload := Payload m\<rparr> = received m"
    using m(5) by (simp add: received_def)
  show ?thesis
    using size valid m(4)
    by (simp add: UnmarshalBinary_def Uint32_wireBytes m readBasicHeader_wireBytes
        readPayload_def go_consts slices Let_def total checked_slice_def
        ValidateMessage_received whole [unfolded go_consts])
qed

text \<open>Decoding, put as one condition per outcome.\<close>

lemma readPayload_panics_iff:
  assumes "112 \<le> unat (headerLength m)" and "unat (headerLength m) \<le> 116"
  shows "fst (readPayload m data) = Panics \<longleftrightarrow>
    unat (headerLength m) + 4 \<le> length data
    \<and> 2 ^ 32 \<le> unat (headerLength m) + 4
        + unat (Uint32 (slice data (unat (headerLength m)) (unat (headerLength m) + 4)))"
proof -
  let ?h = "unat (headerLength m)"
  let ?L = "Uint32 (slice data ?h (?h + 4))"
  have h: "unat (headerLength m + 4) = ?h + 4"
    using assms by (simp add: unat_word_ariths)
  have L: "unat ?L < 2 ^ 32"
    using unsigned_less [of ?L, where 'a = nat] by simp
  have wrap: "unat (headerLength m + 4 + ?L) = (?h + 4 + unat ?L) mod 2 ^ 32"
    using h by (simp add: unat_word_ariths)
  show ?thesis
  proof (cases "?h + 4 + unat ?L < 2 ^ 32")
    case True
    then have "unat (headerLength m + 4 + ?L) = ?h + 4 + unat ?L"
      by (simp add: wrap)
    with True show ?thesis
      by (simp add: readPayload_def Let_def h checked_slice_def)
  next
    case False
    then have "unat (headerLength m + 4 + ?L) = ?h + 4 + unat ?L - 2 ^ 32"
      using L assms by (simp add: wrap le_mod_geq)
    then have "unat (headerLength m + 4 + ?L) < ?h + 4"
      using L False by simp
    with False show ?thesis
      by (auto simp: readPayload_def Let_def h checked_slice_def)
  qed
qed

lemma readBasicHeader_simps [simp]:
  "headerLength (readBasicHeader m data) = headerLength m"
  "PayloadType (readBasicHeader m data) = PayloadType m"
  by (simp_all add: readBasicHeader_def)

lemma UnmarshalBinary_panics_conv:
  "fst (UnmarshalBinary m data) = Panics \<longleftrightarrow>
    (let h = unat (Uint32 data) in
     112 \<le> h \<and> h \<le> 116 \<and> h + 4 \<le> length data
     \<and> 2 ^ 32 \<le> h + 4 + unat (Uint32 (slice data h (h + 4))))"
proof (cases "length data < 4 \<or> length data < 112 \<or>
    \<not> (112 \<le> unat (Uint32 data) \<and> unat (Uint32 data) \<le> 116)")
  case True
  then show ?thesis
    by (auto simp: UnmarshalBinary_def headerLen_unat Let_def sha256_Size_def)
next
  case False
  let ?m = "readBasicHeader (m\<lparr>headerLength := Uint32 data\<rparr>) data"
  have "fst (UnmarshalBinary m data) = Panics \<longleftrightarrow> 
    (if unat (Uint32 data) = 116 then
       116 \<le> length data
       \<and> fst (readPayload (?m\<lparr>PayloadType := Uint32 (slice data 112 116)\<rparr>) data) = Panics
     else fst (readPayload ?m data) = Panics)"
    using False by (auto simp: UnmarshalBinary_def headerLen_unat Let_def sha256_Size_def)
  also have "\<dots> \<longleftrightarrow> unat (Uint32 data) + 4 \<le> length data
      \<and> 2 ^ 32 \<le> unat (Uint32 data) + 4
          + unat (Uint32 (slice data (unat (Uint32 data)) (unat (Uint32 data) + 4)))"
    using False by (auto simp: readPayload_panics_iff)
  finally show ?thesis
    using False by (auto simp: Let_def)
qed

text \<open>What a decoded message is, when decoding succeeds.\<close>

definition decodes :: "bytes \<Rightarrow> agent_message \<Rightarrow> bool" where
  "decodes data m \<longleftrightarrow>
     (let h = unat (headerLength m) in
      headerLength m = Uint32 data \<and> 112 \<le> h \<and> h \<le> 116
      \<and> h + 4 + unat (PayloadLength m) \<le> length data
      \<and> MessageType m = parseMessageType (slice data 4 36)
      \<and> SchemaVersion m = Uint32 (slice data 36 40)
      \<and> CreatedDate m = parseTime (slice data 40 48)
      \<and> SequenceNumber m = Uint64 (slice data 48 56)
      \<and> Flags m = Uint64 (slice data 56 64)
      \<and> MessageID m = formatUUIDBytes (slice data 64 80)
      \<and> PayloadDigest m = slice data 80 112
      \<and> (h = 116 \<longrightarrow> PayloadType m = Uint32 (slice data 112 116))
      \<and> PayloadLength m = Uint32 (slice data h (h + 4))
      \<and> Payload m = slice data (h + 4) (h + 4 + unat (PayloadLength m)))"

lemma readPayload_Returns_None:
  assumes "readPayload m data = (Returns None, m')"
    and h: "112 \<le> unat (headerLength m)" "unat (headerLength m) \<le> 116"
  shows "ValidateMessage m' = None"
    and "let h = unat (headerLength m) in
      h + 4 + unat (PayloadLength m') \<le> length data
      \<and> m' = m\<lparr>PayloadLength := Uint32 (slice data h (h + 4)),
           Payload := slice data (h + 4) (h + 4 + unat (PayloadLength m'))\<rparr>"
proof -
  let ?h = "unat (headerLength m)"
  let ?L = "Uint32 (slice data ?h (?h + 4))"
  have h4: "unat (headerLength m + 4) = ?h + 4"
    using h by (simp add: unat_word_ariths)
  have "fst (readPayload m data) \<noteq> Panics"
    using assms(1) by simp
  then have "\<not> (?h + 4 \<le> length data \<and> 2 ^ 32 \<le> ?h + 4 + unat ?L)"
    using readPayload_panics_iff [OF h] by blast
  moreover have len: "?h + 4 \<le> length data"
    using assms(1) h4 by (auto simp: readPayload_def Let_def split: if_splits)
  ultimately have "unat (headerLength m + 4 + ?L) = ?h + 4 + unat ?L"
    using h4 by (simp add: unat_word_ariths)
  with assms(1) h4 len show "ValidateMessage m' = None"
    "let h = unat (headerLength m) in
      h + 4 + unat (PayloadLength m') \<le> length data
      \<and> m' = m\<lparr>PayloadLength := Uint32 (slice data h (h + 4)),
           Payload := slice data (h + 4) (h + 4 + unat (PayloadLength m'))\<rparr>"
    by (auto simp: readPayload_def Let_def checked_slice_def split: if_splits)
qed

lemma UnmarshalBinary_decodes:
  assumes "UnmarshalBinary m data = (Returns None, m')"
  shows "decodes data m'" and "ValidateMessage m' = None"
proof -
  let ?m = "readBasicHeader (m\<lparr>headerLength := Uint32 data\<rparr>) data"
  let ?m' = "if unat (Uint32 data) = 116 then ?m\<lparr>PayloadType := Uint32 (slice data 112 116)\<rparr> else ?m"
  have h: "112 \<le> unat (Uint32 data)" "unat (Uint32 data) \<le> 116"
    and ret: "readPayload ?m' data = (Returns None, m')"
    using assms
    by (auto simp: UnmarshalBinary_def headerLen_unat Let_def sha256_Size_def split: if_splits)
  have hl: "headerLength ?m' = Uint32 data"
    by (simp add: readBasicHeader_def)
  show "ValidateMessage m' = None"
    by (rule readPayload_Returns_None(1) [OF ret]) (use h hl in auto)
  have "unat (Uint32 data) + 4 + unat (PayloadLength m') \<le> length data \<and>
    m' = ?m'\<lparr>PayloadLength := Uint32 (slice data (unat (Uint32 data)) (unat (Uint32 data) + 4)),
      Payload := slice data (unat (Uint32 data) + 4)
        (unat (Uint32 data) + 4 + unat (PayloadLength m'))\<rparr>"
    using readPayload_Returns_None(2) [OF ret] h hl by (simp add: Let_def)
  then have len: "unat (Uint32 data) + 4 + unat (PayloadLength m') \<le> length data"
    and m': "m' = ?m'\<lparr>PayloadLength := Uint32 (slice data (unat (Uint32 data)) (unat (Uint32 data) + 4)),
      Payload := slice data (unat (Uint32 data) + 4)
        (unat (Uint32 data) + 4 + unat (PayloadLength m'))\<rparr>"
    by auto
  have f: "headerLength m' = Uint32 data" "MessageType m' = MessageType ?m"
    "SchemaVersion m' = SchemaVersion ?m" "CreatedDate m' = CreatedDate ?m"
    "SequenceNumber m' = SequenceNumber ?m" "Flags m' = Flags ?m" "MessageID m' = MessageID ?m"
    "PayloadDigest m' = PayloadDigest ?m"
    "unat (Uint32 data) = 116 \<longrightarrow> PayloadType m' = Uint32 (slice data 112 116)"
    "PayloadLength m' = Uint32 (slice data (unat (Uint32 data)) (unat (Uint32 data) + 4))"
    "Payload m' = slice data (unat (Uint32 data) + 4)
        (unat (Uint32 data) + 4 + unat (PayloadLength m'))"
    by (subst m', simp add: readBasicHeader_def split: if_split)+
  show "decodes data m'"
    using h len unfolding decodes_def Let_def f(1)
    by (simp only: f(2-8) f(10-)) (simp add: f(9) readBasicHeader_def sha256_Size_def)
qed

section \<open>Properties\<close>

text \<open>C9: Round trip of the wire format. Whatever message \<^verbatim>\<open>MarshalBinary\<close> accepts, with
  the standard 116-byte header, a type name that fits its field and a date in the int64
  nanosecond range, \<^verbatim>\<open>UnmarshalBinary\<close> decodes from the bytes into any receiver, without an
  error, the same message with its date truncated to milliseconds. Bytes behind the
  message are ignored.\<close>

theorem marshal_unmarshal_roundtrip:
  assumes "wf_message m" and "headerLength m = agentMsgHeaderLen"
    and "wireType (MessageType m)" and "wireDate (CreatedDate m)"
    and "length (Payload m) < 2 ^ 32 - 120"
    and "MarshalBinary m = (Inr bs, m')"
  shows "UnmarshalBinary r (bs @ junk) = (Returns None, received m')"
proof -
  note mb = MarshalBinary_Inr [OF assms(6)]
  show ?thesis
    unfolding mb(1,2)
    by (rule UnmarshalBinary_wireBytes) (use assms mb(3) in \<open>simp_all add: wf_message_def\<close>)
qed

definition sampleMessage :: agent_message where
  "sampleMessage = zeroMessage\<lparr>headerLength := 116, MessageType := ''input_stream_data'',
     SchemaVersion := 1, CreatedDate := 1700000000123456789, SequenceNumber := 7,
     PayloadType := 1, Payload := [1, 2, 3]\<rparr>"

lemma sampleMessage_ok:
  "wf_message sampleMessage" "headerLength sampleMessage = agentMsgHeaderLen"
  "wireType (MessageType sampleMessage)" "wireDate (CreatedDate sampleMessage)"
  "length (Payload sampleMessage) < 2 ^ 32 - 120"
  "MarshalBinary sampleMessage = (Inr (wireBytes (sealed sampleMessage)), sealed sampleMessage)"
proof -
  show "wireType (MessageType sampleMessage)"
    by (simp add: sampleMessage_def wireType_def) code_simp
  show "MarshalBinary sampleMessage = (Inr (wireBytes (sealed sampleMessage)), sealed sampleMessage)"
    by (simp add: MarshalBinary_sealed ValidateMessage_def sampleMessage_def zeroMessage_def
        go_consts IsZero_def computePayloadDigest_def word_less_nat_alt)
qed (simp_all add: sampleMessage_def wf_message_def zeroMessage_def go_consts wireDate_def
    truncateMilli_def)

theorem marshal_unmarshal_roundtrip_witness:
  "UnmarshalBinary zeroMessage (wireBytes (sealed sampleMessage) @ [9])
     = (Returns None, received (sealed sampleMessage))"
  by (rule marshal_unmarshal_roundtrip [OF sampleMessage_ok])

text \<open>C27: What a successful decode guarantees. Every field is the bytes at its offset, the
  payload is exactly the announced number of bytes behind the length field, the header
  length is between 112 and 116, and, unless the message is one of the two publication
  control messages, the message validates; so a non-empty payload matches its digest.\<close>

theorem unmarshal_sound:
  assumes "UnmarshalBinary m data = (Returns None, m')"
  shows "decodes data m'
    \<and> (MessageType m' \<noteq> StartPublication \<and> MessageType m' \<noteq> PausePublication \<longrightarrow>
      SchemaVersion m' \<noteq> 0 \<and> 10 \<le> length (MessageType m')
      \<and> (Payload m' \<noteq> [] \<longrightarrow> PayloadDigest m' = sha256_Sum (Payload m')))"
proof (intro conjI)
  note ok = UnmarshalBinary_decodes [OF assms]
  from ok(1) show "decodes data m'" .
  show "MessageType m' \<noteq> StartPublication \<and> MessageType m' \<noteq> PausePublication \<longrightarrow>
      SchemaVersion m' \<noteq> 0 \<and> 10 \<le> length (MessageType m')
      \<and> (Payload m' \<noteq> [] \<longrightarrow> PayloadDigest m' = sha256_Sum (Payload m'))"
    using ok(2)
    by (auto simp: ValidateMessage_def computePayloadDigest_def not_less word_gt_0
        split: if_splits)
qed

theorem unmarshal_sound_witness:
  "decodes (wireBytes (sealed sampleMessage)) (received (sealed sampleMessage))
   \<and> PayloadDigest (received (sealed sampleMessage)) = sha256_Sum [1, 2, 3]"
proof -
  have "UnmarshalBinary zeroMessage (wireBytes (sealed sampleMessage) @ [])
      = (Returns None, received (sealed sampleMessage))"
    by (rule UnmarshalBinary_wireBytes)
      (use sampleMessage_ok in \<open>simp_all add: wf_message_def MarshalBinary_Inr(3)\<close>)
  then have "UnmarshalBinary zeroMessage (wireBytes (sealed sampleMessage))
      = (Returns None, received (sealed sampleMessage))"
    by simp
  from unmarshal_sound [OF this] show ?thesis
    by (simp add: received_def sampleMessage_def go_consts)
qed

text \<open>C35: Decoding can panic. The comment before the header check says that it prevents
  integer overflow in the arithmetic that follows, but the announced payload length is added
  in 32 bits without a check. The decoder panics exactly when the message is long enough for
  its header and the announced length wraps that sum around.\<close>

theorem UnmarshalBinary_panics_iff:
  "fst (UnmarshalBinary m data) = Panics \<longleftrightarrow>
    (let h = unat (Uint32 data) in
     112 \<le> h \<and> h \<le> 116 \<and> h + 4 \<le> length data
     \<and> 2 ^ 32 \<le> h + 4 + unat (Uint32 (slice data h (h + 4))))"
  by (rule UnmarshalBinary_panics_conv)

text \<open>Such a message: a well-formed start with an all-ones length field.\<close>

lemma UnmarshalBinary_panic_message:
  assumes "length hdr = 112"
  shows "fst (UnmarshalBinary m (PutUint32 116 @ hdr @ PutUint32 0xFFFFFFFF)) = Panics"
proof -
  let ?data = "PutUint32 116 @ hdr @ PutUint32 0xFFFFFFFF"
  have "slice ?data 116 120 = PutUint32 0xFFFFFFFF"
    using assms by (simp add: slice_append slice_all)
  then show ?thesis
    using assms by (simp add: UnmarshalBinary_panics_conv Let_def)
qed

text \<open>A message with the 112-byte header cannot be sent on. \<^verbatim>\<open>MarshalBinary\<close> announces
  the 112-byte header it was given but always writes the payload type, so a reader takes the
  payload type for the length: with payload type 0, which is what decoding such a message
  leaves, the payload is lost without an error.\<close>

theorem marshal_112_loses_payload:
  assumes "wf_message m" and "headerLength m = 112" and "PayloadType m = 0"
    and "wireType (MessageType m)" and "wireDate (CreatedDate m)"
    and "MarshalBinary m = (Inr bs, m')"
  shows "\<exists>r'. UnmarshalBinary r bs = (Returns None, r') \<and> Payload r' = []"
proof -
  note mb = MarshalBinary_Inr [OF assms(6)]
  have m: "length (MessageID (sealed m)) = 16" "length (PayloadDigest (sealed m)) = 32"
    "wireType (MessageType (sealed m))" "wireDate (CreatedDate (sealed m))"
    using assms by (simp_all add: wf_message_def)
  note slices = slice_wireBytes [OF m(1,2), of "[]", simplified]
  have size: "length (wireBytes (sealed m)) = 120 + length (Payload m)"
    using length_wireBytes m by simp
  have empty: "slice (wireBytes (sealed m)) 116 116 = []" by (rule slice_empty)
  have date: "truncateMilli (CreatedDate m) \<noteq> zeroTime"
    using assms(5) by (auto simp: wireDate_def zeroTime_def)
  have hdr: "Uint32 (wireBytes (sealed m)) = 112"
    using Uint32_wireBytes [of "sealed m" "[]"] assms(2) by simp
  note basic = readBasicHeader_wireBytes [OF m, of _ "[]", simplified]
  have valid: "ValidateMessage (sealed m) = None" by (rule mb(3))
  show ?thesis
    unfolding mb(1)
    using size valid date assms(1,2,3)
    by (auto simp: UnmarshalBinary_def hdr basic readPayload_def go_consts slices Let_def
        checked_slice_def empty ValidateMessage_def IsZero_def wf_message_def split: if_splits)
qed

theorem marshal_112_loses_payload_witness:
  "\<exists>r'. UnmarshalBinary zeroMessage
       (wireBytes (sealed (sampleMessage\<lparr>headerLength := 112, PayloadType := 0\<rparr>)))
     = (Returns None, r') \<and> Payload r' = []"
proof (rule marshal_112_loses_payload)
  let ?m = "sampleMessage\<lparr>headerLength := 112, PayloadType := 0\<rparr>"
  show "MarshalBinary ?m = (Inr (wireBytes (sealed ?m)), sealed ?m)"
    by (simp add: MarshalBinary_sealed ValidateMessage_def sampleMessage_def zeroMessage_def
        go_consts IsZero_def computePayloadDigest_def word_less_nat_alt)
qed (use sampleMessage_ok in \<open>simp_all add: wf_message_def\<close>)

text \<open>\<^verbatim>\<open>MarshalBinary\<close> accepts a message exactly when the message with its digest and
  length filled in validates, the bytes it returns are 120 more than the payload, and what it
  leaves in the receiver does not depend on the outcome.\<close>

theorem MarshalBinary_total:
  "MarshalBinary m =
     (case ValidateMessage (sealed m) of
        Some e \<Rightarrow> (Inl e, sealed m) | None \<Rightarrow> (Inr (wireBytes (sealed m)), sealed m))
   \<and> (wf_message m \<longrightarrow> length (wireBytes (sealed m)) = 120 + length (Payload m))"
  using length_wireBytes [of "sealed m"] by (simp add: MarshalBinary_sealed wf_message_def)

theorem MarshalBinary_total_witness:
  "length (wireBytes (sealed sampleMessage)) = 123"
  using MarshalBinary_total [of sampleMessage] sampleMessage_ok(1)
  by (simp add: sampleMessage_def)

end
