(* ===== verification/Go_Json.thy ===== *)
theory Go_Json
  imports Go_Strconv
begin

text \<open>
  What the code uses of Go's \<^verbatim>\<open>encoding/json\<close>. \<open>json_Encode\<close> is \<^verbatim>\<open>Marshal\<close>: compact
  output, strings escaped as \<^verbatim>\<open>appendString\<close> does with HTML escaping on (invalid UTF-8
  becomes \<^verbatim>\<open>\ufffd\<close>). \<open>json_Parse\<close> is the syntax check and tokenizer of \<^verbatim>\<open>Unmarshal\<close>:
  strict RFC 8259 syntax with Go's nesting limit, strings unescaped to UTF-8. Decoding
  into a struct (field lookup, type errors) is done in the
  theory \<open>Message_Payloads\<close>.

  The parser's recursion is bounded by fuel; \<open>json_Parse\<close> gives it twice the input
  length plus one, and \<open>json_Parse_fuel\<close> shows that more never changes the result.
\<close>

section \<open>Values and UTF-8\<close>

datatype json =
    JNull
  | JBool bool
  | JNum string
  | JStr string
  | JArr "json list"
  | JObj "(string \<times> json) list"

abbreviation code :: "char \<Rightarrow> nat" where
  "code c \<equiv> of_char c"

definition isCont :: "char \<Rightarrow> bool" where
  "isCont c \<longleftrightarrow> 0x80 \<le> code c \<and> code c \<le> 0xBF"

text \<open>Length of the valid UTF-8 encoding at the head of a string, 0 if there is none.\<close>

definition utf8Need :: "nat \<Rightarrow> nat" where
  "utf8Need a =
     (if a < 0x80 then 1
      else if 0xC2 \<le> a \<and> a \<le> 0xDF then 2
      else if 0xE0 \<le> a \<and> a \<le> 0xEF then 3
      else if 0xF0 \<le> a \<and> a \<le> 0xF4 then 4
      else 0)"

text \<open>The second byte is restricted further after four lead bytes (no overlong forms, no
  surrogates, nothing above U+10FFFF).\<close>

definition secondOK :: "nat \<Rightarrow> string \<Rightarrow> bool" where
  "secondOK a t \<longleftrightarrow>
     (case t of [] \<Rightarrow> True
      | c # _ \<Rightarrow> (a = 0xE0 \<longrightarrow> 0xA0 \<le> code c) \<and> (a = 0xED \<longrightarrow> code c \<le> 0x9F)
          \<and> (a = 0xF0 \<longrightarrow> 0x90 \<le> code c) \<and> (a = 0xF4 \<longrightarrow> code c \<le> 0x8F))"

definition utf8Len :: "string \<Rightarrow> nat" where
  "utf8Len s =
     (case s of [] \<Rightarrow> 0
      | c # cs \<Rightarrow>
          let k = utf8Need (code c); t = take (k - 1) cs in
          if k \<noteq> 0 \<and> length t = k - 1 \<and> list_all isCont t \<and> secondOK (code c) t then k else 0)"

definition encodeRune :: "nat \<Rightarrow> string" where
  "encodeRune r =
     (if r < 0x80 then [char_of r]
      else if r < 0x800 then [char_of (0xC0 + r div 64), char_of (0x80 + r mod 64)]
      else if r < 0x10000 then
        [char_of (0xE0 + r div 4096), char_of (0x80 + r div 64 mod 64), char_of (0x80 + r mod 64)]
      else [char_of (0xF0 + r div 262144), char_of (0x80 + r div 4096 mod 64),
            char_of (0x80 + r div 64 mod 64), char_of (0x80 + r mod 64)])"

definition runeError :: string where
  "runeError = encodeRune 0xFFFD"

section \<open>Encoding\<close>

definition hexDigit :: "nat \<Rightarrow> char" where
  "hexDigit d = (if d < 10 then char_of (48 + d) else char_of (87 + d))"

definition hexEscape :: "nat \<Rightarrow> string" where
  "hexEscape r = [CHR 0x5C, CHR ''u''] @
     [hexDigit (r div 4096 mod 16), hexDigit (r div 256 mod 16), hexDigit (r div 16 mod 16),
      hexDigit (r mod 16)]"

definition escapeASCII :: "char \<Rightarrow> string" where
  "escapeASCII c =
     (if c = CHR 0x5C \<or> c = CHR 0x22 then [CHR 0x5C, c]
      else if code c = 8 then [CHR 0x5C, CHR ''b'']
      else if code c = 12 then [CHR 0x5C, CHR ''f'']
      else if code c = 10 then [CHR 0x5C, CHR ''n'']
      else if code c = 13 then [CHR 0x5C, CHR ''r'']
      else if code c = 9 then [CHR 0x5C, CHR ''t'']
      else if code c < 0x20 \<or> c = CHR ''<'' \<or> c = CHR ''>'' \<or> c = CHR ''&'' then hexEscape (code c)
      else [c])"

text \<open>The line separators U+2028 and U+2029, the two runes \<^verbatim>\<open>appendString\<close> escapes.\<close>

definition isLineSep :: "string \<Rightarrow> char \<Rightarrow> bool" where
  "isLineSep s c \<longleftrightarrow> take 3 s = [CHR 0xE2, CHR 0x80, c]"

function quoteBody :: "string \<Rightarrow> string" where
  "quoteBody [] = []"
| "quoteBody (c # cs) =
     (if code c < 0x80 then escapeASCII c @ quoteBody cs
      else let n = utf8Len (c # cs) in
        if n = 0 then (CHR 0x5C # ''ufffd'') @ quoteBody cs
        else (if isLineSep (c # cs) CHR 0xA8 then CHR 0x5C # ''u2028''
              else if isLineSep (c # cs) CHR 0xA9 then CHR 0x5C # ''u2029''
              else take n (c # cs)) @ quoteBody (drop n (c # cs)))"
  by pat_completeness auto
termination by (relation "measure length") auto

definition quote :: "string \<Rightarrow> string" where
  "quote s = CHR 0x22 # quoteBody s @ [CHR 0x22]"

fun commas :: "string list \<Rightarrow> string" where
  "commas [] = []"
| "commas [s] = s"
| "commas (s # t # ss) = s @ CHR '','' # commas (t # ss)"

fun json_Encode :: "json \<Rightarrow> string" where
  "json_Encode JNull = ''null''"
| "json_Encode (JBool b) = (if b then ''true'' else ''false'')"
| "json_Encode (JNum n) = n"
| "json_Encode (JStr s) = quote s"
| "json_Encode (JArr vs) = CHR ''['' # commas (map json_Encode vs) @ '']''"
| "json_Encode (JObj ms) =
     CHR ''{'' # commas (map (\<lambda>(k, v). quote k @ CHR '':'' # json_Encode v) ms) @ ''}''"

section \<open>Parsing\<close>

definition isWs :: "char \<Rightarrow> bool" where
  "isWs c \<longleftrightarrow> code c = 32 \<or> code c = 9 \<or> code c = 10 \<or> code c = 13"

definition skipWs :: "string \<Rightarrow> string" where
  "skipWs = dropWhile isWs"

definition hexVal :: "char \<Rightarrow> nat option" where
  "hexVal c =
     (if is_digit c then Some (code c - 48)
      else if 97 \<le> code c \<and> code c \<le> 102 then Some (code c - 87)
      else if 65 \<le> code c \<and> code c \<le> 70 then Some (code c - 55)
      else None)"

fun getu4 :: "string \<Rightarrow> (nat \<times> string) option" where
  "getu4 (a # b # c # d # r) =
     (case (hexVal a, hexVal b, hexVal c, hexVal d) of
        (Some x, Some y, Some z, Some w) \<Rightarrow> Some (4096 * x + 256 * y + 16 * z + w, r)
      | _ \<Rightarrow> None)"
| "getu4 _ = None"

definition simpleEscape :: "char \<Rightarrow> char option" where
  "simpleEscape c =
     (if c = CHR 0x22 \<or> c = CHR 0x5C \<or> c = CHR ''/'' then Some c
      else if c = CHR ''b'' then Some CHR 0x08
      else if c = CHR ''f'' then Some CHR 0x0C
      else if c = CHR ''n'' then Some CHR 0x0A
      else if c = CHR ''r'' then Some CHR 0x0D
      else if c = CHR ''t'' then Some CHR 0x09
      else None)"

text \<open>
  What a \<^verbatim>\<open>\uXXXX\<close> escape stands for, given the text behind it: a surrogate joins with
  a following low surrogate escape, or stands for U+FFFD on its own.
\<close>

definition unescapeU :: "nat \<Rightarrow> string \<Rightarrow> string \<times> string" where
  "unescapeU r rest =
     (if 0xD800 \<le> r \<and> r < 0xE000 then
        (case rest of
           a # b # t \<Rightarrow>
             (if a = CHR 0x5C \<and> b = CHR ''u'' then
                (case getu4 t of
                   Some (r2, rest2) \<Rightarrow>
                     if r < 0xDC00 \<and> 0xDC00 \<le> r2 \<and> r2 < 0xE000
                     then (encodeRune (0x10000 + (r - 0xD800) * 1024 + (r2 - 0xDC00)), rest2)
                     else (runeError, rest)
                 | None \<Rightarrow> (runeError, rest))
              else (runeError, rest))
         | _ \<Rightarrow> (runeError, rest))
      else (encodeRune r, rest))"

definition emit :: "string \<Rightarrow> (string \<times> string) option \<Rightarrow> (string \<times> string) option" where
  "emit d r = (case r of None \<Rightarrow> None | Some (s, t) \<Rightarrow> Some (d @ s, t))"

lemma getu4_length: "getu4 s = Some (r, t) \<Longrightarrow> length s = length t + 4"
  by (induction s rule: getu4.induct) (auto split: option.splits)

lemma unescapeU_length: "unescapeU r rest = (d, t) \<Longrightarrow> length t \<le> length rest"
  by (auto simp: unescapeU_def dest!: getu4_length split: if_splits list.splits option.splits)

text \<open>One JSON string, from behind its opening quote: its text and what follows it.\<close>

function unquote :: "string \<Rightarrow> (string \<times> string) option" where
  "unquote [] = None"
| "unquote (c # cs) =
     (if c = CHR 0x22 then Some ([], cs)
      else if c = CHR 0x5C then
        (case cs of
           [] \<Rightarrow> None
         | e # es \<Rightarrow>
             (case simpleEscape e of
                Some d \<Rightarrow> emit [d] (unquote es)
              | None \<Rightarrow>
                  if e = CHR ''u'' then
                    (case getu4 es of
                       None \<Rightarrow> None
                     | Some (r, rest) \<Rightarrow>
                         emit (fst (unescapeU r rest)) (unquote (snd (unescapeU r rest))))
                  else None))
      else if code c < 0x20 then None
      else if code c < 0x80 then emit [c] (unquote cs)
      else let n = utf8Len (c # cs) in
        if n = 0 then emit runeError (unquote cs)
        else emit (take n (c # cs)) (unquote (drop n (c # cs))))"
  by pat_completeness auto
termination
  by (relation "measure length")
    (auto dest!: getu4_length intro: le_less_trans [OF unescapeU_length [OF surjective_pairing]])

text \<open>Numbers: the literal's text and what follows it.\<close>

definition spanDigits :: "string \<Rightarrow> string \<times> string" where
  "spanDigits s = (takeWhile is_digit s, dropWhile is_digit s)"

definition scanFrac :: "string \<Rightarrow> (string \<times> string) option" where
  "scanFrac s =
     (case s of
        c # cs \<Rightarrow>
          if c = CHR ''.'' then
            (let (d, r) = spanDigits cs in if d = [] then None else Some (c # d, r))
          else Some ([], s)
      | [] \<Rightarrow> Some ([], []))"

definition scanExp :: "string \<Rightarrow> (string \<times> string) option" where
  "scanExp s =
     (case s of
        c # cs \<Rightarrow>
          if c = CHR ''e'' \<or> c = CHR ''E'' then
            (let (sg, cs') = (case cs of x # xs \<Rightarrow> if x = CHR ''+'' \<or> x = CHR ''-'' then ([x], xs) else ([], cs)
                              | [] \<Rightarrow> ([], []));
                 (d, r) = spanDigits cs'
             in if d = [] then None else Some (c # sg @ d, r))
          else Some ([], s)
      | [] \<Rightarrow> Some ([], []))"

definition scanInt :: "string \<Rightarrow> (string \<times> string) option" where
  "scanInt s =
     (case s of
        c # cs \<Rightarrow>
          if c = CHR ''0'' then Some ([c], cs)
          else if is_digit c then Some (spanDigits s)
          else None
      | [] \<Rightarrow> None)"

definition scanNumber :: "string \<Rightarrow> (string \<times> string) option" where
  "scanNumber s =
     (let (sg, s1) = (case s of c # cs \<Rightarrow> if c = CHR ''-'' then ([c], cs) else ([], s) | [] \<Rightarrow> ([], []))
      in case scanInt s1 of
           None \<Rightarrow> None
         | Some (i, s2) \<Rightarrow>
             (case scanFrac s2 of
                None \<Rightarrow> None
              | Some (f, s3) \<Rightarrow>
                  (case scanExp s3 of
                     None \<Rightarrow> None
                   | Some (e, s4) \<Rightarrow> Some (sg @ i @ f @ e, s4))))"

definition scanWord :: "string \<Rightarrow> json \<Rightarrow> string \<Rightarrow> (json \<times> string) option" where
  "scanWord w v s = (if take (length w) s = w then Some (v, drop (length w) s) else None)"

definition maxNestingDepth :: nat where [go_consts]: "maxNestingDepth = 10000"

fun parseValue :: "nat \<Rightarrow> nat \<Rightarrow> string \<Rightarrow> (json \<times> string) option"
  and parseElems :: "nat \<Rightarrow> nat \<Rightarrow> string \<Rightarrow> (json list \<times> string) option"
  and parseMembers :: "nat \<Rightarrow> nat \<Rightarrow> string \<Rightarrow> ((string \<times> json) list \<times> string) option" where
  "parseValue 0 d s = None"
| "parseValue (Suc f) d s =
     (case skipWs s of
        [] \<Rightarrow> None
      | c # cs \<Rightarrow>
          if c = CHR ''{'' then
            (if maxNestingDepth \<le> d then None
             else case skipWs cs of
               [] \<Rightarrow> None
             | c2 # r \<Rightarrow>
                 if c2 = CHR ''}'' then Some (JObj [], r)
                 else (case parseMembers f (Suc d) (c2 # r) of
                         None \<Rightarrow> None | Some (ms, t) \<Rightarrow> Some (JObj ms, t)))
          else if c = CHR ''['' then
            (if maxNestingDepth \<le> d then None
             else case skipWs cs of
               [] \<Rightarrow> None
             | c2 # r \<Rightarrow>
                 if c2 = CHR '']'' then Some (JArr [], r)
                 else (case parseElems f (Suc d) (c2 # r) of
                         None \<Rightarrow> None | Some (vs, t) \<Rightarrow> Some (JArr vs, t)))
          else if c = CHR 0x22 then
            (case unquote cs of None \<Rightarrow> None | Some (s', t) \<Rightarrow> Some (JStr s', t))
          else if c = CHR ''t'' then scanWord ''true'' (JBool True) (c # cs)
          else if c = CHR ''f'' then scanWord ''false'' (JBool False) (c # cs)
          else if c = CHR ''n'' then scanWord ''null'' JNull (c # cs)
          else (case scanNumber (c # cs) of None \<Rightarrow> None | Some (n, t) \<Rightarrow> Some (JNum n, t)))"
| "parseElems 0 d s = None"
| "parseElems (Suc f) d s =
     (case parseValue f d s of
        None \<Rightarrow> None
      | Some (v, r) \<Rightarrow>
          (case skipWs r of
             [] \<Rightarrow> None
           | c # t \<Rightarrow>
               if c = CHR '']'' then Some ([v], t)
               else if c = CHR '','' then
                 (case parseElems f d t of None \<Rightarrow> None | Some (vs, t') \<Rightarrow> Some (v # vs, t'))
               else None))"
| "parseMembers 0 d s = None"
| "parseMembers (Suc f) d s =
     (case skipWs s of
        [] \<Rightarrow> None
      | q # cs \<Rightarrow>
          if q \<noteq> CHR 0x22 then None
          else (case unquote cs of
            None \<Rightarrow> None
          | Some (k, r) \<Rightarrow>
              (case skipWs r of
                 [] \<Rightarrow> None
               | c \<comment> \<open>the colon\<close> # r1 \<Rightarrow>
                   if c \<noteq> CHR '':'' then None
                   else (case parseValue f d r1 of
                     None \<Rightarrow> None
                   | Some (v, r2) \<Rightarrow>
                       (case skipWs r2 of
                          [] \<Rightarrow> None
                        | c' # t \<Rightarrow>
                            if c' = CHR ''}'' then Some ([(k, v)], t)
                            else if c' = CHR '','' then
                              (case parseMembers f d t of
                                 None \<Rightarrow> None | Some (ms, t') \<Rightarrow> Some ((k, v) # ms, t'))
                            else None)))))"

definition json_Parse :: "string \<Rightarrow> json option" where
  "json_Parse s =
     (case parseValue (Suc (2 * length s)) 0 s of
        None \<Rightarrow> None
      | Some (v, r) \<Rightarrow> if skipWs r = [] then Some v else None)"

section \<open>Strings survive quoting\<close>

text \<open>What a quoted string reads back as: invalid UTF-8 is replaced byte by byte.\<close>

function coerceUTF8 :: "string \<Rightarrow> string" where
  "coerceUTF8 [] = []"
| "coerceUTF8 (c # cs) =
     (if code c < 0x80 then c # coerceUTF8 cs
      else let n = utf8Len (c # cs) in
        if n = 0 then runeError @ coerceUTF8 cs
        else take n (c # cs) @ coerceUTF8 (drop n (c # cs)))"
  by pat_completeness auto
termination by (relation "measure length") auto

declare quoteBody.simps(2) [simp del] coerceUTF8.simps(2) [simp del] unquote.simps(2) [simp del]

lemma emit_emit [simp]: "emit d (emit e r) = emit (d @ e) r"
  by (auto simp: emit_def split: option.splits)

lemma emit_Some [simp]: "emit d (Some (s, t)) = Some (d @ s, t)"
  by (simp add: emit_def)

lemma char_eqI: "code c = code d \<Longrightarrow> c = d"
  by (metis char_of_char)

lemma hexVal_hexDigit [simp]: "d < 16 \<Longrightarrow> hexVal (hexDigit d) = Some d"
  by (auto simp: hexVal_def hexDigit_def is_digit_def)

lemma getu4_hexEscape:
  assumes "r < 0x80"
  shows "getu4 (hexDigit (r div 4096 mod 16) # hexDigit (r div 256 mod 16)
    # hexDigit (r div 16 mod 16) # hexDigit (r mod 16) # t) = Some (r, t)"
proof -
  have "r div 4096 = 0" "r div 256 = 0" "r div 16 mod 16 = r div 16"
    using assms by (simp_all add: div_less)
  then show ?thesis by simp
qed

lemma unquote_hexEscape:
  assumes "r < 0x80"
  shows "unquote (hexEscape r @ t) = emit [char_of r] (unquote t)"
  using getu4_hexEscape [OF assms, of t] assms
  by (simp add: hexEscape_def unquote.simps(2) simpleEscape_def unescapeU_def encodeRune_def
      del: getu4.simps)

lemma unquote_escapeASCII:
  assumes "code c < 0x80"
  shows "unquote (escapeASCII c @ t) = emit [c] (unquote t)"
proof -
  have eq: "code c = 8 \<Longrightarrow> c = CHR 0x08" "code c = 9 \<Longrightarrow> c = CHR 0x09"
    "code c = 10 \<Longrightarrow> c = CHR 0x0A" "code c = 12 \<Longrightarrow> c = CHR 0x0C" "code c = 13 \<Longrightarrow> c = CHR 0x0D"
    by (simp_all add: char_eqI)
  show ?thesis
    using assms unquote_hexEscape [OF assms, of t]
    by (auto simp: escapeASCII_def unquote.simps(2) simpleEscape_def dest: eq)
qed

lemma utf8Len_Cons:
  "utf8Len (c # cs) =
    (let k = utf8Need (code c); t = take (k - 1) cs in
     if k \<noteq> 0 \<and> length t = k - 1 \<and> list_all isCont t \<and> secondOK (code c) t then k else 0)"
  by (simp add: utf8Len_def)

lemma utf8Len_take:
  assumes "utf8Len (c # cs) = Suc m"
  shows "length (take m cs) = m" and "utf8Len (c # take m cs @ t) = Suc m"
  using assms by (auto simp: utf8Len_Cons Let_def split: if_splits)

lemma unquote_plain:
  assumes n: "utf8Len (c # cs) = Suc m" and c: "0x80 \<le> code c"
  shows "unquote (c # take m cs @ t) = emit (c # take m cs) (unquote t)"
proof -
  have "c \<noteq> CHR 0x22" "c \<noteq> CHR 0x5C" using c by auto
  with c utf8Len_take [OF n] show ?thesis
    by (simp add: unquote.simps(2) Let_def)
qed

lemma lineSep_chars:
  "char_of (226 :: nat) = CHR 0xE2" "char_of (128 :: nat) = CHR 0x80"
  "char_of (168 :: nat) = CHR 0xA8" "char_of (169 :: nat) = CHR 0xA9"
  by (rule char_eqI; simp)+

lemma lineSep_rune:
  "encodeRune 0x2028 = [CHR 0xE2, CHR 0x80, CHR 0xA8]"
  "encodeRune 0x2029 = [CHR 0xE2, CHR 0x80, CHR 0xA9]"
  by (simp_all add: encodeRune_def lineSep_chars)

lemma isLineSep_utf8Len:
  assumes "isLineSep (c # cs) d" and "d = CHR 0xA8 \<or> d = CHR 0xA9"
  shows "utf8Len (c # cs) = 3" and "take 2 cs = [CHR 0x80, d]" and "c = CHR 0xE2"
proof -
  from assms(1) obtain cs' where cs: "cs = CHR 0x80 # d # cs'" and c: "c = CHR 0xE2"
    by (cases cs; cases "tl cs") (auto simp: isLineSep_def)
  from cs show "take 2 cs = [CHR 0x80, d]" by simp
  from c show "c = CHR 0xE2" .
  from assms(2) show "utf8Len (c # cs) = 3"
    by (auto simp: cs c utf8Len_Cons utf8Need_def secondOK_def isCont_def)
qed

lemma unquote_u2028: "unquote (CHR 0x5C # ''u2028'' @ t) = emit (encodeRune 0x2028) (unquote t)"
  by (simp add: unquote.simps(2) simpleEscape_def unescapeU_def hexVal_def is_digit_def)

lemma unquote_u2029: "unquote (CHR 0x5C # ''u2029'' @ t) = emit (encodeRune 0x2029) (unquote t)"
  by (simp add: unquote.simps(2) simpleEscape_def unescapeU_def hexVal_def is_digit_def)

lemma unquote_ufffd: "unquote (CHR 0x5C # ''ufffd'' @ t) = emit runeError (unquote t)"
  by (simp add: unquote.simps(2) simpleEscape_def unescapeU_def hexVal_def is_digit_def runeError_def)

lemma unquote_quoteRune:
  assumes n: "utf8Len (c # cs) = Suc m" and c: "0x80 \<le> code c"
  shows "unquote ((if isLineSep (c # cs) CHR 0xA8 then CHR 0x5C # ''u2028''
      else if isLineSep (c # cs) CHR 0xA9 then CHR 0x5C # ''u2029''
      else take (Suc m) (c # cs)) @ t) = emit (c # take m cs) (unquote t)"
proof -
  consider "isLineSep (c # cs) CHR 0xA8" | "isLineSep (c # cs) CHR 0xA9"
    | "\<not> isLineSep (c # cs) CHR 0xA8" "\<not> isLineSep (c # cs) CHR 0xA9" by blast
  then show ?thesis
  proof cases
    case 1
    then have "m = 2" "take 2 cs = [CHR 0x80, CHR 0xA8]" "c = CHR 0xE2"
      using isLineSep_utf8Len [OF 1] n by simp_all
    with 1 unquote_u2028 [of t] show ?thesis by (simp add: lineSep_rune)
  next
    case 2
    then have "m = 2" "take 2 cs = [CHR 0x80, CHR 0xA9]" "c = CHR 0xE2" 
      using isLineSep_utf8Len [OF 2] n by simp_all
    moreover from this 2 have "\<not> isLineSep (c # cs) CHR 0xA8"
      by (simp add: isLineSep_def)
    ultimately show ?thesis
      using 2 unquote_u2029 [of t] by (simp add: lineSep_rune)
  next
    case 3
    with unquote_plain [OF n c] show ?thesis by simp
  qed
qed

lemma unquote_quoteBody:
  "unquote (quoteBody s @ CHR 0x22 # t) = Some (coerceUTF8 s, t)"
proof (induction s rule: quoteBody.induct)
  case 1
  show ?case by (simp add: unquote.simps(2))
next
  case (2 c cs)
  let ?n = "utf8Len (c # cs)"
  consider "code c < 0x80" | "\<not> code c < 0x80" "?n = 0" | m where "\<not> code c < 0x80" "?n = Suc m"
    by (cases ?n) auto
  then show ?case
  proof cases
    case 1
    with 2 show ?thesis
      by (simp add: quoteBody.simps(2) coerceUTF8.simps(2) unquote_escapeASCII)
  next
    case 2
    with "2.IH"(2) show ?thesis
      by (simp add: quoteBody.simps(2) coerceUTF8.simps(2) unquote_ufffd [simplified])
  next
    case (3 m)
    have IH: "unquote (quoteBody (drop m cs) @ CHR 0x22 # t) = Some (coerceUTF8 (drop m cs), t)"
      using "2.IH"(3) [OF 3(1) refl] 3(2) by simp
    show ?thesis
      using 3 IH unquote_quoteRune [OF 3(2), of "quoteBody (drop m cs) @ CHR 0x22 # t"]
      by (simp add: quoteBody.simps(2) coerceUTF8.simps(2) Let_def)
  qed
qed

lemma coerceUTF8_ascii: "list_all (\<lambda>c. code c < 0x80) s \<Longrightarrow> coerceUTF8 s = s"
  by (induction s) (simp_all add: coerceUTF8.simps(2))

section \<open>Encoded values parse back\<close>

text \<open>
  The round trip for the values the code encodes: objects and arrays of strings,
  booleans, null and integers. \<open>coerceJson\<close> is what the strings come back as.
\<close>

fun intJson :: "json \<Rightarrow> bool" where
  "intJson (JNum n) \<longleftrightarrow> (\<exists>i. n = Itoa i)"
| "intJson (JArr vs) \<longleftrightarrow> (\<forall>v \<in> set vs. intJson v)"
| "intJson (JObj ms) \<longleftrightarrow> (\<forall>m \<in> set ms. intJson (snd m))"
| "intJson _ \<longleftrightarrow> True"

fun coerceJson :: "json \<Rightarrow> json" where
  "coerceJson (JStr s) = JStr (coerceUTF8 s)"
| "coerceJson (JArr vs) = JArr (map coerceJson vs)"
| "coerceJson (JObj ms) = JObj (map (\<lambda>(k, v). (coerceUTF8 k, coerceJson v)) ms)"
| "coerceJson v = v"

fun depthJson :: "json \<Rightarrow> nat" where
  "depthJson (JArr vs) = Suc (foldr max (map depthJson vs) 0)"
| "depthJson (JObj ms) = Suc (foldr max (map (\<lambda>m. depthJson (snd m)) ms) 0)"
| "depthJson _ = 0"

fun needJson :: "json \<Rightarrow> nat" where
  "needJson (JArr vs) = Suc (sum_list (map (\<lambda>v. Suc (needJson v)) vs))"
| "needJson (JObj ms) = Suc (sum_list (map (\<lambda>m. Suc (needJson (snd m))) ms))"
| "needJson _ = 1"

definition jsonTail :: "string \<Rightarrow> bool" where
  "jsonTail t \<longleftrightarrow> (case t of [] \<Rightarrow> True | c # _ \<Rightarrow> c \<in> set '',]}'')"

lemma jsonTail_simps [simp]:
  "jsonTail []" "jsonTail (CHR '','' # t)" "jsonTail (CHR '']'' # t)" "jsonTail (CHR ''}'' # t)"
  by (simp_all add: jsonTail_def)

lemma skipWs_id [simp]: "\<not> isWs c \<Longrightarrow> skipWs (c # cs) = c # cs"
  by (simp add: skipWs_def)

lemma skipWs_Nil [simp]: "skipWs [] = []"
  by (simp add: skipWs_def)

lemma not_isWs [simp]:
  "\<not> isWs CHR '',''" "\<not> isWs CHR '']''" "\<not> isWs CHR ''}''" "\<not> isWs CHR '':''"
  "\<not> isWs CHR 0x22" "\<not> isWs CHR ''{''" "\<not> isWs CHR ''[''" "\<not> isWs CHR ''-''"
  "\<not> isWs CHR ''t''" "\<not> isWs CHR ''f''" "\<not> isWs CHR ''n''"
  by (simp_all add: isWs_def)

lemma is_digit_not_ws: "is_digit c \<Longrightarrow> \<not> isWs c"
  by (auto simp: is_digit_def isWs_def)

lemma formatNat_zero_hd: "formatNat n = CHR ''0'' # cs \<Longrightarrow> n = 0 \<and> cs = []"
proof (induction n arbitrary: cs rule: formatNat.induct)
  case (1 n)
  show ?case
  proof (cases "n < 10")
    case True
    have "digit_char n = CHR ''0'' \<Longrightarrow> n = 0"
      using digit_val_char [OF True] by (auto simp: digit_val_def)
    with 1 True show ?thesis by (simp add: formatNat.simps [of n])
  next
    case False
    obtain c' cs' where c': "formatNat (n div 10) = c' # cs'"
      using formatNat_hd by metis
    with False "1.prems" have "c' = CHR ''0''" by (simp add: formatNat.simps [of n])
    with "1.IH" [OF False] c' have "n div 10 = 0" by simp
    with False show ?thesis by simp
  qed
qed

lemma spanDigits_formatNat:
  assumes "jsonTail t"
  shows "spanDigits (formatNat n @ t) = (formatNat n, t)"
proof -
  have "\<forall>c \<in> set (formatNat n). is_digit c"
    using formatNat_digits [of n] by (simp add: list_all_iff)
  moreover have "takeWhile is_digit t = []" "dropWhile is_digit t = t"
    using assms by (auto simp: jsonTail_def is_digit_def split: list.splits)
  ultimately show ?thesis
    by (simp add: spanDigits_def takeWhile_append2 dropWhile_append2)
qed

lemma scanInt_formatNat:
  assumes "jsonTail t"
  shows "scanInt (formatNat n @ t) = Some (formatNat n, t)"
proof -
  obtain c cs where c: "formatNat n = c # cs" "is_digit c" by (rule formatNat_hd)
  show ?thesis
  proof (cases "c = CHR ''0''")
    case True
    with c formatNat_zero_hd [of n cs] show ?thesis by (simp add: scanInt_def)
  next
    case False
    with c spanDigits_formatNat [OF assms, of n] show ?thesis by (simp add: scanInt_def)
  qed
qed

lemma scan_tail: "jsonTail t \<Longrightarrow> scanFrac t = Some ([], t)" "jsonTail t \<Longrightarrow> scanExp t = Some ([], t)"
  by (auto simp: scanFrac_def scanExp_def jsonTail_def split: list.splits)

lemma scanNumber_Itoa:
  assumes "jsonTail t"
  shows "scanNumber (Itoa i @ t) = Some (Itoa i, t)"
proof -
  obtain c cs where c: "formatNat (nat i) = c # cs" "is_digit c" by (rule formatNat_hd)
  then have "c \<noteq> CHR ''-''" by auto
  then show ?thesis
    using scanInt_formatNat [OF assms, of "nat i"] scanInt_formatNat [OF assms, of "nat (- i)"]
      scan_tail [OF assms] c
    by (auto simp: scanNumber_def Itoa_def)
qed

lemma Itoa_hd:
  obtains c cs where "Itoa i = c # cs" "c = CHR ''-'' \<or> is_digit c"
  by (cases "i < 0") (auto simp: Itoa_def intro: formatNat_hd [of "nat i"])

lemma not_special [simp]:
  "\<not> is_digit CHR ''{''" "\<not> is_digit CHR ''[''" "\<not> is_digit CHR 0x22" "\<not> is_digit CHR ''t''"
  "\<not> is_digit CHR ''f''" "\<not> is_digit CHR ''n''" "\<not> is_digit CHR '']''" "\<not> is_digit CHR ''}''"
  by (simp_all add: is_digit_def)

lemma json_Encode_hd:
  assumes "intJson v"
  obtains c cs where "json_Encode v = c # cs" "\<not> isWs c" "c \<noteq> CHR '']''" "c \<noteq> CHR ''}''"
proof (cases v)
  case (JNum n)
  with assms obtain i where i: "n = Itoa i" by auto
  obtain c cs where c: "Itoa i = c # cs" "c = CHR ''-'' \<or> is_digit c" by (rule Itoa_hd)
  show ?thesis
    by (rule that [of c cs]) (use JNum i c in \<open>auto simp: is_digit_not_ws\<close>)
next
  case (JBool b)
  then show ?thesis using that by (cases b) auto
qed (use that in \<open>auto simp: quote_def split: if_splits\<close>)

lemma commas_Cons: "ss \<noteq> [] \<Longrightarrow> commas (s # ss) = s @ CHR '','' # commas ss"
  by (cases ss) simp_all

definition parsesBack :: "json \<Rightarrow> bool" where
  "parsesBack v \<longleftrightarrow> (\<forall>f d t. depthJson v + d \<le> maxNestingDepth \<longrightarrow> needJson v \<le> f \<longrightarrow> jsonTail t
     \<longrightarrow> parseValue f d (json_Encode v @ t) = Some (coerceJson v, t))"

lemma parseElems_commas:
  assumes "vs \<noteq> []" and "\<forall>v \<in> set vs. parsesBack v"
    and "foldr max (map depthJson vs) 0 + d \<le> maxNestingDepth"
    and "sum_list (map (\<lambda>v. Suc (needJson v)) vs) \<le> f"
  shows "parseElems f d (commas (map json_Encode vs) @ CHR '']'' # t) = Some (map coerceJson vs, t)"
  using assms
proof (induction vs arbitrary: f)
  case (Cons v vs)
  then obtain f' where f: "f = Suc f'" by (cases f) auto
  have v: "parseValue f' d (json_Encode v @ t') = Some (coerceJson v, t')" if "jsonTail t'" for t'
    using Cons.prems that by (auto simp: parsesBack_def f)
  show ?case
  proof (cases "vs = []")
    case True
    then show ?thesis by (simp add: f v)
  next
    case False
    have "parseElems f' d (commas (map json_Encode vs) @ CHR '']'' # t) = Some (map coerceJson vs, t)"
      by (rule Cons.IH) (use Cons.prems False f in auto)
    with False show ?thesis by (simp add: f v commas_Cons)
  qed
qed simp

lemma parseMembers_commas:
  assumes "ms \<noteq> []" and "\<forall>m \<in> set ms. parsesBack (snd m)"
    and "foldr max (map (\<lambda>m. depthJson (snd m)) ms) 0 + d \<le> maxNestingDepth"
    and "sum_list (map (\<lambda>m. Suc (needJson (snd m))) ms) \<le> f"
  shows "parseMembers f d (commas (map (\<lambda>(k, v). quote k @ CHR '':'' # json_Encode v) ms) @ CHR ''}'' # t)
     = Some (map (\<lambda>(k, v). (coerceUTF8 k, coerceJson v)) ms, t)"
  using assms
proof (induction ms arbitrary: f)
  case (Cons m ms)
  obtain k v where m: "m = (k, v)" by (cases m)
  from Cons.prems obtain f' where f: "f = Suc f'" by (cases f) auto
  have v: "parseValue f' d (json_Encode v @ t') = Some (coerceJson v, t')" if "jsonTail t'" for t'
    using Cons.prems that by (auto simp: parsesBack_def f m)
  show ?case
  proof (cases "ms = []")
    case True
    then show ?thesis by (simp add: f v m quote_def unquote_quoteBody)
  next
    case False
    have "parseMembers f' d (commas (map (\<lambda>(k, v). quote k @ CHR '':'' # json_Encode v) ms) @ CHR ''}'' # t)
        = Some (map (\<lambda>(k, v). (coerceUTF8 k, coerceJson v)) ms, t)"
      by (rule Cons.IH) (use Cons.prems False f m in auto)
    with False show ?thesis by (simp add: f v m quote_def unquote_quoteBody commas_Cons)
  qed
qed simp

lemma commas_hd: "s = c # cs \<Longrightarrow> \<exists>cs'. commas (s # ss) = c # cs'"
  by (cases ss) auto

lemma parsesBackI:
  assumes "0 < needJson v"
    and "\<And>f d t. parseValue (Suc f) d (json_Encode v @ t) = Some (coerceJson v, t)"
  shows "parsesBack v"
  unfolding parsesBack_def
proof (intro allI impI)
  fix f d t assume "needJson v \<le> f"
  with assms(1) obtain f' where "f = Suc f'" by (cases f) auto
  then show "parseValue f d (json_Encode v @ t) = Some (coerceJson v, t)"
    by (simp only: assms(2))
qed

lemma parsesBack_int: "parsesBack (JNum (Itoa i))"
  unfolding parsesBack_def
proof (intro allI impI)
  fix f d t assume "needJson (JNum (Itoa i)) \<le> f" and t: "jsonTail t"
  then obtain f' where f: "f = Suc f'" by (cases f) auto
  obtain c cs where c: "Itoa i = c # cs" "c = CHR ''-'' \<or> is_digit c" by (rule Itoa_hd)
  show "parseValue f d (json_Encode (JNum (Itoa i)) @ t) = Some (coerceJson (JNum (Itoa i)), t)"
    using scanNumber_Itoa [OF t, of i] c by (auto simp: f is_digit_not_ws)
qed

lemma parsesBack_array:
  assumes "\<forall>v \<in> set vs. parsesBack v \<and> intJson v"
  shows "parsesBack (JArr vs)"
  unfolding parsesBack_def
proof (intro allI impI)
  fix f d t
  assume a: "depthJson (JArr vs) + d \<le> maxNestingDepth" "needJson (JArr vs) \<le> f"
  then obtain f' where f: "f = Suc f'" by (cases f) auto
  show "parseValue f d (json_Encode (JArr vs) @ t) = Some (coerceJson (JArr vs), t)"
  proof (cases vs)
    case Nil
    with a show ?thesis by (simp add: f)
  next
    case (Cons v vs')
    have elems: "parseElems f' (Suc d) (commas (map json_Encode vs) @ CHR '']'' # t)
        = Some (map coerceJson vs, t)"
      by (rule parseElems_commas) (use assms a f Cons in auto)
    obtain c cs where c: "json_Encode v = c # cs" "\<not> isWs c" "c \<noteq> CHR '']''"
      using assms Cons by (auto intro: json_Encode_hd [of v])
    obtain cs' where "commas (map json_Encode vs) = c # cs'"
      using commas_hd [OF c(1)] Cons by auto
    with elems a c show ?thesis by (simp add: f)
  qed
qed

lemma parsesBack_object:
  assumes "\<forall>m \<in> set ms. parsesBack (snd m) \<and> intJson (snd m)"
  shows "parsesBack (JObj ms)"
  unfolding parsesBack_def
proof (intro allI impI)
  fix f d t
  assume a: "depthJson (JObj ms) + d \<le> maxNestingDepth" "needJson (JObj ms) \<le> f"
  then obtain f' where f: "f = Suc f'" by (cases f) auto
  show "parseValue f d (json_Encode (JObj ms) @ t) = Some (coerceJson (JObj ms), t)"
  proof (cases ms)
    case Nil
    with a show ?thesis by (simp add: f)
  next
    case (Cons m ms')
    obtain k v where m: "m = (k, v)" by (cases m)
    have members: "parseMembers f' (Suc d)
        (commas (map (\<lambda>(k, v). quote k @ CHR '':'' # json_Encode v) ms) @ CHR ''}'' # t)
        = Some (map (\<lambda>(k, v). (coerceUTF8 k, coerceJson v)) ms, t)"
      by (rule parseMembers_commas) (use assms a f Cons in auto)
    obtain cs' where
      "commas (map (\<lambda>(k, v). quote k @ CHR '':'' # json_Encode v) ms) = CHR 0x22 # cs'"
      using commas_hd [of "quote k @ CHR '':'' # json_Encode v" "CHR 0x22"] Cons m
      by (auto simp: quote_def)
    with members a show ?thesis by (simp add: f)
  qed
qed

lemma parsesBack_intJson: "intJson v \<Longrightarrow> parsesBack v"
proof (induction v rule: json_Encode.induct)
  case (3 n)
  then show ?case by (auto intro: parsesBack_int)
next
  case (5 vs)
  then show ?case by (auto intro!: parsesBack_array)
next
  case (6 ms)
  have "\<forall>m \<in> set ms. parsesBack (snd m) \<and> intJson (snd m)"
  proof
    fix m assume "m \<in> set ms"
    then show "parsesBack (snd m) \<and> intJson (snd m)"
      using "6.IH" [of m "fst m" "snd m"] "6.prems" by auto
  qed
  then show ?case by (rule parsesBack_object)
next
  case 1
  show ?case by (rule parsesBackI) (simp_all add: scanWord_def)
next
  case (2 b)
  show ?case by (rule parsesBackI) (cases b; simp add: scanWord_def)+
next
  case (4 s)
  show ?case by (rule parsesBackI) (simp_all add: quote_def unquote_quoteBody)
qed

lemma sum_list_le_commas: "sum_list (map length ss) \<le> length (commas ss)"
  by (induction ss rule: commas.induct) auto

lemma json_Encode_length: "intJson v \<Longrightarrow> Suc (needJson v) \<le> 2 * length (json_Encode v)"
proof (induction v rule: json_Encode.induct)
  case (3 n)
  then obtain i where n: "n = Itoa i" by auto
  obtain c cs where "Itoa i = c # cs" by (rule Itoa_hd)
  then show ?case by (simp add: n)
next
  case (5 vs)
  have "sum_list (map (\<lambda>v. Suc (needJson v)) vs) \<le> sum_list (map (\<lambda>v. 2 * length (json_Encode v)) vs)"
    by (rule sum_list_mono) (use 5 in auto)
  also have "\<dots> = 2 * sum_list (map length (map json_Encode vs))"
    by (simp add: sum_list_const_mult comp_def)
  finally show ?case
    using sum_list_le_commas [of "map json_Encode vs"] by simp
next
  case (6 ms)
  let ?enc = "\<lambda>(k, v). quote k @ CHR '':'' # json_Encode v"
  have "sum_list (map (\<lambda>m. Suc (needJson (snd m))) ms) \<le> sum_list (map (\<lambda>m. 2 * length (?enc m)) ms)"
    by (rule sum_list_mono) (use 6 in \<open>fastforce simp: quote_def\<close>)
  also have "\<dots> = 2 * sum_list (map length (map ?enc ms))"
    by (simp add: sum_list_const_mult comp_def)
  finally show ?case
    using sum_list_le_commas [of "map ?enc ms"] by simp
qed (auto simp: quote_def)

lemma json_Parse_Encode:
  assumes "intJson v" and "depthJson v \<le> maxNestingDepth"
  shows "json_Parse (json_Encode v) = Some (coerceJson v)"
proof -
  have "needJson v \<le> Suc (2 * length (json_Encode v))"
    using json_Encode_length [OF assms(1)] by simp
  with assms(2) parsesBack_intJson [OF assms(1)]
  have "parseValue (Suc (2 * length (json_Encode v))) 0 (json_Encode v @ []) = Some (coerceJson v, [])"
    unfolding parsesBack_def by (metis add_0_right jsonTail_simps(1))
  then show ?thesis by (simp add: json_Parse_def del: parseValue.simps)
qed

section \<open>The parser's fuel\<close>

text \<open>
  Every part of the parser consumes input, so twice the input length plus one is enough
  fuel: any larger amount gives the same result, for every input, accepted or not.
\<close>

lemma skipWs_length: "length (skipWs s) \<le> length s"
  by (simp add: skipWs_def length_dropWhile_le)

lemma skipWs_Cons_length: "skipWs s = c # cs \<Longrightarrow> length cs < length s"
  using skipWs_length [of s] by simp

lemma emit_SomeD: "emit d r = Some (s, t) \<Longrightarrow> \<exists>s'. r = Some (s', t)"
  by (auto simp: emit_def split: option.splits)

lemma unquote_length: "unquote s = Some (x, t) \<Longrightarrow> length t < length s"
proof (induction s arbitrary: x rule: length_induct)
  case (1 s)
  then obtain c cs where s: "s = c # cs" by (cases s) auto
  note ret = "1.prems" [unfolded s unquote.simps(2)]
  have IH: "length t < length u" if "unquote u = Some (y, t)" "length u < length s" for u y
    using "1.IH" that by blast
  let ?n = "utf8Len (c # cs)"
  consider "c = CHR 0x22" | "c = CHR 0x5C" | "c \<noteq> CHR 0x22" "c \<noteq> CHR 0x5C" by blast
  then show ?case
  proof cases
    case 1
    with ret show ?thesis by (simp add: s)
  next
    case 2
    then obtain e es where cs: "cs = e # es" using ret by (cases cs) auto
    show ?thesis
    proof (cases "simpleEscape e")
      case (Some d)
      with ret 2 cs obtain x' where "unquote es = Some (x', t)"
        by (auto dest: emit_SomeD)
      from IH [OF this] show ?thesis by (simp add: s cs)
    next
      case None
      with ret 2 cs obtain r rest where g: "e = CHR ''u''" "getu4 es = Some (r, rest)"
        by (auto split: if_splits option.splits)
      with ret 2 cs None obtain x' where u: "unquote (snd (unescapeU r rest)) = Some (x', t)"
        by (auto dest: emit_SomeD)
      have "length (snd (unescapeU r rest)) \<le> length rest"
        by (rule unescapeU_length [OF prod.collapse [symmetric]])
      with IH [OF u] getu4_length [OF g(2)] show ?thesis by (simp add: s cs)
    qed
  next
    case 3
    show ?thesis
    proof (cases "code c < 0x80 \<or> ?n = 0")
      case True
      with ret 3 obtain x' where "unquote cs = Some (x', t)"
        by (auto simp: Let_def dest: emit_SomeD split: if_splits)
      from IH [OF this] show ?thesis by (simp add: s)
    next
      case False
      with ret 3 obtain x' where "unquote (drop ?n (c # cs)) = Some (x', t)"
        by (auto simp: Let_def dest: emit_SomeD split: if_splits)
      from IH [OF this] False show ?thesis by (simp add: s)
    qed
  qed
qed

lemma spanDigits_length: "spanDigits s = (d, r) \<Longrightarrow> length r \<le> length s"
  by (auto simp: spanDigits_def length_dropWhile_le)

lemma scanInt_length: "scanInt s = Some (d, r) \<Longrightarrow> length r < length s"
  by (auto simp: scanInt_def spanDigits_def less_Suc_eq_le length_dropWhile_le
      split: list.splits if_splits)

lemma scanFrac_length: "scanFrac s = Some (d, r) \<Longrightarrow> length r \<le> length s"
  by (auto simp: scanFrac_def spanDigits_def le_Suc_eq length_dropWhile_le
      split: list.splits if_splits)

lemma scanExp_length:
  assumes "scanExp s = Some (d, r)"
  shows "length r \<le> length s"
proof -
  have le: "length (dropWhile is_digit u) \<le> length u" for u
    by (rule length_dropWhile_le)
  show ?thesis
    using assms le
    by (auto simp: scanExp_def spanDigits_def Let_def le_Suc_eq split: list.splits if_splits)
qed

lemma scanNumber_length:
  assumes "scanNumber s = Some (n, r)"
  shows "length r < length s"
proof -
  obtain sg s1 where s1: "(case s of c # cs \<Rightarrow> if c = CHR ''-'' then ([c], cs) else ([], s) | [] \<Rightarrow> ([], []))
      = (sg, s1)" by fastforce
  then have "length s1 \<le> length s" by (auto split: list.splits if_splits)
  moreover have "length r < length s1"
    using assms s1
    by (fastforce simp: scanNumber_def dest!: scanInt_length scanFrac_length scanExp_length
        split: option.splits)
  ultimately show ?thesis by simp
qed

lemma scanWord_length: "w \<noteq> [] \<Longrightarrow> scanWord w v s = Some (x, r) \<Longrightarrow> length r < length s"
  by (cases s) (auto simp: scanWord_def split: if_splits)

lemma parse_length:
  "parseValue f d s = Some (v, r) \<Longrightarrow> length r < length s"
  "parseElems f d s = Some (vs, r) \<Longrightarrow> length r < length s"
  "parseMembers f d s = Some (ms, r) \<Longrightarrow> length r < length s"
proof (induction f arbitrary: d s v vs ms r)
  case (Suc f)
  {
    case 1
    have el: "length r < length s" if "parseElems f d' (c # u) = Some (a, r)" "length u < length w" "length w < length s" for u w c a d'
      using Suc.IH(2) [OF that(1)] that(2,3) by simp
    have mem: "length r < length s" if "parseMembers f d' (c # u) = Some (a, r)" "length u < length w" "length w < length s" for u w c a d'
      using Suc.IH(3) [OF that(1)] that(2,3) by simp
    from 1 show ?case
      by (auto split: list.splits if_splits option.splits intro: el mem
        dest!: skipWs_Cons_length unquote_length scanNumber_length scanWord_length [rotated])
  next
    case 2
    then show ?case
      by (fastforce split: list.splits if_splits option.splits
          dest!: skipWs_Cons_length Suc.IH(1) Suc.IH(2))
  next
    case 3
    then show ?case
      by (fastforce split: list.splits if_splits option.splits
          dest!: skipWs_Cons_length unquote_length Suc.IH(1) Suc.IH(3))
  }
qed simp_all

lemma parse_enough:
  "2 * length s < f \<Longrightarrow> parseValue (Suc f) d s = parseValue f d s"
  "Suc (2 * length s) < f \<Longrightarrow> parseElems (Suc f) d s = parseElems f d s"
  "Suc (2 * length s) < f \<Longrightarrow> parseMembers (Suc f) d s = parseMembers f d s"
proof (induction f arbitrary: d s)
  case (Suc f)
  {
    case 1
    show ?case
    proof (cases "skipWs s")
      case (Cons c cs)
      then have cs: "length cs < length s" by (rule skipWs_Cons_length)
      have "parseElems (Suc f) d' (c2 # r) = parseElems f d' (c2 # r)"
        "parseMembers (Suc f) d' (c2 # r) = parseMembers f d' (c2 # r)"
        if "skipWs cs = c2 # r" for c2 r d'
        using Suc.IH(2,3) [of "c2 # r"] skipWs_Cons_length [OF that] cs 1 by auto
      then show ?thesis
        by (simp only: parseValue.simps Cons list.case)
          (auto simp del: parseElems.simps parseMembers.simps split: list.splits)
    qed (simp only: parseValue.simps list.case)
  next
    case 2
    have v: "parseValue (Suc f) d s = parseValue f d s"
      by (rule Suc.IH(1)) (use 2 in simp)
    have "parseElems (Suc f) d t = parseElems f d t"
      if "parseValue f d s = Some (v, r)" "skipWs r = c # t" for v r c t
      using Suc.IH(2) [of t d] parse_length(1) [OF that(1)] skipWs_Cons_length [OF that(2)] 2 by simp
    then show ?case
      unfolding parseElems.simps(2) [of "Suc f" d s] parseElems.simps(2) [of f d s] v
      by (auto simp del: parseElems.simps parseValue.simps split: option.splits list.splits)
  next
    case 3
    have v: "parseValue (Suc f) d r1 = parseValue f d r1"
      if "skipWs s = q # cs" "unquote cs = Some (k, r)" "skipWs r = c # r1" for q cs k r c r1
      using Suc.IH(1) [of r1 d] skipWs_Cons_length [OF that(1)] unquote_length [OF that(2)]
        skipWs_Cons_length [OF that(3)] 3 by simp
    have m: "parseMembers (Suc f) d t = parseMembers f d t"
      if "skipWs s = q # cs" "unquote cs = Some (k, r)" "skipWs r = c # r1"
        "parseValue f d r1 = Some (v, r2)" "skipWs r2 = c' # t" for q cs k r c r1 v r2 c' t
      using Suc.IH(3) [of t d] skipWs_Cons_length [OF that(1)] unquote_length [OF that(2)]
        skipWs_Cons_length [OF that(3)] parse_length(1) [OF that(4)]
        skipWs_Cons_length [OF that(5)] 3 by simp
    show ?case
      unfolding parseMembers.simps(2) [of "Suc f" d s] parseMembers.simps(2) [of f d s]
      using v m by (auto simp del: parseMembers.simps parseValue.simps split: option.splits list.splits)
  }
qed simp_all

lemma json_Parse_fuel:
  assumes "2 * length s < f"
  shows "json_Parse s =
    (case parseValue f 0 s of None \<Rightarrow> None | Some (v, r) \<Rightarrow> if skipWs r = [] then Some v else None)"
proof -
  have "parseValue (Suc (2 * length s) + n) 0 s = parseValue (Suc (2 * length s)) 0 s" for n
    by (induction n) (simp_all add: parse_enough(1) del: parseValue.simps)
  from this [of "f - Suc (2 * length s)"] assms show ?thesis
    by (simp add: json_Parse_def del: parseValue.simps)
qed

end
