(* ===== verification/Message_Payloads.thy ===== *)
theory Message_Payloads
  imports Agent_Message Go_Json
begin

text \<open>
  The message constructors of \<^verbatim>\<open>messages/message.go\<close>, the payload structs of
  \<^verbatim>\<open>messages/types.go\<close> and their JSON: acknowledgements, terminal sizes and the
  handshake. \<^verbatim>\<open>time.Now()\<close> and \<^verbatim>\<open>uuid.New()\<close> are the arguments \<open>now\<close> and \<open>uid\<close> of the
  constructors; \<^verbatim>\<open>uuid.UUID.String\<close>, of a third-party package, is the parameter
  \<open>uuid_String\<close>.

  \<^verbatim>\<open>json.Marshal\<close> does not fail on the values the code gives it (maps and structs of
  strings, integers and one literal raw message), so the constructors that use it always
  succeed; their error branches are kept in the result type only.
\<close>

section \<open>Payload structs\<close>

record RequestedClientAction =
  ActionType :: string
  ActionParameters :: json

record HandshakeRequestPayload =
  AgentVersion :: string
  RequestedClientActions :: "RequestedClientAction list"

record ProcessedClientAction =
  processedType :: string
  ActionStatus :: int
  ActionResult :: "json" \<comment> \<open>a raw message; nil marshals as null\<close>
  processedError :: string

record HandshakeResponsePayload =
  ClientVersion :: string
  ProcessedClientActions :: "ProcessedClientAction list"
  Errors :: "string list"

abbreviation wrap2 :: "go_error \<Rightarrow> go_error \<Rightarrow> go_error" where
  "wrap2 a b \<equiv> Errorf ''%w: %w'' [a, b]"

section \<open>Constructors\<close>

definition NewAgentMessage :: "time \<Rightarrow> bytes \<Rightarrow> agent_message" where
  "NewAgentMessage now uid =
     zeroMessage\<lparr>headerLength := agentMsgHeaderLen, SchemaVersion := 1, CreatedDate := now,
       MessageID := uid\<rparr>"

definition NewStreamMessage :: "time \<Rightarrow> bytes \<Rightarrow> bytes \<Rightarrow> agent_message" where
  "NewStreamMessage now uid data =
     (NewAgentMessage now uid)\<lparr>MessageType := InputStreamData, Flags := Data,
       PayloadType := Output, Payload := data\<rparr>"

definition sizePayload :: "int \<Rightarrow> int \<Rightarrow> bytes" where
  "sizePayload width height =
     bytes_of (json_Encode (JObj [(''cols'', JNum (Itoa width)), (''rows'', JNum (Itoa height))]))"

definition NewSizeMessage :: "time \<Rightarrow> bytes \<Rightarrow> int \<Rightarrow> int \<Rightarrow> go_error + agent_message" where
  "NewSizeMessage now uid width height =
     Inr ((NewAgentMessage now uid)\<lparr>MessageType := InputStreamData, Flags := Data,
       PayloadType := Size, Payload := sizePayload width height\<rparr>)"

definition NewTerminateSessionMessage :: "time \<Rightarrow> bytes \<Rightarrow> agent_message" where
  "NewTerminateSessionMessage now uid =
     (NewAgentMessage now uid)\<lparr>MessageType := InputStreamData, Flags := Fin,
       PayloadType := Flag, Payload := PutUint32 TerminateSession\<rparr>"

definition NewAcknowledgementMessage :: "time \<Rightarrow> bytes \<Rightarrow> int64 \<Rightarrow> bytes \<Rightarrow> agent_message" where
  "NewAcknowledgementMessage now uid sequenceNumber data =
     (NewAgentMessage now uid)\<lparr>MessageType := Acknowledge, SequenceNumber := sequenceNumber,
       Flags := Ack, PayloadType := Undefined, Payload := data\<rparr>"

section \<open>Handshake response\<close>

definition processAction :: "RequestedClientAction \<Rightarrow> ProcessedClientAction" where
  "processAction a =
     (if ActionType a = SessionType then
        \<lparr>processedType = ActionType a, ActionStatus = Success, ActionResult = JNull,
         processedError = []\<rparr>
      else
        \<lparr>processedType = ActionType a, ActionStatus = 0, ActionResult = JNum (Itoa Unsupported),
         processedError = ''Unsupported action '' @ ActionType a\<rparr>)"

definition handshakeResponse ::
    "string \<Rightarrow> RequestedClientAction list \<Rightarrow> HandshakeResponsePayload" where
  "handshakeResponse version actions =
     \<lparr>ClientVersion = version,
      ProcessedClientActions = map processAction actions,
      Errors = map (processedError \<circ> processAction) (filter (\<lambda>a. ActionType a \<noteq> SessionType) actions)\<rparr>"

definition json_ProcessedClientAction :: "ProcessedClientAction \<Rightarrow> json" where
  "json_ProcessedClientAction p =
     JObj [(''ActionType'', JStr (processedType p)),
           (''ActionStatus'', JNum (Itoa (ActionStatus p))),
           (''ActionResult'', ActionResult p),
           (''Error'', JStr (processedError p))]"

definition json_HandshakeResponsePayload :: "HandshakeResponsePayload \<Rightarrow> json" where
  "json_HandshakeResponsePayload h =
     JObj [(''ClientVersion'', JStr (ClientVersion h)),
           (''ProcessedClientActions'', JArr (map json_ProcessedClientAction (ProcessedClientActions h))),
           (''Errors'', JArr (map JStr (Errors h)))]"

definition NewHandshakeResponse ::
    "time \<Rightarrow> bytes \<Rightarrow> string \<Rightarrow> RequestedClientAction list \<Rightarrow> go_error + agent_message" where
  "NewHandshakeResponse now uid version actions =
     Inr ((NewAgentMessage now uid)\<lparr>MessageType := InputStreamData, Flags := Data,
       PayloadType := HandshakeResponse,
       Payload := bytes_of (json_Encode (json_HandshakeResponsePayload
         (handshakeResponse version actions)))\<rparr>)"

section \<open>Decoding JSON into structs\<close>

text \<open>
  A member of an object goes to the field with its name, else to one whose name is equal
  when case-folded. Folding maps letters to upper case, and the two non-ASCII runes that
  fold to ASCII letters: U+017F (to S) and U+212A (to K). Errors of single members do not
  stop the decoding; they make the whole call fail at the end.
\<close>

fun foldName :: "string \<Rightarrow> string" where
  "foldName [] = []"
| "foldName (c # cs) =
     (if c = CHR 0xC5 \<and> take 1 cs = [CHR 0xBF] then CHR ''S'' # foldName (drop 1 cs)
      else if c = CHR 0xE2 \<and> take 2 cs = [CHR 0x84, CHR 0xAA] then CHR ''K'' # foldName (drop 2 cs)
      else (if 97 \<le> code c \<and> code c \<le> 122 then char_of (code c - 32) else c) # foldName cs)"

definition matchesField :: "string \<Rightarrow> string \<Rightarrow> bool" where
  "matchesField name key \<longleftrightarrow> foldName key = foldName name"

definition decodeInt64 :: "json \<Rightarrow> int64 \<Rightarrow> int64 \<times> bool" where
  "decodeInt64 v old =
     (case v of
        JNull \<Rightarrow> (old, True)
      | JNum n \<Rightarrow> (case Atoi n of Some i \<Rightarrow> (word_of_int i, True) | None \<Rightarrow> (old, False))
      | _ \<Rightarrow> (old, False))"

definition decodeString :: "json \<Rightarrow> string \<Rightarrow> string \<times> bool" where
  "decodeString v old =
     (case v of JNull \<Rightarrow> (old, True) | JStr s \<Rightarrow> (s, True) | _ \<Rightarrow> (old, False))"

text \<open>Numbers of an \<^verbatim>\<open>any\<close> field are float64: the ones that round to infinity are errors.\<close>

definition floatFits :: "string \<Rightarrow> bool" where
  "floatFits n =
     (let s = (case n of c # cs \<Rightarrow> if c = CHR ''-'' then cs else n | [] \<Rightarrow> n);
          (i, s) = spanDigits s;
          (f, s) = (case s of c # cs \<Rightarrow> if c = CHR ''.'' then spanDigits cs else ([], s) | [] \<Rightarrow> ([], s));
          e = (case s of _ # cs \<Rightarrow>
                 (case cs of
                    x # xs \<Rightarrow> if x = CHR ''-'' then - int (digitsVal xs)
                              else if x = CHR ''+'' then int (digitsVal xs)
                              else int (digitsVal cs)
                  | [] \<Rightarrow> 0)
               | [] \<Rightarrow> 0) - int (length f);
          m = int (digitsVal (i @ f));
          limit = 2 ^ 1024 - 2 ^ 970
      in if e \<ge> 0 then m * 10 ^ nat e < limit else m < limit * 10 ^ nat (- e))"

fun anyFits :: "json \<Rightarrow> bool" where
  "anyFits (JNum n) = floatFits n"
| "anyFits (JArr vs) = list_all anyFits vs"
| "anyFits (JObj ms) = list_all (\<lambda>m. anyFits (snd m)) ms"
| "anyFits _ = True"

fun decodeActionMembers ::
    "(string \<times> json) list \<Rightarrow> RequestedClientAction \<Rightarrow> RequestedClientAction \<times> bool" where
  "decodeActionMembers [] a = (a, True)"
| "decodeActionMembers ((k, v) # ms) a =
     (let (a, ok) =
        (if matchesField ''ActionType'' k then
           (let (s, ok) = decodeString v (ActionType a) in (a\<lparr>ActionType := s\<rparr>, ok))
         else if matchesField ''ActionParameters'' k then
           (a\<lparr>ActionParameters := v\<rparr>, anyFits v)
         else (a, True));
        (a, ok') = decodeActionMembers ms a
      in (a, ok \<and> ok'))"

definition zeroAction :: RequestedClientAction where
  "zeroAction = \<lparr>ActionType = [], ActionParameters = JNull\<rparr>"

definition decodeAction :: "json \<Rightarrow> RequestedClientAction \<Rightarrow> RequestedClientAction \<times> bool" where
  "decodeAction v a =
     (case v of JObj ms \<Rightarrow> decodeActionMembers ms a | JNull \<Rightarrow> (a, True) | _ \<Rightarrow> (a, False))"

text \<open>An array is decoded onto the elements the slice already has (a repeated member).\<close>

fun decodeElems ::
    "json list \<Rightarrow> RequestedClientAction list \<Rightarrow> RequestedClientAction list \<times> bool" where
  "decodeElems [] old = ([], True)"
| "decodeElems (v # vs) old =
     (let (a, ok) = decodeAction v (case old of [] \<Rightarrow> zeroAction | a # _ \<Rightarrow> a);
          (as, ok') = decodeElems vs (tl old)
      in (a # as, ok \<and> ok'))"

definition decodeActions ::
    "json \<Rightarrow> RequestedClientAction list \<Rightarrow> RequestedClientAction list \<times> bool" where
  "decodeActions v old =
     (case v of JNull \<Rightarrow> ([], True) | JArr vs \<Rightarrow> decodeElems vs old | _ \<Rightarrow> (old, False))"

fun decodeRequestMembers ::
    "(string \<times> json) list \<Rightarrow> HandshakeRequestPayload \<Rightarrow> HandshakeRequestPayload \<times> bool" where
  "decodeRequestMembers [] h = (h, True)"
| "decodeRequestMembers ((k, v) # ms) h =
     (let (h, ok) =
        (if matchesField ''AgentVersion'' k then
           (let (s, ok) = decodeString v (AgentVersion h) in (h\<lparr>AgentVersion := s\<rparr>, ok))
         else if matchesField ''RequestedClientActions'' k then
           (let (as, ok) = decodeActions v (RequestedClientActions h)
            in (h\<lparr>RequestedClientActions := as\<rparr>, ok))
         else (h, True));
        (h, ok') = decodeRequestMembers ms h
      in (h, ok \<and> ok'))"

text \<open>\<^verbatim>\<open>json.Unmarshal(payload, &handshakeRequest)\<close> on a zero struct.\<close>

definition UnmarshalHandshakeRequest :: "bytes \<Rightarrow> go_error + HandshakeRequestPayload" where
  "UnmarshalHandshakeRequest payload =
     (let zero = \<lparr>AgentVersion = [], RequestedClientActions = []\<rparr> in
      case json_Parse (string_of payload) of
        None \<Rightarrow> Inl json_SyntaxError
      | Some JNull \<Rightarrow> Inr zero
      | Some (JObj ms) \<Rightarrow>
          (let (h, ok) = decodeRequestMembers ms zero
           in if ok then Inr h else Inl json_UnmarshalTypeError)
      | Some _ \<Rightarrow> Inl json_UnmarshalTypeError)"

section \<open>Acknowledgements\<close>

text \<open>The payload of \<^verbatim>\<open>sendAcknowledgeMessage\<close> (\<^verbatim>\<open>session.go\<close>): a map, so its keys are sorted.\<close>

definition ackPayload :: "(bytes \<Rightarrow> string) \<Rightarrow> agent_message \<Rightarrow> bytes" where
  "ackPayload uuid_String incoming =
     bytes_of (json_Encode (JObj
       [(''AcknowledgedMessageId'', JStr (uuid_String (MessageID incoming))),
        (''AcknowledgedMessageSequenceNumber'', JNum (Itoa (sint (SequenceNumber incoming)))),
        (''AcknowledgedMessageType'', JStr (MessageType incoming)),
        (''IsSequentialMessage'', JBool True)]))"

fun decodeAckMembers :: "(string \<times> json) list \<Rightarrow> int64 \<Rightarrow> int64 \<times> bool" where
  "decodeAckMembers [] n = (n, True)"
| "decodeAckMembers ((k, v) # ms) n =
     (let (n, ok) =
        (if matchesField ''AcknowledgedMessageSequenceNumber'' k then decodeInt64 v n else (n, True));
        (n, ok') = decodeAckMembers ms n
      in (n, ok \<and> ok'))"

definition ParseAcknowledgment :: "agent_message \<Rightarrow> go_error + int64" where
  "ParseAcknowledgment msg =
     (case json_Parse (string_of (Payload msg)) of
        None \<Rightarrow> Inl (wrap2 ErrUnmarshalAck json_SyntaxError)
      | Some JNull \<Rightarrow> Inr 0
      | Some (JObj ms) \<Rightarrow>
          (let (n, ok) = decodeAckMembers ms 0
           in if ok then Inr n else Inl (wrap2 ErrUnmarshalAck json_UnmarshalTypeError))
      | Some _ \<Rightarrow> Inl (wrap2 ErrUnmarshalAck json_UnmarshalTypeError))"

section \<open>Messages the constructors build\<close>

lemma NewAgentMessage_simps [simp]:
  "headerLength (NewAgentMessage now uid) = agentMsgHeaderLen"
  "SchemaVersion (NewAgentMessage now uid) = 1"
  "CreatedDate (NewAgentMessage now uid) = now"
  "MessageID (NewAgentMessage now uid) = uid"
  "SequenceNumber (NewAgentMessage now uid) = 0"
  "Flags (NewAgentMessage now uid) = 0"
  by (simp_all add: NewAgentMessage_def zeroMessage_def)

text \<open>
  A message the client can send: built on \<open>NewAgentMessage\<close>, of one of the two types the
  library sends, with a real date. Sequence number, flags and payload are free.
\<close>

definition sendable :: "agent_message \<Rightarrow> bool" where
  "sendable m \<longleftrightarrow>
     wf_message m \<and> headerLength m = agentMsgHeaderLen \<and> SchemaVersion m = 1
     \<and> CreatedDate m \<noteq> zeroTime \<and> (MessageType m = InputStreamData \<or> MessageType m = Acknowledge)
     \<and> length (Payload m) < 2 ^ 32 - 120"

lemma sendable_sealed:
  assumes "sendable m"
  shows "ValidateMessage (sealed m) = None"
  using assms
  by (auto simp: sendable_def ValidateMessage_def go_consts wf_message_def IsZero_def
      computePayloadDigest_def unat_of_nat)

lemma sendable_Marshal:
  assumes "sendable m"
  shows "MarshalBinary m = (Inr (wireBytes (sealed m)), sealed m)"
  using sendable_sealed [OF assms] by (simp add: MarshalBinary_sealed)

lemma wireType_sent: "wireType InputStreamData" "wireType Acknowledge"
  by code_simp+

lemma sendable_wire:
  assumes "sendable m" and "wireDate (CreatedDate m)"
  shows "UnmarshalBinary r (wireBytes (sealed m) @ junk) = (Returns None, received (sealed m))"
  by (rule UnmarshalBinary_wireBytes)
    (use assms wireType_sent sendable_sealed in \<open>auto simp: sendable_def wf_message_def\<close>)

lemma constructors_sendable:
  assumes "length uid = 16" and "now \<noteq> zeroTime"
  shows "length d < 2 ^ 32 - 120 \<Longrightarrow> sendable (NewStreamMessage now uid d)"
    and "length d < 2 ^ 32 - 120 \<Longrightarrow> sendable (NewAcknowledgementMessage now uid n d)"
    and "sendable (NewTerminateSessionMessage now uid)"
    and "length (sizePayload w h) < 2 ^ 32 - 120 \<Longrightarrow>
      NewSizeMessage now uid w h = Inr m \<Longrightarrow> sendable m"
    and "NewHandshakeResponse now uid v acts = Inr m \<Longrightarrow> length (Payload m) < 2 ^ 32 - 120 \<Longrightarrow>
      sendable m"
  using assms
  by (auto simp: sendable_def wf_message_def NewStreamMessage_def NewAcknowledgementMessage_def
      NewTerminateSessionMessage_def NewSizeMessage_def NewHandshakeResponse_def)

section \<open>Acknowledgement payloads\<close>

lemma ack_keys:
  "matchesField ''AcknowledgedMessageSequenceNumber'' ''AcknowledgedMessageSequenceNumber''"
  "\<not> matchesField ''AcknowledgedMessageSequenceNumber'' ''AcknowledgedMessageId''"
  "\<not> matchesField ''AcknowledgedMessageSequenceNumber'' ''AcknowledgedMessageType''"
  "\<not> matchesField ''AcknowledgedMessageSequenceNumber'' ''IsSequentialMessage''"
  by code_simp+

lemma ack_keys_ascii:
  "coerceUTF8 ''AcknowledgedMessageSequenceNumber'' = ''AcknowledgedMessageSequenceNumber''"
  "coerceUTF8 ''AcknowledgedMessageId'' = ''AcknowledgedMessageId''"
  "coerceUTF8 ''AcknowledgedMessageType'' = ''AcknowledgedMessageType''"
  "coerceUTF8 ''IsSequentialMessage'' = ''IsSequentialMessage''"
  by (rule coerceUTF8_ascii; simp)+

lemma ParseAcknowledgment_ackPayload:
  assumes "Payload a = ackPayload uuid_String m"
  shows "ParseAcknowledgment a = Inr (SequenceNumber m)"
proof -
  let ?v = "JObj [(''AcknowledgedMessageId'', JStr (uuid_String (MessageID m))),
        (''AcknowledgedMessageSequenceNumber'', JNum (Itoa (sint (SequenceNumber m)))),
        (''AcknowledgedMessageType'', JStr (MessageType m)),
        (''IsSequentialMessage'', JBool True)]"
  have "json_Parse (json_Encode ?v) = Some (coerceJson ?v)"
    by (rule json_Parse_Encode) (auto simp: maxNestingDepth_def)
  moreover have "Atoi (Itoa (sint (SequenceNumber m))) = Some (sint (SequenceNumber m))"
    using sint_64_bounds [of "SequenceNumber m"] by (intro Atoi_Itoa)
  ultimately show ?thesis
    using assms
    by (simp add: ParseAcknowledgment_def ackPayload_def decodeInt64_def ack_keys ack_keys_ascii
        del: json_Encode.simps)
qed

section \<open>Handshake response payloads\<close>

lemma intJson_processed: "intJson (json_ProcessedClientAction (processAction a))"
  by (auto simp: json_ProcessedClientAction_def processAction_def)

lemma depth_processed: "depthJson (json_ProcessedClientAction (processAction a)) = 1"
  by (auto simp: json_ProcessedClientAction_def processAction_def)

lemma foldr_max_le: "\<forall>x \<in> set xs. x \<le> n \<Longrightarrow> foldr max xs 0 \<le> (n :: nat)"
  by (induction xs) auto

lemma handshakeResponse_json:
  "json_Parse (json_Encode (json_HandshakeResponsePayload (handshakeResponse v acts)))
   = Some (coerceJson (json_HandshakeResponsePayload (handshakeResponse v acts)))"
proof (rule json_Parse_Encode)
  let ?ps = "map json_ProcessedClientAction (map processAction acts)"
  have "foldr max (map depthJson ?ps) 0 \<le> 1"
    by (rule foldr_max_le) (auto simp: depth_processed)
  moreover have "foldr max (map depthJson (map JStr (Errors (handshakeResponse v acts)))) 0 \<le> 0"
    by (rule foldr_max_le) auto
  ultimately show "depthJson (json_HandshakeResponsePayload (handshakeResponse v acts)) \<le> maxNestingDepth"
    by (simp add: json_HandshakeResponsePayload_def handshakeResponse_def maxNestingDepth_def comp_def)
qed (auto simp: json_HandshakeResponsePayload_def handshakeResponse_def intJson_processed)

section \<open>Properties\<close>

text \<open>C28: Every message the library builds can be sent and is received as built. With a
  16-byte identifier, a creation date in the int64 nanosecond range and a payload that fits
  the 32-bit length, the messages of all five constructors, with any sequence number and
  flags set later by the session, are accepted by \<^verbatim>\<open>MarshalBinary\<close>, and their bytes decode
  without an error to the same message with the date in milliseconds.\<close>

theorem constructed_messages_travel:
  assumes "length uid = 16" and "wireDate now"
    and "b = NewStreamMessage now uid d \<or> b = NewTerminateSessionMessage now uid
      \<or> b = NewAcknowledgementMessage now uid n d
      \<or> NewSizeMessage now uid w h = Inr b \<or> NewHandshakeResponse now uid v acts = Inr b"
    and "length (Payload b) < 2 ^ 32 - 120"
    and "m = b\<lparr>SequenceNumber := seq, Flags := flags\<rparr>"
  shows "\<exists>bs. MarshalBinary m = (Inr bs, sealed m)
    \<and> UnmarshalBinary r bs = (Returns None, received (sealed m))"
proof -
  have now: "now \<noteq> zeroTime"
    using assms(2) by (auto simp: wireDate_def truncateMilli_def zeroTime_def)
  have "sendable b \<and> CreatedDate b = now"
    using assms(3,4) constructors_sendable [OF assms(1) now]
    by (auto simp: NewStreamMessage_def NewAcknowledgementMessage_def
      NewTerminateSessionMessage_def NewSizeMessage_def NewHandshakeResponse_def)
  then have m: "sendable m" "wireDate (CreatedDate m)"
    using assms(2,5) by (auto simp: sendable_def wf_message_def)
  show ?thesis
    using sendable_Marshal [OF m(1)] sendable_wire [OF m, of r "[]"] by simp
qed

theorem constructed_messages_travel_witness:
  "\<exists>bs. MarshalBinary ((NewStreamMessage 5000000 (replicate 16 1) [104, 105])\<lparr>SequenceNumber := 0, Flags := Syn\<rparr>)
      = (Inr bs, sealed ((NewStreamMessage 5000000 (replicate 16 1) [104, 105])\<lparr>SequenceNumber := 0, Flags := Syn\<rparr>))
    \<and> UnmarshalBinary zeroMessage bs
      = (Returns None, received (sealed ((NewStreamMessage 5000000 (replicate 16 1) [104, 105])\<lparr>SequenceNumber := 0, Flags := Syn\<rparr>)))"
  by (rule constructed_messages_travel [where b = "NewStreamMessage 5000000 (replicate 16 1) [104, 105]"
        and now = 5000000 and uid = "replicate 16 1" and d = "[104, 105]"])
    (simp_all add: wireDate_def truncateMilli_def NewStreamMessage_def)

text \<open>C33: An acknowledgement names the message it acknowledges. For every incoming message,
  whatever its type, identifier and sequence number, and every rendering of identifiers, the
  payload that \<^verbatim>\<open>sendAcknowledgeMessage\<close> builds is read by \<^verbatim>\<open>ParseAcknowledgment\<close> as the
  sequence number of that message, also after the message that carries it has been encoded
  and decoded.\<close>

theorem acknowledgement_roundtrip:
  assumes "a = NewAcknowledgementMessage now uid (SequenceNumber m) (ackPayload uuid_String m)"
  shows "ParseAcknowledgment a = Inr (SequenceNumber m)
    \<and> (length uid = 16 \<and> wireDate now \<and> length (Payload a) < 2 ^ 32 - 120 \<longrightarrow>
        (\<exists>bs a'. MarshalBinary a = (Inr bs, sealed a) \<and> UnmarshalBinary r bs = (Returns None, a')
           \<and> ParseAcknowledgment a' = Inr (SequenceNumber m)))"
proof (intro conjI impI)
  have pay: "Payload a = ackPayload uuid_String m"
    by (simp add: assms NewAcknowledgementMessage_def)
  then show "ParseAcknowledgment a = Inr (SequenceNumber m)"
    by (rule ParseAcknowledgment_ackPayload)
  assume h: "length uid = 16 \<and> wireDate now \<and> length (Payload a) < 2 ^ 32 - 120"
  then have now: "now \<noteq> zeroTime"
    by (auto simp: wireDate_def truncateMilli_def zeroTime_def)
  have a: "sendable a" "wireDate (CreatedDate a)"
    using h constructors_sendable(2) [OF _ now] unfolding assms
    by (auto simp: NewAcknowledgementMessage_def)
  have "ParseAcknowledgment (received (sealed a)) = Inr (SequenceNumber m)"
    by (rule ParseAcknowledgment_ackPayload) (simp add: received_def pay)
  with sendable_Marshal [OF a(1)] sendable_wire [OF a, of r "[]"]
  show "\<exists>bs a'. MarshalBinary a = (Inr bs, sealed a) \<and> UnmarshalBinary r bs = (Returns None, a')
      \<and> ParseAcknowledgment a' = Inr (SequenceNumber m)"
    by auto
qed

theorem acknowledgement_roundtrip_witness:
  "ParseAcknowledgment (NewAcknowledgementMessage 0 (replicate 16 2) (SequenceNumber sampleMessage)
     (ackPayload (\<lambda>_. ''0a'') sampleMessage)) = Inr 7"
  using acknowledgement_roundtrip [OF refl, of 0 "replicate 16 2" sampleMessage "\<lambda>_. ''0a''"]
  by (simp add: sampleMessage_def)

text \<open>\<^verbatim>\<open>ParseAcknowledgment\<close> does not require its field: an acknowledgement whose payload
  is any JSON object without that member, or null, is taken, with no error, for an
  acknowledgement of sequence number 0.\<close>

theorem ParseAcknowledgment_missing_field:
  assumes "json_Parse (string_of (Payload a)) = Some JNull
    \<or> (\<exists>ms. json_Parse (string_of (Payload a)) = Some (JObj ms)
        \<and> (\<forall>k \<in> set (map fst ms). \<not> matchesField ''AcknowledgedMessageSequenceNumber'' k))"
  shows "ParseAcknowledgment a = Inr 0"
proof -
  have "decodeAckMembers ms n = (n, True)"
    if "\<forall>k \<in> set (map fst ms). \<not> matchesField ''AcknowledgedMessageSequenceNumber'' k" for ms n
    using that by (induction ms n rule: decodeAckMembers.induct) auto
  with assms show ?thesis
    by (auto simp: ParseAcknowledgment_def)
qed

theorem ParseAcknowledgment_missing_field_witness:
  "ParseAcknowledgment (zeroMessage\<lparr>Payload := bytes_of ''{}''\<rparr>) = Inr 0"
proof (rule ParseAcknowledgment_missing_field)
  have "json_Parse ''{}'' = Some (JObj [])"
    by (simp add: json_Parse_def maxNestingDepth_def eval_nat_numeral)
  then show "json_Parse (string_of (Payload (zeroMessage\<lparr>Payload := bytes_of ''{}''\<rparr>))) = Some JNull
    \<or> (\<exists>ms. json_Parse (string_of (Payload (zeroMessage\<lparr>Payload := bytes_of ''{}''\<rparr>))) = Some (JObj ms)
        \<and> (\<forall>k \<in> set (map fst ms). \<not> matchesField ''AcknowledgedMessageSequenceNumber'' k))"
    by simp
qed

text \<open>The handshake response answers every requested action, in order: one entry per
  action with the action's type, successful exactly for the session type and carrying an
  error text otherwise; the error list is the error texts of the unsupported actions; and the
  payload of the message is JSON that reads back as that response (strings as UTF-8).\<close>

theorem handshakeResponse_complete:
  "let h = handshakeResponse v acts in
     map processedType (ProcessedClientActions h) = map ActionType acts
     \<and> (\<forall>i < length acts. (ActionStatus (ProcessedClientActions h ! i) = Success)
          = (ActionType (acts ! i) = SessionType))
     \<and> Errors h = filter (\<lambda>e. e \<noteq> []) (map processedError (ProcessedClientActions h))
     \<and> (\<exists>m. NewHandshakeResponse now uid v acts = Inr m \<and> PayloadType m = HandshakeResponse
          \<and> json_Parse (string_of (Payload m)) = Some (coerceJson (json_HandshakeResponsePayload h)))"
proof -
  have "map (processedError \<circ> processAction) (filter (\<lambda>a. ActionType a \<noteq> SessionType) acts)
      = filter (\<lambda>e. e \<noteq> []) (map (processedError \<circ> processAction) acts)"
    by (induction acts) (auto simp: processAction_def)
  then show ?thesis
    using handshakeResponse_json [of v acts]
    by (auto simp: handshakeResponse_def processAction_def NewHandshakeResponse_def go_consts
        simp del: json_Encode.simps)
qed

theorem handshakeResponse_complete_witness:
  "Errors (handshakeResponse ''1.2'' [\<lparr>ActionType = ''SessionType'', ActionParameters = JNull\<rparr>,
     \<lparr>ActionType = ''KMSEncryption'', ActionParameters = JNull\<rparr>])
   = [''Unsupported action KMSEncryption'']"
  using handshakeResponse_complete [of "''1.2''" "[\<lparr>ActionType = ''SessionType'', ActionParameters = JNull\<rparr>,
     \<lparr>ActionType = ''KMSEncryption'', ActionParameters = JNull\<rparr>]"]
  by (simp add: Let_def handshakeResponse_def processAction_def go_consts)

end
