(* ===== verification/Go_Map.thy ===== *)
theory Go_Map
  imports Ssm_Prelude "HOL-Library.AList"
begin

text \<open>
  Go maps as association lists with distinct keys: \<^verbatim>\<open>m[k] = v\<close> is \<^const>\<open>AList.update\<close>,
  \<^verbatim>\<open>delete(m, k)\<close> is \<^const>\<open>AList.delete\<close>, the comma-ok lookup is \<^const>\<open>map_of\<close> and
  \<^verbatim>\<open>len(m)\<close> the length of the list. The lemmas say what these do to keys, entries and length.
\<close>

lemma set_AList_update_distinct:
  "distinct (map fst xs) \<Longrightarrow> set (AList.update k v xs) = {(a, b) \<in> set xs. a \<noteq> k} \<union> {(k, v)}"
  by (induction xs) (auto simp: image_iff)

lemma length_AList_update_le: "length (AList.update k v xs) \<le> Suc (length xs)"
  by (induction xs) auto

lemma length_AList_update_same: "map_of xs k \<noteq> None \<Longrightarrow> length (AList.update k v xs) = length xs"
  by (induction xs) auto

lemma length_AList_delete_le: "length (AList.delete k xs) \<le> length xs"
  by (simp add: AList.delete_eq)

lemma set_AList_delete: "set (AList.delete k xs) = {(a, b) \<in> set xs. a \<noteq> k}"
  by (auto simp: AList.delete_eq)

lemma length_AList_delete_less: "map_of q n = Some m \<Longrightarrow> length (AList.delete n q) < length q"
  by (induction q) (auto simp: AList.delete_eq le_imp_less_Suc)

lemma keys_AList_update: "fst ` set (AList.update k v xs) = insert k (fst ` set xs)"
  by (metis dom_map_of_conv_image_fst dom_fun_upd option.distinct(1) update_conv')

lemma keys_AList_delete: "fst ` set (AList.delete k xs) = fst ` set xs - {k}"
  by (auto simp: AList.delete_eq image_iff)

end
