(* ===== verification/Session_Reader.thy ===== *)
theory Session_Reader
  imports Message_Payloads Go_Map
begin

text \<open>
  The receiving goroutine of a session: \<^verbatim>\<open>handleIncomingMessages\<close>, \<^verbatim>\<open>readMessage\<close> and
  \<^verbatim>\<open>sendAcknowledgeMessage\<close> of \<^verbatim>\<open>session.go\<close>. The goroutine is a state machine whose
  program points are the places where it waits for its environment: the context check at
  the loop head, the websocket read, and every \<^verbatim>\<open>select\<close> between a channel send and
  \<^verbatim>\<open>ctx.Done()\<close>. One step takes the answer of the environment and runs the code up to the
  next such place; what it put on a channel is the output of the step.

  The map of out-of-order messages is an association list with distinct keys.
  The websocket package's \<^verbatim>\<open>IsCloseError\<close> and the uuid package's \<^verbatim>\<open>String\<close> are third-party code
  and fields of a parameter of the model.
\<close>

section \<open>State\<close>

record third_party =
  IsCloseError :: "go_error \<Rightarrow> nat list \<Rightarrow> bool"
  uuid_String :: "bytes \<Rightarrow> string"

definition maxOutOfOrderMessages :: nat where [go_consts]: "maxOutOfOrderMessages = 50"

datatype reader_pc =
    RTop                                  \<comment> \<open>loop head: \<^verbatim>\<open>ctx.Err()\<close>\<close>
  | RRead                                 \<comment> \<open>\<^verbatim>\<open>socket.ReadMessage()\<close>\<close>
  | RAckReceived int64                    \<comment> \<open>send on \<^verbatim>\<open>ackReceived\<close>\<close>
  | RAck agent_message                    \<comment> \<open>first acknowledgement, send on \<^verbatim>\<open>outgoingControlMessages\<close>\<close>
  | RDeliver agent_message                \<comment> \<open>send of the expected message on \<^verbatim>\<open>incomingDataMessages\<close>\<close>
  | RDrainAck agent_message               \<comment> \<open>second acknowledgement of a queued message\<close>
  | RDrainDeliver agent_message           \<comment> \<open>send of a queued message on \<^verbatim>\<open>incomingDataMessages\<close>\<close>
  | RReturned go_error
  | RPanicked

record reader =
  rpc :: reader_pc
  expectedSequenceId :: int64
  outOfOrderMessages :: "(int64 \<times> agent_message) list"

definition reader_init :: reader where
  "reader_init = \<lparr>rpc = RTop, expectedSequenceId = 0, outOfOrderMessages = []\<rparr>"

text \<open>
  Answers of the environment: \<^verbatim>\<open>ctx.Err()\<close>; the result of the read; a channel accepts the
  value (for an acknowledgement, with the time and the identifier \<^verbatim>\<open>NewAgentMessage\<close> put in
  it); the \<^verbatim>\<open>ctx.Done()\<close> branch, with \<^verbatim>\<open>context.Cause(ctx)\<close>.
\<close>

datatype reader_event =
    CtxErr "go_error option"
  | SocketRead "go_error + bytes"
  | Accepted
  | AckQueued time bytes
  | CtxDone go_error

datatype reader_output =
    ToControl agent_message
  | ToAckReceived int64
  | ToHandler agent_message

section \<open>Operations\<close>

definition readMessage :: "third_party \<Rightarrow> go_error + bytes \<Rightarrow> go_error + bytes" where
  "readMessage tp res =
     (case res of
        Inr msg \<Rightarrow> Inr msg
      | Inl err \<Rightarrow>
          if IsCloseError tp err [1000, 1001, 1006] then
            Inl (Errorf ''websocket connection is closed: %w'' [io_EOF])
          else Inl (Errorf ''failed to read from websocket: %w'' [err]))"

text \<open>The message \<^verbatim>\<open>sendAcknowledgeMessage\<close> queues.\<close>

definition sendAcknowledgeMessage :: "third_party \<Rightarrow> time \<Rightarrow> bytes \<Rightarrow> agent_message \<Rightarrow> agent_message" where
  "sendAcknowledgeMessage tp now uid incoming =
     NewAcknowledgementMessage now uid (SequenceNumber incoming)
       (ackPayload (uuid_String tp) incoming)"

text \<open>Lines 460 to 543: the \<^verbatim>\<open>switch\<close> up to the first \<^verbatim>\<open>select\<close> it reaches.\<close>

definition handleMessage :: "reader \<Rightarrow> agent_message \<Rightarrow> reader" where
  "handleMessage r msg =
     (if MessageType msg = Acknowledge then
        (case ParseAcknowledgment msg of
           Inl _ \<Rightarrow> r\<lparr>rpc := RTop\<rparr>
         | Inr acknowledgedSequence \<Rightarrow> r\<lparr>rpc := RAckReceived acknowledgedSequence\<rparr>)
      else if MessageType msg = PausePublication then r\<lparr>rpc := RTop\<rparr>
      else if MessageType msg = StartPublication then r\<lparr>rpc := RTop\<rparr>
      else if MessageType msg = OutputStreamData then
        if sint (SequenceNumber msg) \<le> sint (expectedSequenceId r) then r\<lparr>rpc := RAck msg\<rparr>
        else if length (outOfOrderMessages r) < maxOutOfOrderMessages then
          r\<lparr>outOfOrderMessages := AList.update (SequenceNumber msg) msg (outOfOrderMessages r),
            rpc := RAck msg\<rparr>
        else r\<lparr>rpc := RTop\<rparr>
      else if MessageType msg = ChannelClosed then
        r\<lparr>rpc := RReturned (wrap2 ErrRemoteSSMClosedPipe io_ErrClosedPipe)\<rparr>
      else r\<lparr>rpc := RTop\<rparr>)"

text \<open>Lines 448 to 456: the read and the decoding.\<close>

definition handleRead :: "third_party \<Rightarrow> reader \<Rightarrow> go_error + bytes \<Rightarrow> reader" where
  "handleRead tp r res =
     (case readMessage tp res of
        Inl err \<Rightarrow> r\<lparr>rpc := RReturned (wrap2 ErrReadWebsocketMessageFailed err)\<rparr>
      | Inr data \<Rightarrow>
          (case UnmarshalBinary zeroMessage data of
             (Panics, _) \<Rightarrow> r\<lparr>rpc := RPanicked\<rparr>
           | (Returns (Some err), _) \<Rightarrow> r\<lparr>rpc := RReturned (wrap2 ErrUnmarshalMessageFailed err)\<rparr>
           | (Returns None, msg) \<Rightarrow> handleMessage r msg))"

text \<open>Line 506, after the acknowledgement has been queued or has failed.\<close>

definition afterAck :: "reader \<Rightarrow> agent_message \<Rightarrow> reader" where
  "afterAck r msg =
     (if expectedSequenceId r = SequenceNumber msg then r\<lparr>rpc := RDeliver msg\<rparr>
      else r\<lparr>rpc := RTop\<rparr>)"

text \<open>Lines 517 and 518: the head of the inner loop.\<close>

definition drainHead :: "reader \<Rightarrow> reader" where
  "drainHead r =
     (case map_of (outOfOrderMessages r) (expectedSequenceId r) of
        Some msg \<Rightarrow> r\<lparr>rpc := RDrainAck msg\<rparr>
      | None \<Rightarrow> r\<lparr>rpc := RTop\<rparr>)"

definition delivered_one :: "reader \<Rightarrow> reader" where
  "delivered_one r = r\<lparr>expectedSequenceId := expectedSequenceId r + 1\<rparr>"

definition drained_one :: "reader \<Rightarrow> reader" where
  "drained_one r =
     r\<lparr>outOfOrderMessages := AList.delete (expectedSequenceId r) (outOfOrderMessages r),
       expectedSequenceId := expectedSequenceId r + 1\<rparr>"

text \<open>
  One step. \<^term>\<open>None\<close> is an answer that the program point does not ask for.
\<close>

fun reader_step ::
    "third_party \<Rightarrow> reader_pc \<Rightarrow> reader_event \<Rightarrow> reader \<Rightarrow> (reader \<times> reader_output list) option" where
  "reader_step tp RTop (CtxErr None) r = Some (r\<lparr>rpc := RRead\<rparr>, [])"
| "reader_step tp RTop (CtxErr (Some err)) r = Some (r\<lparr>rpc := RReturned err\<rparr>, [])"
| "reader_step tp RRead (SocketRead res) r = Some (handleRead tp r res, [])"
| "reader_step tp (RAckReceived n) Accepted r = Some (r\<lparr>rpc := RTop\<rparr>, [ToAckReceived n])"
| "reader_step tp (RAckReceived n) (CtxDone cause) r = Some (r\<lparr>rpc := RReturned cause\<rparr>, [])"
| "reader_step tp (RAck msg) (AckQueued now uid) r =
     Some (afterAck r msg, [ToControl (sendAcknowledgeMessage tp now uid msg)])"
| "reader_step tp (RAck msg) (CtxDone cause) r = Some (afterAck r msg, [])"
| "reader_step tp (RDeliver msg) Accepted r = Some (drainHead (delivered_one r), [ToHandler msg])"
| "reader_step tp (RDeliver msg) (CtxDone cause) r = Some (r\<lparr>rpc := RReturned cause\<rparr>, [])"
| "reader_step tp (RDrainAck msg) (AckQueued now uid) r =
     Some (r\<lparr>rpc := RDrainDeliver msg\<rparr>, [ToControl (sendAcknowledgeMessage tp now uid msg)])"
| "reader_step tp (RDrainAck msg) (CtxDone cause) r = Some (r\<lparr>rpc := RDrainDeliver msg\<rparr>, [])"
| "reader_step tp (RDrainDeliver msg) Accepted r =
     Some (drainHead (drained_one r), [ToHandler msg])"
| "reader_step tp (RDrainDeliver msg) (CtxDone cause) r = Some (r\<lparr>rpc := RReturned cause\<rparr>, [])"
| "reader_step tp _ _ r = None"

text \<open>A run of the goroutine on a list of answers, with everything it put on its channels.\<close>

fun reader_run ::
    "third_party \<Rightarrow> reader_event list \<Rightarrow> reader \<Rightarrow> (reader \<times> reader_output list) option" where
  "reader_run tp [] r = Some (r, [])"
| "reader_run tp (e # es) r =
     (case reader_step tp (rpc r) e r of
        None \<Rightarrow> None
      | Some (r', out) \<Rightarrow>
          map_option (\<lambda>(r'', outs). (r'', out @ outs)) (reader_run tp es r'))"

section \<open>What a run received, delivered and acknowledged\<close>

fun decoded :: "reader_event \<Rightarrow> agent_message list" where
  "decoded (SocketRead (Inr data)) =
     (case UnmarshalBinary zeroMessage data of (Returns None, msg) \<Rightarrow> [msg] | _ \<Rightarrow> [])"
| "decoded _ = []"

definition received_msgs :: "reader_event list \<Rightarrow> agent_message list" where
  "received_msgs es = concat (map decoded es)"

fun delivered :: "reader_output list \<Rightarrow> agent_message list" where
  "delivered [] = []"
| "delivered (ToHandler m # outs) = m # delivered outs"
| "delivered (_ # outs) = delivered outs"

fun ack_msgs :: "reader_output list \<Rightarrow> agent_message list" where
  "ack_msgs [] = []"
| "ack_msgs (ToControl m # outs) = m # ack_msgs outs"
| "ack_msgs (_ # outs) = ack_msgs outs"

definition acked :: "reader_output list \<Rightarrow> int64 list" where
  "acked outs = map SequenceNumber (ack_msgs outs)"

definition stream_data :: "agent_message list \<Rightarrow> agent_message set" where
  "stream_data ins = {m \<in> set ins. MessageType m = OutputStreamData}"

lemma delivered_append [simp]: "delivered (xs @ ys) = delivered xs @ delivered ys"
  by (induction xs rule: delivered.induct) simp_all

lemma ack_msgs_append [simp]: "ack_msgs (xs @ ys) = ack_msgs xs @ ack_msgs ys"
  by (induction xs rule: ack_msgs.induct) simp_all

lemma acked_simps [simp]:
  "acked [] = []" "acked (xs @ ys) = acked xs @ acked ys"
  "acked (ToHandler m # outs) = acked outs"
  "acked (ToAckReceived n # outs) = acked outs"
  "acked (ToControl m # outs) = SequenceNumber m # acked outs"
  by (simp_all add: acked_def)

lemma sendAcknowledgeMessage_seq [simp]:
  "SequenceNumber (sendAcknowledgeMessage tp now uid m) = SequenceNumber m"
  by (simp add: sendAcknowledgeMessage_def NewAcknowledgementMessage_def)

lemma stream_data_mono: "m \<in> stream_data ins \<Longrightarrow> m \<in> stream_data (ins @ ms)"
  by (auto simp: stream_data_def)

fun_cases reader_step_elims: "reader_step tp pc e r = Some (r', out)"

lemmas reader_stepE = reader_step_elims
  [consumes 1, case_names ctx_ok ctx_err read ack_received ack_received_done ack ack_done
    deliver deliver_done drain_ack drain_ack_done drain_deliver drain_deliver_done]

section \<open>The invariant of the receiving goroutine\<close>

definition draining :: "reader_pc \<Rightarrow> bool" where
  "draining pc \<longleftrightarrow> (\<exists>m. pc = RDrainAck m \<or> pc = RDrainDeliver m)"

definition running :: "reader_pc \<Rightarrow> bool" where
  "running pc \<longleftrightarrow> (\<forall>e. pc \<noteq> RReturned e) \<and> pc \<noteq> RPanicked"

text \<open>
  The queue: keys are the sequence numbers of the queued messages, all of them beyond the
  expected one (which is queued only while the inner loop is about to hand it over).
\<close>

definition queue_ok :: "agent_message list \<Rightarrow> nat \<Rightarrow> reader \<Rightarrow> bool" where
  "queue_ok ins k r \<longleftrightarrow>
     distinct (map fst (outOfOrderMessages r))
     \<and> length (outOfOrderMessages r) \<le> maxOutOfOrderMessages
     \<and> (\<forall>(n, m) \<in> set (outOfOrderMessages r).
          SequenceNumber m = n \<and> m \<in> stream_data ins \<and> int k \<le> sint n
          \<and> (draining (rpc r) \<or> int k < sint n \<or> \<not> running (rpc r)))"

fun pc_ok :: "agent_message list \<Rightarrow> nat \<Rightarrow> reader \<Rightarrow> reader_pc \<Rightarrow> bool" where
  "pc_ok ins k r (RAck m) =
     (m \<in> stream_data ins
      \<and> (sint (SequenceNumber m) \<le> int k \<or> (SequenceNumber m, m) \<in> set (outOfOrderMessages r)))"
| "pc_ok ins k r (RDeliver m) = (m \<in> stream_data ins \<and> SequenceNumber m = of_nat k)"
| "pc_ok ins k r (RDrainAck m) = ((of_nat k, m) \<in> set (outOfOrderMessages r))"
| "pc_ok ins k r (RDrainDeliver m) = ((of_nat k, m) \<in> set (outOfOrderMessages r))"
| "pc_ok ins k r _ = True"

definition reader_inv :: "agent_message list \<Rightarrow> reader_output list \<Rightarrow> reader \<Rightarrow> bool" where
  "reader_inv ins outs r \<longleftrightarrow>
     (let k = length (delivered outs) in
        expectedSequenceId r = of_nat k
        \<and> map SequenceNumber (delivered outs) = map of_nat [0..<k]
        \<and> set (delivered outs) \<subseteq> stream_data ins
        \<and> queue_ok ins k r
        \<and> pc_ok ins k r (rpc r))"

lemma int64_eq_of_nat: "sint (n :: int64) = int k \<Longrightarrow> n = of_nat k"
  by (metis int64_of_sint of_int_of_nat_eq)

text \<open>One preservation lemma per piece of code, then one for the step.\<close>

lemma reader_inv_pc:
  assumes "reader_inv ins outs r" and "\<not> draining (rpc r)"
    and "pc_ok ins (length (delivered outs)) r pc"
    and "running pc \<Longrightarrow> running (rpc r)"
  shows "reader_inv ins outs (r\<lparr>rpc := pc\<rparr>)"
proof -
  have "pc_ok ins k (r\<lparr>rpc := pc\<rparr>) pc = pc_ok ins k r pc" for k
    by (cases pc) simp_all
  with assms show ?thesis
    by (auto simp: reader_inv_def queue_ok_def Let_def)
qed
lemma reader_inv_more:
  assumes "reader_inv ins outs r"
  shows "reader_inv (ins @ ms) outs r"
proof -
  have "pc_ok ins k r pc \<Longrightarrow> pc_ok (ins @ ms) k r pc" for k pc
    by (cases pc) (auto intro: stream_data_mono)
  with assms show ?thesis
    by (fastforce simp: reader_inv_def Let_def queue_ok_def intro: stream_data_mono)
qed

lemma reader_inv_outs:
  "delivered outs' = delivered outs \<Longrightarrow> reader_inv ins outs' r = reader_inv ins outs r"
  by (simp add: reader_inv_def)

lemma reader_inv_handleMessage:
  assumes inv: "reader_inv ins outs r" and pc: "rpc r = RRead"
    and k: "length (delivered outs) < 2 ^ 63" and new: "msg \<in> set ins"
  shows "reader_inv ins outs (handleMessage r msg)"
proof -
  have exp: "sint (expectedSequenceId r) = int (length (delivered outs))"
    using inv k by (simp add: reader_inv_def Let_def)
  have idle: "reader_inv ins outs (r\<lparr>rpc := pc'\<rparr>)"
    if "pc_ok ins (length (delivered outs)) r pc'" for pc'
    by (rule reader_inv_pc [OF inv _ that]) (simp_all add: pc draining_def running_def)
  have queue: "reader_inv ins outs
      (r\<lparr>outOfOrderMessages := AList.update (SequenceNumber msg) msg (outOfOrderMessages r),
         rpc := RAck msg\<rparr>)"
    if "\<not> sint (SequenceNumber msg) \<le> sint (expectedSequenceId r)"
      and "length (outOfOrderMessages r) < maxOutOfOrderMessages" and "msg \<in> stream_data ins"
    using inv that length_AList_update_le [of "SequenceNumber msg" msg "outOfOrderMessages r"] exp
    by (auto simp: reader_inv_def Let_def queue_ok_def pc draining_def running_def
        set_AList_update_distinct distinct_update)
  have data: "MessageType msg = OutputStreamData \<Longrightarrow> msg \<in> stream_data ins"
    using new by (simp add: stream_data_def)
  show ?thesis
    using idle queue data
    by (simp add: handleMessage_def exp split: sum.split)
qed

lemma reader_inv_handleRead:
  assumes "reader_inv ins outs r" and "rpc r = RRead" and "length (delivered outs) < 2 ^ 63"
  shows "reader_inv (ins @ decoded (SocketRead res)) outs (handleRead tp r res)"
proof -
  have stop: "reader_inv ins' outs (r\<lparr>rpc := pc'\<rparr>)"
    if "reader_inv ins' outs r" and "pc_ok ins' (length (delivered outs)) r pc'" for ins' pc'
    by (rule reader_inv_pc [OF that(1) _ that(2)])
      (simp_all add: assms(2) draining_def running_def)
  show ?thesis
    using assms reader_inv_handleMessage [OF reader_inv_more [OF assms(1)] assms(2,3)]
      reader_inv_more [OF assms(1)]
    by (cases res)
      (auto simp: handleRead_def readMessage_def intro!: stop
        split: prod.split outcome.split option.split)
qed

lemma reader_inv_afterAck:
  assumes inv: "reader_inv ins outs r" and pc: "rpc r = RAck msg"
    and k: "length (delivered outs) < 2 ^ 63"
  shows "reader_inv ins outs (afterAck r msg)"
proof -
  have "pc_ok ins (length (delivered outs)) r (RDeliver msg)"
    if "expectedSequenceId r = SequenceNumber msg"
    using inv that pc by (auto simp: reader_inv_def Let_def)
  then show ?thesis
    unfolding afterAck_def using pc
    by (auto intro!: reader_inv_pc [OF inv] simp: draining_def running_def)
qed

text \<open>The inner loop: its head is entered with the queue at or beyond the expected number.\<close>

definition drain_ready :: "agent_message list \<Rightarrow> agent_message list \<Rightarrow> reader \<Rightarrow> bool" where
  "drain_ready ins ds r \<longleftrightarrow>
     expectedSequenceId r = of_nat (length ds)
     \<and> map SequenceNumber ds = map of_nat [0..<length ds]
     \<and> set ds \<subseteq> stream_data ins
     \<and> queue_ok ins (length ds) (r\<lparr>rpc := RDrainAck zeroMessage\<rparr>)"

lemma reader_inv_drainHead:
  assumes inv: "drain_ready ins (delivered outs) r" and k: "length (delivered outs) < 2 ^ 63"
  shows "reader_inv ins outs (drainHead r)"
proof (cases "map_of (outOfOrderMessages r) (expectedSequenceId r)")
  case None
  then have "fst x \<noteq> expectedSequenceId r" if "x \<in> set (outOfOrderMessages r)" for x
    using that by (force simp: map_of_eq_None_iff)
  moreover have "expectedSequenceId r = of_nat (length (delivered outs))"
    using inv by (simp add: drain_ready_def)
  ultimately have "sint (fst x) \<noteq> int (length (delivered outs))"
    if "x \<in> set (outOfOrderMessages r)" for x
    using that int64_eq_of_nat by metis
  with None inv show ?thesis
    by (fastforce simp: drainHead_def drain_ready_def reader_inv_def Let_def queue_ok_def)
next
  case (Some m')
  from map_of_SomeD [OF this] Some inv show ?thesis
    by (auto simp: drainHead_def drain_ready_def reader_inv_def Let_def queue_ok_def draining_def)
qed

lemma stream_prefix_snoc:
  assumes "map SequenceNumber ds = map of_nat [0..<length ds]"
    and "SequenceNumber m = of_nat (length ds)"
  shows "map SequenceNumber (ds @ [m]) = map of_nat [0..<length (ds @ [m])]"
  using assms by simp

lemma drain_ready_delivered_one:
  assumes inv: "reader_inv ins outs r" and pc: "rpc r = RDeliver msg"
    and k: "length (delivered outs) + 1 < 2 ^ 63"
  shows "drain_ready ins (delivered outs @ [msg]) (delivered_one r)"
  using inv stream_prefix_snoc [of "delivered outs" msg] pc
  by (fastforce simp: reader_inv_def drain_ready_def delivered_one_def Let_def queue_ok_def
      draining_def running_def)

lemma drain_ready_drained_one:
  assumes inv: "reader_inv ins outs r" and pc: "rpc r = RDrainDeliver msg"
    and k: "length (delivered outs) + 1 < 2 ^ 63"
  shows "drain_ready ins (delivered outs @ [msg]) (drained_one r)"
proof -
  let ?k = "length (delivered outs)"
  have exp: "expectedSequenceId r = of_nat ?k"
    and msg: "(of_nat ?k, msg) \<in> set (outOfOrderMessages r)"
    and q: "queue_ok ins ?k r"
    using inv pc by (auto simp: reader_inv_def Let_def)
  have "queue_ok ins (Suc ?k) ((drained_one r)\<lparr>rpc := RDrainAck zeroMessage\<rparr>)"
  proof -
    have "int (Suc ?k) \<le> sint n" if "(n, m) \<in> set (outOfOrderMessages r)" "n \<noteq> of_nat ?k" for n m
    proof -
      have "int ?k \<le> sint n"
        using q that(1) by (auto simp: queue_ok_def)
      moreover have "sint n \<noteq> int ?k"
        using that(2) int64_eq_of_nat by metis
      ultimately show ?thesis
        by simp
    qed
    with q show ?thesis
      using length_AList_delete_le [of "expectedSequenceId r" "outOfOrderMessages r"]
      by (auto simp: queue_ok_def drained_one_def draining_def exp set_AList_delete distinct_delete)
  qed
  moreover have "SequenceNumber msg = of_nat ?k" "msg \<in> stream_data ins"
    using q msg by (auto simp: queue_ok_def)
  ultimately show ?thesis
    using inv stream_prefix_snoc [of "delivered outs" msg]
    by (auto simp: reader_inv_def drain_ready_def Let_def drained_one_def)
qed

lemma reader_inv_step:
  assumes "reader_inv ins outs r" and "reader_step tp (rpc r) e r = Some (r', out)"
    and "length (delivered (outs @ out)) < 2 ^ 63"
  shows "reader_inv (ins @ decoded e) (outs @ out) r'"
  using assms(2)
proof (cases rule: reader_stepE)
  case (read res)
  with assms show ?thesis
    using reader_inv_handleRead [of ins outs r res tp] by simp
next
  case (ack msg now uid)
  with assms show ?thesis
    using reader_inv_afterAck [of ins outs r msg] by (simp add: reader_inv_def)
next
  case (ack_done msg cause)
  with assms show ?thesis
    using reader_inv_afterAck [of ins outs r msg] by (simp add: reader_inv_def)
next
  case (deliver msg)
  with assms show ?thesis
    using drain_ready_delivered_one [of ins outs r msg]
    by (auto intro!: reader_inv_drainHead)
next
  case (drain_deliver msg)
  with assms show ?thesis
    using drain_ready_drained_one [of ins outs r msg]
    by (auto intro!: reader_inv_drainHead)
qed (use assms in \<open>auto simp: reader_inv_def Let_def queue_ok_def draining_def running_def\<close>)
section \<open>What is acknowledged\<close>

text \<open>
  Nothing acknowledged is lost while the goroutine runs: an acknowledged number has been
  delivered (or is negative), is queued, or belongs to the message being delivered.
\<close>

definition queued :: "reader \<Rightarrow> int64 set" where
  "queued r = fst ` set (outOfOrderMessages r)"

fun acking :: "reader_pc \<Rightarrow> int64 set" where
  "acking (RAck m) = {SequenceNumber m}"
| "acking _ = {}"

fun delivering :: "reader_pc \<Rightarrow> int64 set" where
  "delivering (RDeliver m) = {SequenceNumber m}"
| "delivering _ = {}"

definition below :: "nat \<Rightarrow> int64 set" where
  "below k = {n. sint n < int k}"

definition ack_safe :: "reader_output list \<Rightarrow> reader \<Rightarrow> bool" where
  "ack_safe outs r \<longleftrightarrow>
     (running (rpc r) \<longrightarrow>
       set (acked outs) \<subseteq> below (length (delivered outs)) \<union> queued r \<union> delivering (rpc r))"

text \<open>As long as no acknowledgement was given up, all that is delivered or queued has one.\<close>

definition ack_complete :: "reader_output list \<Rightarrow> reader \<Rightarrow> bool" where
  "ack_complete outs r \<longleftrightarrow>
     SequenceNumber ` set (delivered outs) \<union> queued r \<union> delivering (rpc r)
       \<subseteq> set (acked outs) \<union> acking (rpc r)"

text \<open>Nothing received is dropped as long as no number is beyond the size of the queue.\<close>

definition small_numbers :: "agent_message list \<Rightarrow> bool" where
  "small_numbers ins \<longleftrightarrow>
     (\<forall>m \<in> stream_data ins. sint (SequenceNumber m) \<le> int maxOutOfOrderMessages)"

definition all_handled :: "agent_message list \<Rightarrow> reader_output list \<Rightarrow> reader \<Rightarrow> bool" where
  "all_handled ins outs r \<longleftrightarrow>
     (running (rpc r) \<longrightarrow> small_numbers ins \<longrightarrow>
       SequenceNumber ` stream_data ins
         \<subseteq> below (length (delivered outs)) \<union> queued r \<union> acking (rpc r) \<union> delivering (rpc r))"

definition is_cancel :: "reader_event \<Rightarrow> bool" where
  "is_cancel e \<longleftrightarrow> (\<exists>c. e = CtxDone c)"

lemma handleRead_cases:
  obtains (stopped) e where "decoded (SocketRead res) = []" "handleRead tp r res = r\<lparr>rpc := RReturned e\<rparr>"
  | (panicked) "decoded (SocketRead res) = []" "handleRead tp r res = r\<lparr>rpc := RPanicked\<rparr>"
  | (message) m where "decoded (SocketRead res) = [m]" "handleRead tp r res = handleMessage r m"
proof (cases "readMessage tp res")
  case (Inl err)
  then show ?thesis
    by (intro stopped [of "wrap2 ErrReadWebsocketMessageFailed err"])
      (auto simp: handleRead_def readMessage_def split: sum.splits)
next
  case (Inr data)
  then have res: "res = Inr data"
    by (auto simp: readMessage_def split: sum.splits if_splits)
  show ?thesis
  proof (cases "UnmarshalBinary zeroMessage data")
    case (Pair out m)
    with res Inr stopped panicked message show ?thesis
      by (cases out; cases "case out of Returns x \<Rightarrow> x | Panics \<Rightarrow> None")
        (auto simp: handleRead_def)
  qed
qed

lemma handleMessage_cases:
  obtains (idle) pc where "handleMessage r m = r\<lparr>rpc := pc\<rparr>" "MessageType m \<noteq> OutputStreamData"
      "acking pc = {}" "delivering pc = {}"
  | (due) "MessageType m = OutputStreamData"
      "sint (SequenceNumber m) \<le> sint (expectedSequenceId r)" "handleMessage r m = r\<lparr>rpc := RAck m\<rparr>"
  | (queue) "MessageType m = OutputStreamData"
      "sint (expectedSequenceId r) < sint (SequenceNumber m)"
      "length (outOfOrderMessages r) < maxOutOfOrderMessages"
      "handleMessage r m = r\<lparr>outOfOrderMessages := AList.update (SequenceNumber m) m (outOfOrderMessages r),
         rpc := RAck m\<rparr>"
  | (drop) "MessageType m = OutputStreamData"
      "sint (expectedSequenceId r) < sint (SequenceNumber m)"
      "maxOutOfOrderMessages \<le> length (outOfOrderMessages r)"
      "handleMessage r m = r\<lparr>rpc := RTop\<rparr>"
proof (cases "MessageType m = OutputStreamData")
  case True
  then have "MessageType m \<noteq> Acknowledge" "MessageType m \<noteq> PausePublication"
    "MessageType m \<noteq> StartPublication"
    by (simp_all add: go_consts)
  with True due queue drop show ?thesis
    by (force simp: handleMessage_def split: if_splits)
next
  case False
  then have "\<exists>pc \<in> {RTop, RReturned (wrap2 ErrRemoteSSMClosedPipe io_ErrClosedPipe)} \<union> range RAckReceived.
      handleMessage r m = r\<lparr>rpc := pc\<rparr>"
    by (auto simp: handleMessage_def split: sum.splits)
  with False idle show ?thesis
    by auto
qed
lemma drainHead_simps [simp]:
  "queued (drainHead r) = queued r"
  "expectedSequenceId (drainHead r) = expectedSequenceId r"
  "running (rpc (drainHead r))"
  "acking (rpc (drainHead r)) = {}" "delivering (rpc (drainHead r)) = {}"
  by (auto simp: drainHead_def running_def queued_def split: option.split)

lemma afterAck_simps [simp]:
  "queued (afterAck r m) = queued r"
  "running (rpc (afterAck r m))"
  "acking (rpc (afterAck r m)) = {}"
  "delivering (rpc (afterAck r m))
     = (if expectedSequenceId r = SequenceNumber m then {SequenceNumber m} else {})"
  by (auto simp: afterAck_def running_def queued_def)

lemma queued_simps [simp]:
  "queued (r\<lparr>rpc := pc\<rparr>) = queued r"
  "queued (delivered_one r) = queued r"
  "queued (drained_one r) = queued r - {expectedSequenceId r}"
  "queued (r\<lparr>outOfOrderMessages := AList.update n m (outOfOrderMessages r)\<rparr>)
     = insert n (queued r)"
  by (simp_all add: queued_def delivered_one_def drained_one_def keys_AList_update keys_AList_delete)

lemma not_stopped_simps [simp]:
  "rpc (drainHead r) \<noteq> RReturned e" "rpc (afterAck r m) \<noteq> RReturned e"
  by (simp_all add: drainHead_def afterAck_def split: option.split)

lemma running_simps [simp]:
  "running RTop" "running RRead" "running (RAckReceived n)" "running (RAck m)"
  "running (RDeliver m)" "running (RDrainAck m)" "running (RDrainDeliver m)"
  "\<not> running (RReturned e)" "\<not> running RPanicked"
  by (simp_all add: running_def)

lemma below_Suc: "below k \<subseteq> below (Suc k)" "sint n = int k \<Longrightarrow> n \<in> below (Suc k)"
  by (auto simp: below_def)

text \<open>What the invariant says at the program points that hand a message over.\<close>

lemma reader_invD:
  assumes "reader_inv ins outs r" and "length (delivered outs) < 2 ^ 63"
  shows "sint (expectedSequenceId r) = int (length (delivered outs))"
    and "rpc r = RDeliver m \<Longrightarrow> sint (SequenceNumber m) = int (length (delivered outs))"
    and "rpc r = RDrainDeliver m \<Longrightarrow>
      SequenceNumber m = expectedSequenceId r \<and> expectedSequenceId r \<in> queued r"
    and "rpc r = RDrainAck m \<Longrightarrow>
      SequenceNumber m = expectedSequenceId r \<and> expectedSequenceId r \<in> queued r"
    and "rpc r = RAck m \<Longrightarrow> SequenceNumber m \<in> below (length (delivered outs))
      \<or> SequenceNumber m = expectedSequenceId r \<or> SequenceNumber m \<in> queued r"
  using assms
  by (force simp: reader_inv_def queue_ok_def Let_def queued_def below_def dest: int64_eq_of_nat)+

lemma ack_safe_step:
  assumes inv: "reader_inv ins outs r" and safe: "ack_safe outs r"
    and step: "reader_step tp (rpc r) e r = Some (r', out)"
    and k: "length (delivered (outs @ out)) < 2 ^ 63"
  shows "ack_safe (outs @ out) r'"
proof -
  have k': "length (delivered outs) < 2 ^ 63"
    using k by simp
  note facts = reader_invD [OF inv k'] and below = below_Suc(1) [of "length (delivered outs)"] below_Suc(2)
  from step show ?thesis
  proof (cases rule: reader_stepE)
    case (read res)
    then show ?thesis
    proof (cases rule: handleRead_cases [of res tp r])
      case (message m)
      with read safe show ?thesis
        by (cases rule: handleMessage_cases [of r m]) (auto simp: ack_safe_def)
    qed (use read safe in \<open>auto simp: ack_safe_def\<close>)
  next
    case (deliver m)
    with safe below facts(2) [of m] show ?thesis
      by (auto simp: ack_safe_def)
  next
    case (drain_deliver m)
    with safe below facts(1) show ?thesis
      by (auto simp: ack_safe_def)
  qed (use safe facts in \<open>auto simp: ack_safe_def\<close>)
qed

lemma ack_complete_step:
  assumes inv: "reader_inv ins outs r" and complete: "ack_complete outs r"
    and step: "reader_step tp (rpc r) e r = Some (r', out)" and e: "\<not> is_cancel e"
    and k: "length (delivered (outs @ out)) < 2 ^ 63"
  shows "ack_complete (outs @ out) r'"
proof -
  have k': "length (delivered outs) < 2 ^ 63"
    using k by simp
  note facts = reader_invD [OF inv k']
  from step show ?thesis
  proof (cases rule: reader_stepE)
    case (read res)
    then show ?thesis
    proof (cases rule: handleRead_cases [of res tp r])
      case (message m)
      with read complete show ?thesis
        by (cases rule: handleMessage_cases [of r m]) (auto simp: ack_complete_def)
    qed (use read complete in \<open>auto simp: ack_complete_def\<close>)
  next
    case (drain_deliver m)
    with complete facts(3) [of m] show ?thesis
      by (auto simp: ack_complete_def)
  qed (use complete e in \<open>auto simp: ack_complete_def is_cancel_def\<close>)
qed

text \<open>A full queue of small numbers holds every number that could still be queued.\<close>

lemma full_queue:
  assumes inv: "reader_inv ins outs r" and k: "length (delivered outs) < 2 ^ 63"
    and pc: "rpc r = RRead"
    and small: "small_numbers ins"
    and full: "maxOutOfOrderMessages \<le> length (outOfOrderMessages r)"
    and n: "sint (expectedSequenceId r) < sint n" "sint n \<le> int maxOutOfOrderMessages"
  shows "n \<in> queued r"
proof -
  let ?K = "sint ` queued r" and ?I = "{1 .. int maxOutOfOrderMessages}"
  have q: "queue_ok ins (length (delivered outs)) r"
    using inv by (simp add: reader_inv_def Let_def)
  have sub: "?K \<subseteq> ?I"
    using q small pc
    by (fastforce simp: queue_ok_def queued_def small_numbers_def draining_def)
  have "card ?K = length (outOfOrderMessages r)"
  proof -
    have "card ?K = card (queued r)"
      by (rule card_image, rule inj_onI, erule signed_word_eqI)
    also have "\<dots> = length (outOfOrderMessages r)"
      using q distinct_card [of "map fst (outOfOrderMessages r)"] by (simp add: queued_def queue_ok_def)
    finally show ?thesis .
  qed
  then have "?K = ?I"
    using full by (intro card_seteq sub) simp_all
  moreover have "sint n \<in> ?I"
    using n reader_invD(1) [OF inv k] by simp
  ultimately have "sint n \<in> ?K"
    by simp
  then obtain n' where n': "n' \<in> queued r" "sint n = sint n'"
    by blast
  from n'(2) have "n = n'"
    by (rule signed_word_eqI)
  with n'(1) show ?thesis
    by simp
qed

lemma small_numbers_append: "small_numbers (ins @ ms) \<Longrightarrow> small_numbers ins"
  by (auto simp: small_numbers_def stream_data_def)

lemma stream_data_snoc:
  "stream_data (ins @ [m]) = stream_data ins \<union> (if MessageType m = OutputStreamData then {m} else {})"
  by (auto simp: stream_data_def)

lemma all_handled_step:
  assumes inv: "reader_inv ins outs r" and all: "all_handled ins outs r"
    and step: "reader_step tp (rpc r) e r = Some (r', out)"
    and k: "length (delivered (outs @ out)) < 2 ^ 63"
  shows "all_handled (ins @ decoded e) (outs @ out) r'"
proof -
  have k': "length (delivered outs) < 2 ^ 63"
    using k by simp
  note facts = reader_invD [OF inv k'] and below = below_Suc(1) [of "length (delivered outs)"] below_Suc(2)
  from step show ?thesis
  proof (cases rule: reader_stepE)
    case (read res)
    then show ?thesis
    proof (cases rule: handleRead_cases [of res tp r])
      case (message m)
      show ?thesis
      proof (cases rule: handleMessage_cases [of r m])
        case drop
        have "SequenceNumber m \<in> queued r" if "small_numbers (ins @ [m])"
          using that drop full_queue [OF inv k' read(1) small_numbers_append [OF that]]
          by (auto simp: small_numbers_def stream_data_def)
        with message read all drop show ?thesis
          by (auto simp: all_handled_def stream_data_snoc dest!: small_numbers_append)
      qed (use message read all in \<open>auto simp: all_handled_def stream_data_snoc dest!: small_numbers_append\<close>)
    qed (use read all in \<open>auto simp: all_handled_def\<close>)
  next
    case (deliver m)
    with all below facts(2) [of m] show ?thesis
      by (auto simp: all_handled_def)
  next
    case (drain_deliver m)
    with all below facts(1) show ?thesis
      by (auto simp: all_handled_def)
  next
    case (ack m now uid)
    with all facts(5) [of m] show ?thesis
      by (auto simp: all_handled_def)
  next
    case (ack_done m cause)
    with all facts(5) [of m] show ?thesis
      by (auto simp: all_handled_def)
  qed (use all in \<open>auto simp: all_handled_def\<close>)
qed

section \<open>The goroutine as a transition system\<close>

text \<open>
  The state of the system is the goroutine with its history: the messages received, the
  outputs, and whether a \<^verbatim>\<open>ctx.Done()\<close> branch has been taken.
\<close>

type_synonym reader_sys = "agent_message list \<times> reader_output list \<times> bool \<times> reader"

inductive reader_trans :: "third_party \<Rightarrow> reader_sys \<Rightarrow> reader_sys \<Rightarrow> bool" for tp where
  "reader_step tp (rpc r) e r = Some (r', out) \<Longrightarrow>
     reader_trans tp (ins, outs, c, r) (ins @ decoded e, outs @ out, c \<or> is_cancel e, r')"

inductive_cases reader_transE [consumes 1, case_names step]: "reader_trans tp (ins, outs, c, r) s'"

definition reader_start :: "reader_sys \<Rightarrow> bool" where
  "reader_start s \<longleftrightarrow> s = ([], [], False, reader_init)"

fun reader_sys_inv :: "reader_sys \<Rightarrow> bool" where
  "reader_sys_inv (ins, outs, c, r) =
     (length (delivered outs) < 2 ^ 63 \<longrightarrow>
       reader_inv ins outs r \<and> ack_safe outs r \<and> all_handled ins outs r
       \<and> (\<not> c \<longrightarrow> ack_complete outs r))"

interpretation rd: inductive_invariant reader_start "reader_trans tp" reader_sys_inv for tp
proof unfold_locales
  fix s assume "reader_start s"
  then show "reader_sys_inv s"
    by (simp add: reader_start_def reader_init_def reader_inv_def queue_ok_def ack_safe_def
        all_handled_def ack_complete_def stream_data_def queued_def)
next
  fix s t assume inv: "reader_sys_inv s" and step: "reader_trans tp s t"
  obtain ins outs c r where s: "s = (ins, outs, c, r)"
    by (cases s)
  from step [unfolded s] show "reader_sys_inv t"
  proof (cases rule: reader_transE)
    case (step e r' out)
    with inv s show ?thesis
      using reader_inv_step [of ins outs r tp e r' out] ack_safe_step [of ins outs r tp e r' out]
        all_handled_step [of ins outs r tp e r' out] ack_complete_step [of ins outs r tp e r' out]
      by auto
  qed
qed

lemma reader_run_trans:
  "reader_run tp es r = Some (r', out) \<Longrightarrow>
     (reader_trans tp)\<^sup>*\<^sup>* (ins, outs, c, r)
       (ins @ received_msgs es, outs @ out, c \<or> list_ex is_cancel es, r')"
proof (induction es arbitrary: r out ins outs c)
  case (Cons e es)
  then obtain r1 out1 out2 where
    step: "reader_step tp (rpc r) e r = Some (r1, out1)"
    and run: "reader_run tp es r1 = Some (r', out2)" "out = out1 @ out2"
    by (auto split: option.splits)
  have "reader_trans tp (ins, outs, c, r) (ins @ decoded e, outs @ out1, c \<or> is_cancel e, r1)"
    using step by (rule reader_trans.intros)
  also note Cons.IH [OF run(1), of "ins @ decoded e" "outs @ out1" "c \<or> is_cancel e"]
  finally (converse_rtranclp_into_rtranclp) show ?case
    by (simp add: received_msgs_def run(2) disj_ac)
qed (simp add: received_msgs_def)

lemma reader_step_delivers: "reader_step tp pc e r = Some (r', out) \<Longrightarrow> length (delivered out) \<le> 1"
  by (cases rule: reader_stepE) auto

lemma reader_run_delivers: "reader_run tp es r = Some (r', out) \<Longrightarrow> length (delivered out) \<le> length es"
proof (induction es arbitrary: r out)
  case (Cons e es)
  then show ?case
    by (fastforce split: option.splits dest: reader_step_delivers)
qed simp

lemma reader_run_inv:
  assumes "reader_run tp es reader_init = Some (r, outs)" and "length es < 2 ^ 63"
  shows "reader_inv (received_msgs es) outs r" "ack_safe outs r"
    "all_handled (received_msgs es) outs r" "\<not> list_ex is_cancel es \<Longrightarrow> ack_complete outs r"
    "length (delivered outs) < 2 ^ 63"
proof -
  have "reader_sys_inv (received_msgs es, outs, list_ex is_cancel es, r)"
    using rd.rtranclp_inv [OF reader_run_trans [OF assms(1), of "[]" "[]" False]]
      rd.inv_init [of "([], [], False, reader_init)"]
    by (simp add: reader_start_def)
  moreover show "length (delivered outs) < 2 ^ 63"
    using reader_run_delivers [OF assms(1)] assms(2) by simp
  ultimately show "reader_inv (received_msgs es) outs r" "ack_safe outs r"
    "all_handled (received_msgs es) outs r" "\<not> list_ex is_cancel es \<Longrightarrow> ack_complete outs r"
    by simp_all
qed
section \<open>The inner loop\<close>

text \<open>
  Reference for lines 517 to 534: hand over the queued messages that follow on directly. The
  result is the rest of the queue, the next expected number and the messages, in order.
\<close>

function catch_up ::
    "(int64 \<times> agent_message) list \<Rightarrow> int64 \<Rightarrow> (int64 \<times> agent_message) list \<times> int64 \<times> agent_message list"
  where
  "catch_up q n =
     (case map_of q n of
        None \<Rightarrow> (q, n, [])
      | Some m \<Rightarrow> (case catch_up (AList.delete n q) (n + 1) of (q', n', ms) \<Rightarrow> (q', n', m # ms)))"
  by pat_completeness auto
termination
  by (relation "measure (\<lambda>(q, n). length q)") (auto simp: length_AList_delete_less)

declare catch_up.simps [simp del]

lemma catch_up_None: "map_of q n = None \<Longrightarrow> catch_up q n = (q, n, [])"
  by (simp add: catch_up.simps [of q n])

lemma catch_up_Some:
  "map_of q n = Some m \<Longrightarrow> catch_up q n =
     (case catch_up (AList.delete n q) (n + 1) of (q', n', ms) \<Rightarrow> (q', n', m # ms))"
  by (simp add: catch_up.simps [of q n])

lemma catch_up_stops: "catch_up q n = (q', n', ms) \<Longrightarrow> map_of q' n' = None \<and> n' = n + of_nat (length ms)"
proof (induction q n arbitrary: ms rule: catch_up.induct)
  case (1 q n)
  show ?case
    using 1(1) 1(2) by (subst (asm) (2) catch_up.simps) (auto split: option.splits prod.splits)
qed

lemma catch_up_length: "catch_up q n = (q', n', ms) \<Longrightarrow> length q' + length ms \<le> length q"
proof (induction q n arbitrary: ms rule: catch_up.induct)
  case (1 q n)
  show ?case
  proof (cases "map_of q n")
    case None
    with 1(2) show ?thesis
      by (simp add: catch_up.simps [of q n])
  next
    case (Some m)
    obtain q1 n1 ms1 where rest: "catch_up (AList.delete n q) (n + 1) = (q1, n1, ms1)"
      by (metis prod_cases3)
    with 1(2) Some have "ms = m # ms1" "q' = q1" "n' = n1"
      by (simp_all add: catch_up.simps [of q n])
    with 1(1) [OF Some, of ms1] rest length_AList_delete_less [OF Some] show ?thesis
      by simp
  qed
qed

text \<open>The answers of a willing environment: every acknowledgement queued, every value accepted.\<close>

definition accept_all :: "(time \<times> bytes) list \<Rightarrow> reader_event list" where
  "accept_all stamps = concat (map (\<lambda>(now, uid). [AckQueued now uid, Accepted]) stamps)"

definition handed_over ::
    "third_party \<Rightarrow> (time \<times> bytes) list \<Rightarrow> agent_message list \<Rightarrow> reader_output list" where
  "handed_over tp stamps ms =
     concat (map2 (\<lambda>(now, uid) m. [ToControl (sendAcknowledgeMessage tp now uid m), ToHandler m])
       stamps ms)"

lemma accept_all_simps [simp]:
  "accept_all [] = []"
  "accept_all ((now, uid) # stamps) = AckQueued now uid # Accepted # accept_all stamps"
  by (simp_all add: accept_all_def)

lemma handed_over_simps [simp]:
  "handed_over tp [] [] = []"
  "handed_over tp ((now, uid) # stamps) (m # ms) =
     ToControl (sendAcknowledgeMessage tp now uid m) # ToHandler m # handed_over tp stamps ms"
  by (simp_all add: handed_over_def)

lemma drain_run:
  assumes "catch_up (outOfOrderMessages r) (expectedSequenceId r) = (q', n', ms)"
    and "length stamps = length ms"
  shows "reader_run tp (accept_all stamps) (drainHead r) =
    Some (\<lparr>rpc = RTop, expectedSequenceId = n', outOfOrderMessages = q'\<rparr>, handed_over tp stamps ms)"
  using assms
proof (induction ms arbitrary: r stamps)
  case Nil
  then have "map_of (outOfOrderMessages r) (expectedSequenceId r) = None"
    by (cases "map_of (outOfOrderMessages r) (expectedSequenceId r)")
      (auto dest: catch_up_Some split: prod.splits)
  with Nil show ?case
    by (simp add: catch_up_None drainHead_def)
next
  case (Cons m ms)
  obtain now uid rest where stamps: "stamps = (now, uid) # rest" "length rest = length ms"
    using Cons.prems(2) by (cases stamps) auto
  have m: "map_of (outOfOrderMessages r) (expectedSequenceId r) = Some m"
    and rest: "catch_up (AList.delete (expectedSequenceId r) (outOfOrderMessages r))
      (expectedSequenceId r + 1) = (q', n', ms)"
    using Cons.prems(1)
    by (auto simp: catch_up.simps [of "outOfOrderMessages r"] split: option.splits prod.splits)
  let ?r = "drained_one (r\<lparr>rpc := RDrainDeliver m\<rparr>)"
  have "reader_run tp (accept_all rest) (drainHead ?r) =
    Some (\<lparr>rpc = RTop, expectedSequenceId = n', outOfOrderMessages = q'\<rparr>, handed_over tp rest ms)"
    by (rule Cons.IH) (use rest stamps in \<open>simp_all add: drained_one_def\<close>)
  moreover have "drainHead r = r\<lparr>rpc := RDrainAck m\<rparr>"
    using m by (simp add: drainHead_def)
  ultimately show ?case
    by (simp add: stamps)
qed

section \<open>Why it stops\<close>

lemma reader_run_crosses:
  "reader_run tp es r0 = Some (r, outs) \<Longrightarrow> P (rpc r) \<Longrightarrow> \<not> P (rpc r0) \<Longrightarrow>
     \<exists>e0 \<in> set es. \<exists>r1 r2 out. reader_step tp (rpc r1) e0 r1 = Some (r2, out) \<and> P (rpc r2)"
proof (induction es arbitrary: r0 outs)
  case (Cons e0 es)
  then obtain r1 out outs' where step: "reader_step tp (rpc r0) e0 r0 = Some (r1, out)"
    "reader_run tp es r1 = Some (r, outs')"
    by (auto split: option.splits)
  show ?case
  proof (cases "P (rpc r1)")
    case True
    with step show ?thesis
      by (metis list.set_intros(1))
  next
    case False
    from Cons.IH [OF step(2) Cons.prems(2) this] show ?thesis
      by (meson list.set_intros(2))
  qed
qed simp

lemma handleRead_stops:
  assumes "rpc (handleRead tp r res) = RReturned e" and "rpc r = RRead"
  obtains (read) err where "res = Inl err" "errors_Is e ErrReadWebsocketMessageFailed"
      "errors_Is e (if IsCloseError tp err [1000, 1001, 1006] then io_EOF else err)"
  | (decode) data err where "res = Inr data"
      "fst (UnmarshalBinary zeroMessage data) = Returns (Some err)"
      "errors_Is e ErrUnmarshalMessageFailed" "errors_Is e err"
  | (closed) m where "m \<in> set (decoded (SocketRead res))" "MessageType m = ChannelClosed"
      "errors_Is e ErrRemoteSSMClosedPipe" "errors_Is e io_ErrClosedPipe"
proof (cases res)
  case (Inl err)
  with assms(1) have "e = wrap2 ErrReadWebsocketMessageFailed
      (if IsCloseError tp err [1000, 1001, 1006]
       then Errorf ''websocket connection is closed: %w'' [io_EOF]
       else Errorf ''failed to read from websocket: %w'' [err])"
    by (auto simp: handleRead_def readMessage_def split: if_splits)
  with read [OF Inl] show ?thesis
    by auto
next
  case (Inr data)
  obtain out m where u: "UnmarshalBinary zeroMessage data = (out, m)"
    by fastforce
  show ?thesis
  proof (cases out)
    case Panics
    with assms(1) Inr u show ?thesis
      by (simp add: handleRead_def readMessage_def)
  next
    case (Returns oe)
    show ?thesis
    proof (cases oe)
      case None
      with assms(1) Inr u Returns have "rpc (handleMessage r m) = RReturned e"
        by (simp add: handleRead_def readMessage_def)
      with assms(2) have "MessageType m = ChannelClosed"
        "e = wrap2 ErrRemoteSSMClosedPipe io_ErrClosedPipe"
        by (auto simp: handleMessage_def split: if_splits sum.splits)
      with closed [of m] Inr u Returns None show ?thesis
        by simp
    next
      case (Some err)
      with assms(1) Inr u Returns have "e = wrap2 ErrUnmarshalMessageFailed err"
        by (simp add: handleRead_def readMessage_def)
      with decode [OF Inr] u Returns Some show ?thesis
        by simp
    qed
  qed
qed

section \<open>A sample run\<close>

text \<open>Two stream messages that arrive in the wrong order.\<close>

definition remote_msg :: "int64 \<Rightarrow> agent_message" where
  "remote_msg n =
     (NewAgentMessage 0 (replicate 16 0))\<lparr>MessageType := OutputStreamData, SequenceNumber := n,
       PayloadType := Output\<rparr>"

definition remote_frame :: "int64 \<Rightarrow> bytes" where
  "remote_frame n = wireBytes (sealed (remote_msg n))"

definition remote_received :: "int64 \<Rightarrow> agent_message" where
  "remote_received n = received (sealed (remote_msg n))"

lemma remote_received_simps [simp]:
  "SequenceNumber (remote_received n) = n" "MessageType (remote_received n) = OutputStreamData"
  by (simp_all add: remote_received_def received_def sealed_def remote_msg_def)

lemma wireType_OutputStreamData: "wireType OutputStreamData"
  by code_simp

lemma Unmarshal_remote_frame [simp]:
  "UnmarshalBinary zeroMessage (remote_frame n) = (Returns None, remote_received n)"
proof -
  let ?m = "remote_msg n"
  have "ValidateMessage (sealed ?m) = None"
    by (simp add: ValidateMessage_def remote_msg_def go_consts IsZero_def NewAgentMessage_def
        zeroMessage_def sealed_def)
  then have "UnmarshalBinary zeroMessage (wireBytes (sealed ?m) @ []) = (Returns None, received (sealed ?m))"
    by (intro UnmarshalBinary_wireBytes)
      (simp_all add: remote_msg_def wireType_OutputStreamData wireDate_def truncateMilli_def
        NewAgentMessage_def zeroMessage_def)
  then show ?thesis
    by (simp add: remote_frame_def remote_received_def)
qed

definition swap_events :: "reader_event list" where
  "swap_events =
     [CtxErr None, SocketRead (Inr (remote_frame 1)), AckQueued 0 [],
      CtxErr None, SocketRead (Inr (remote_frame 0)), AckQueued 0 [],
      Accepted, AckQueued 0 [], Accepted]"

lemma handleMessage_data:
  assumes "MessageType m = OutputStreamData"
  shows "handleMessage r m =
    (if sint (SequenceNumber m) \<le> sint (expectedSequenceId r) then r\<lparr>rpc := RAck m\<rparr>
     else if length (outOfOrderMessages r) < maxOutOfOrderMessages then
       r\<lparr>outOfOrderMessages := AList.update (SequenceNumber m) m (outOfOrderMessages r),
         rpc := RAck m\<rparr>
     else r\<lparr>rpc := RTop\<rparr>)"
  using assms by (simp add: handleMessage_def go_consts)

lemma handleRead_frame [simp]:
  "handleRead tp r (Inr (remote_frame n)) = handleMessage r (remote_received n)"
  by (simp add: handleRead_def readMessage_def)

lemma swap_received [simp]: "received_msgs swap_events = [remote_received 1, remote_received 0]"
  by (simp add: received_msgs_def swap_events_def)

definition sample_tp :: third_party where
  "sample_tp = \<lparr>IsCloseError = \<lambda>e codes. e = ExternalErr (hd codes), uuid_String = \<lambda>_. ''id''\<rparr>"

definition swap_outputs :: "reader_output list" where
  "swap_outputs =
     [ToControl (sendAcknowledgeMessage sample_tp 0 [] (remote_received 1)),
      ToControl (sendAcknowledgeMessage sample_tp 0 [] (remote_received 0)),
      ToHandler (remote_received 0),
      ToControl (sendAcknowledgeMessage sample_tp 0 [] (remote_received 1)),
      ToHandler (remote_received 1)]"

lemma swap_run:
  "reader_run sample_tp swap_events reader_init =
     Some (\<lparr>rpc = RTop, expectedSequenceId = 2, outOfOrderMessages = []\<rparr>, swap_outputs)"
  by (simp add: swap_events_def swap_outputs_def reader_init_def handleMessage_data
      maxOutOfOrderMessages_def afterAck_def drainHead_def delivered_one_def drained_one_def)

section \<open>Properties\<close>

text \<open>C3: The handler gets the remote's output in order, each message once. In every run of
  the receiving goroutine, whatever the socket delivers and in whatever order, with duplicates,
  gaps and cancellation, the messages put on \<^verbatim>\<open>incomingDataMessages\<close> carry the sequence numbers
  0, 1, 2, ... without a gap or a repetition, each of them is an output message that was
  received, and the next number is \<^verbatim>\<open>expectedSequenceId\<close>. Hence if the remote sends message
  \<open>f i\<close> under number \<open>i\<close>, what is delivered is \<open>f 0, f 1, ...\<close>. (The bound is that of the
  int64 counter.)\<close>

theorem reader_delivers_in_order:
  assumes "reader_run tp es reader_init = Some (r, outs)" and "length es < 2 ^ 63"
  shows "map (\<lambda>m. sint (SequenceNumber m)) (delivered outs) = map int [0..<length (delivered outs)]
    \<and> set (delivered outs) \<subseteq> stream_data (received_msgs es)
    \<and> sint (expectedSequenceId r) = int (length (delivered outs))
    \<and> ((\<forall>m \<in> stream_data (received_msgs es). 0 \<le> sint (SequenceNumber m) \<longrightarrow>
          m = f (nat (sint (SequenceNumber m)))) \<longrightarrow>
        delivered outs = map f [0..<length (delivered outs)])"
proof -
  note inv = reader_run_inv [OF assms]
  let ?ds = "delivered outs"
  have seqs: "map SequenceNumber ?ds = map of_nat [0..<length ?ds]"
    and sub: "set ?ds \<subseteq> stream_data (received_msgs es)"
    using inv(1) by (simp_all add: reader_inv_def Let_def)
  have "map sint (map SequenceNumber ?ds) = map int [0..<length ?ds]"
    unfolding seqs using inv(5) by simp
  then have ints: "map (\<lambda>m. sint (SequenceNumber m)) ?ds = map int [0..<length ?ds]"
    by (simp add: comp_def)
  have "?ds ! i = f i"
    if "\<forall>m \<in> stream_data (received_msgs es). 0 \<le> sint (SequenceNumber m) \<longrightarrow>
      m = f (nat (sint (SequenceNumber m)))" and "i < length ?ds" for i
  proof -
    have "sint (SequenceNumber (?ds ! i)) = int i"
      using arg_cong [OF ints, of "\<lambda>xs. xs ! i"] that(2) by simp
    moreover have "?ds ! i \<in> stream_data (received_msgs es)"
      using sub that(2) by auto
    ultimately show ?thesis
      using that(1) by (metis nat_int of_nat_0_le_iff)
  qed
  then show ?thesis
    using ints sub reader_invD(1) [OF inv(1,5)] by (auto intro: nth_equalityI)
qed

theorem reader_delivers_in_order_witness:
  "delivered swap_outputs = map (\<lambda>i. remote_received (of_nat i)) [0..<2]"
proof -
  have "length swap_events < 2 ^ 63"
    by (simp add: swap_events_def)
  from reader_delivers_in_order [OF swap_run this, of "\<lambda>i. remote_received (of_nat i)"]
  show ?thesis
    by (simp add: stream_data_def swap_outputs_def upt_rec)
qed

text \<open>C7: Acknowledged means delivered or kept. Whenever the goroutine is back at its loop head,
  every non-negative number it has acknowledged has been delivered or is in the queue; if no
  acknowledgement was given up for \<^verbatim>\<open>ctx.Done()\<close>, the acknowledged numbers are exactly those, so
  a message dropped for a full queue is not acknowledged and the remote sends it again. The
  queue holds at most 50 messages, under distinct numbers, all beyond the expected one.\<close>

theorem reader_acks_exact:
  assumes "reader_run tp es reader_init = Some (r, outs)" and "length es < 2 ^ 63"
    and "rpc r = RTop"
  shows "(\<forall>n \<in> set (acked outs). 0 \<le> sint n \<longrightarrow>
        n \<in> SequenceNumber ` set (delivered outs) \<union> fst ` set (outOfOrderMessages r))
    \<and> (\<not> list_ex is_cancel es \<longrightarrow>
        {n \<in> set (acked outs). 0 \<le> sint n}
          = SequenceNumber ` set (delivered outs) \<union> fst ` set (outOfOrderMessages r))
    \<and> distinct (map fst (outOfOrderMessages r)) \<and> length (outOfOrderMessages r) \<le> 50
    \<and> (\<forall>(n, m) \<in> set (outOfOrderMessages r).
        SequenceNumber m = n \<and> sint (expectedSequenceId r) < sint n)"
proof -
  note inv = reader_run_inv [OF assms(1,2)]
  let ?k = "length (delivered outs)"
  note exp = reader_invD(1) [OF inv(1,5)]
  have "map SequenceNumber (delivered outs) = map of_nat [0..<?k]"
    using inv(1) unfolding reader_inv_def Let_def by blast
  from arg_cong [OF this, of set]
  have seqs: "SequenceNumber ` set (delivered outs) = of_nat ` {0..<?k}"
    by (simp only: set_map set_upt)
  have q: "queue_ok (received_msgs es) ?k r"
    using inv(1) by (simp add: reader_inv_def Let_def)
  have low: "n \<in> of_nat ` {0..<?k}" if "0 \<le> sint n" "sint n < int ?k" for n :: int64
    using that int64_eq_of_nat [of n "nat (sint n)"] by (intro image_eqI [of _ _ "nat (sint n)"]) auto
  have sound: "n \<in> SequenceNumber ` set (delivered outs) \<union> queued r"
    if "n \<in> set (acked outs)" "0 \<le> sint n" for n
    using that inv(2) assms(3) low seqs by (auto simp: ack_safe_def below_def)
  have nonneg: "0 \<le> sint n" if "n \<in> SequenceNumber ` set (delivered outs) \<union> queued r" for n
  proof (cases "n \<in> queued r")
    case True
    with q show ?thesis
      by (fastforce simp: queue_ok_def queued_def)
  next
    case False
    with that obtain i where "n = of_nat i" "i < ?k"
      unfolding seqs by auto
    with inv(5) show ?thesis
      by simp
  qed
  have exact: "{n \<in> set (acked outs). 0 \<le> sint n} = SequenceNumber ` set (delivered outs) \<union> queued r"
    if "\<not> list_ex is_cancel es"
  proof (rule equalityI)
    show "{n \<in> set (acked outs). 0 \<le> sint n} \<subseteq> SequenceNumber ` set (delivered outs) \<union> queued r"
      using sound by blast
    show "SequenceNumber ` set (delivered outs) \<union> queued r \<subseteq> {n \<in> set (acked outs). 0 \<le> sint n}"
      using inv(4) [OF that] assms(3) nonneg unfolding ack_complete_def by auto
  qed
  have queue: "distinct (map fst (outOfOrderMessages r)) \<and> length (outOfOrderMessages r) \<le> 50
      \<and> (\<forall>(n, m) \<in> set (outOfOrderMessages r).
          SequenceNumber m = n \<and> sint (expectedSequenceId r) < sint n)"
    using q assms(3) unfolding exp queue_ok_def by (auto simp: maxOutOfOrderMessages_def draining_def)
  show ?thesis
    using sound exact queue unfolding queued_def by blast
qed

theorem reader_acks_exact_witness:
  "{n \<in> set (acked swap_outputs). 0 \<le> sint n} = SequenceNumber ` set (delivered swap_outputs)"
proof -
  have "length swap_events < 2 ^ 63" "\<not> list_ex is_cancel swap_events"
    by (simp_all add: swap_events_def is_cancel_def)
  with reader_acks_exact [OF swap_run this(1)] show ?thesis
    by simp
qed

text \<open>C29: Reordering and repetition are repaired. If the goroutine has received the numbers 0 to
  \<open>n - 1\<close>, in any order and any number of times, no number beyond 50, and is back at its loop
  head, it has delivered all of them, whatever was acknowledged meanwhile.\<close>

theorem reader_delivers_all:
  assumes "reader_run tp es reader_init = Some (r, outs)" and "length es < 2 ^ 63"
    and "rpc r = RTop"
    and "\<forall>m \<in> stream_data (received_msgs es). sint (SequenceNumber m) \<le> 50"
    and "\<forall>i < n. \<exists>m \<in> stream_data (received_msgs es). sint (SequenceNumber m) = int i"
  shows "n \<le> length (delivered outs)"
proof (rule ccontr)
  note inv = reader_run_inv [OF assms(1,2)]
  let ?k = "length (delivered outs)"
  assume "\<not> n \<le> ?k"
  with assms(5) obtain m where m: "m \<in> stream_data (received_msgs es)" "sint (SequenceNumber m) = int ?k"
    by (meson not_le)
  have "SequenceNumber m \<in> below ?k \<union> queued r"
    using inv(3) assms(3,4) m(1) by (auto simp: all_handled_def small_numbers_def maxOutOfOrderMessages_def)
  moreover have "int ?k < sint x" if "x \<in> queued r" for x
    using that inv(1) assms(3)
    by (auto simp: reader_inv_def Let_def queue_ok_def queued_def draining_def)
  ultimately show False
    using m(2) by (fastforce simp: below_def)
qed

theorem reader_delivers_all_witness: "2 \<le> length (delivered swap_outputs)"
proof (rule reader_delivers_all [OF swap_run])
  show "\<forall>i < 2. \<exists>m \<in> stream_data (received_msgs swap_events). sint (SequenceNumber m) = int i"
    by (auto simp: stream_data_def less_2_cases_iff)
qed (auto simp: stream_data_def, simp add: swap_events_def)

text \<open>C30: The expected message releases all that waited for it, and the inner loop ends. If the
  message with the expected number arrives and the environment accepts what is sent, the
  goroutine acknowledges and delivers it, then acknowledges and delivers exactly the queued
  messages that follow on without a gap, and is back at its loop head after two steps for each,
  at most as many as were queued, with the next expected number not in the queue. This is the
  function \<open>catch_up\<close>.\<close>

theorem reader_catches_up:
  assumes "rpc r = RRead"
    and "UnmarshalBinary zeroMessage data = (Returns None, msg)"
    and "MessageType msg = OutputStreamData" and "SequenceNumber msg = expectedSequenceId r"
    and "catch_up (outOfOrderMessages r) (expectedSequenceId r + 1) = (q', n', ms)"
    and "length stamps = length ms"
  shows "reader_run tp (SocketRead (Inr data) # AckQueued now uid # Accepted # accept_all stamps) r =
      Some (\<lparr>rpc = RTop, expectedSequenceId = n', outOfOrderMessages = q'\<rparr>,
        ToControl (sendAcknowledgeMessage tp now uid msg) # ToHandler msg # handed_over tp stamps ms)
    \<and> n' = expectedSequenceId r + 1 + of_nat (length ms) \<and> map_of q' n' = None
    \<and> length q' + length ms \<le> length (outOfOrderMessages r)"
proof -
  let ?r = "r\<lparr>rpc := RDeliver msg, expectedSequenceId := expectedSequenceId r + 1\<rparr>"
  have "reader_run tp (accept_all stamps) (drainHead ?r) =
      Some (\<lparr>rpc = RTop, expectedSequenceId = n', outOfOrderMessages = q'\<rparr>, handed_over tp stamps ms)"
    by (rule drain_run) (use assms in simp_all)
  then have "reader_run tp (SocketRead (Inr data) # AckQueued now uid # Accepted # accept_all stamps) r =
      Some (\<lparr>rpc = RTop, expectedSequenceId = n', outOfOrderMessages = q'\<rparr>,
        ToControl (sendAcknowledgeMessage tp now uid msg) # ToHandler msg # handed_over tp stamps ms)"
    using assms
    by (simp add: handleRead_def readMessage_def handleMessage_data afterAck_def delivered_one_def)
  then show ?thesis
    using catch_up_stops [OF assms(5)] catch_up_length [OF assms(5)] by blast
qed

theorem reader_catches_up_witness:
  "reader_run sample_tp [SocketRead (Inr (remote_frame 0)), AckQueued 0 [], Accepted, AckQueued 0 [], Accepted]
     \<lparr>rpc = RRead, expectedSequenceId = 0, outOfOrderMessages = [(1, remote_received 1)]\<rparr>
   = Some (\<lparr>rpc = RTop, expectedSequenceId = 2, outOfOrderMessages = []\<rparr>,
       [ToControl (sendAcknowledgeMessage sample_tp 0 [] (remote_received 0)), ToHandler (remote_received 0),
        ToControl (sendAcknowledgeMessage sample_tp 0 [] (remote_received 1)), ToHandler (remote_received 1)])"
  using reader_catches_up [of "\<lparr>rpc = RRead, expectedSequenceId = 0, outOfOrderMessages = [(1, remote_received 1)]\<rparr>"
      "remote_frame 0" "remote_received 0" "[]" 2 "[remote_received 1]" "[(0, [])]" sample_tp 0 "[]"]
  by (simp add: catch_up.simps)

text \<open>The receiving goroutine stops only for a reason. If it has returned an error, then
  \<^verbatim>\<open>ctx.Err()\<close> or \<^verbatim>\<open>ctx.Done()\<close> gave it; or the socket failed, and the error is an
  \<^verbatim>\<open>ErrReadWebsocketMessageFailed\<close> that is also \<^verbatim>\<open>io.EOF\<close> for the close codes 1000, 1001 and 1006
  and wraps the socket's error otherwise; or a frame was not a valid message
  (\<^verbatim>\<open>ErrUnmarshalMessageFailed\<close>); or a \<^verbatim>\<open>channel_closed\<close> message arrived, and it is both
  \<^verbatim>\<open>ErrRemoteSSMClosedPipe\<close> and \<^verbatim>\<open>io.ErrClosedPipe\<close>. Malformed acknowledgements, unknown
  types and acknowledgements that cannot be sent do not stop it.\<close>

theorem reader_stops_for_a_reason:
  assumes "reader_run tp es reader_init = Some (r, outs)" and "rpc r = RReturned e"
  shows "CtxErr (Some e) \<in> set es \<or> CtxDone e \<in> set es
    \<or> (\<exists>err. SocketRead (Inl err) \<in> set es \<and> errors_Is e ErrReadWebsocketMessageFailed
        \<and> errors_Is e (if IsCloseError tp err [1000, 1001, 1006] then io_EOF else err))
    \<or> (\<exists>data err. SocketRead (Inr data) \<in> set es \<and> errors_Is e ErrUnmarshalMessageFailed
        \<and> fst (UnmarshalBinary zeroMessage data) = Returns (Some err) \<and> errors_Is e err)
    \<or> (\<exists>m \<in> set (received_msgs es). MessageType m = ChannelClosed
        \<and> errors_Is e ErrRemoteSSMClosedPipe \<and> errors_Is e io_ErrClosedPipe)"
proof -
  obtain e0 r1 r2 out where e0: "e0 \<in> set es" "reader_step tp (rpc r1) e0 r1 = Some (r2, out)"
    "rpc r2 = RReturned e"
    using reader_run_crosses [OF assms(1), of "\<lambda>pc. pc = RReturned e"] assms(2)
    by (auto simp: reader_init_def)
  have decoded: "m \<in> set (received_msgs es)" if "m \<in> set (decoded e0)" for m
    using that e0(1) by (auto simp: received_msgs_def)
  from e0(2) show ?thesis
  proof (cases rule: reader_stepE)
    case (read res)
    with e0(3) have stop: "rpc (handleRead tp r1 res) = RReturned e"
      by simp
    show ?thesis
      by (rule handleRead_stops [OF stop read(1)]) (use e0(1) read decoded in \<open>auto 0 3\<close>)
  qed (use e0 in auto)
qed

theorem reader_stops_for_a_reason_witness:
  "errors_Is (wrap2 ErrReadWebsocketMessageFailed (Errorf ''websocket connection is closed: %w'' [io_EOF])) io_EOF"
proof -
  have "reader_run sample_tp [CtxErr None, SocketRead (Inl (ExternalErr 1000))] reader_init =
      Some (\<lparr>rpc = RReturned (wrap2 ErrReadWebsocketMessageFailed
          (Errorf ''websocket connection is closed: %w'' [io_EOF])), expectedSequenceId = 0,
        outOfOrderMessages = []\<rparr>, [])"
    by (simp add: reader_init_def handleRead_def readMessage_def sample_tp_def)
  from reader_stops_for_a_reason [OF this] show ?thesis
    by (simp add: received_msgs_def)
qed

text \<open>The remote can crash the whole process. A frame of 120 bytes whose length field is all
  ones makes the receiving goroutine panic (a slice bounds panic in \<^verbatim>\<open>UnmarshalBinary\<close>, that
  nothing recovers), whatever the other bytes are and before any validation.\<close>

lemma reader_panics:
  assumes "length hdr = 112" and "rpc r = RTop"
  shows "\<exists>r'. reader_run tp
      [CtxErr None, SocketRead (Inr (PutUint32 116 @ hdr @ PutUint32 0xFFFFFFFF))] r = Some (r', [])
    \<and> rpc r' = RPanicked"
proof -
  from UnmarshalBinary_panic_message [OF assms(1), of zeroMessage] show ?thesis
    using assms(2)
    by (cases "UnmarshalBinary zeroMessage (PutUint32 116 @ hdr @ PutUint32 0xFFFFFFFF)")
      (simp add: handleRead_def readMessage_def)
qed

end
