(* ===== verification/Session_Writer.thy ===== *)
theory Session_Writer
  imports Message_Payloads Go_Map
begin

text \<open>
  The sending goroutine of a session: \<^verbatim>\<open>handleOutgoingMessages\<close> and \<^verbatim>\<open>writeMessage\<close> of
  \<^verbatim>\<open>session.go\<close>. It is one \<^verbatim>\<open>select\<close> loop, so a step is one iteration, and the event of the
  step is the branch taken: an acknowledgement number, a control message, a data message, the
  throttle timer, the resend ticker, or \<^verbatim>\<open>ctx.Done()\<close>.

  Data messages are pointers: the goroutine numbers the message it was given in place, encodes
  it in place, and keeps the pointer for retransmission. The messages therefore live in a
  \<open>heap\<close>, and what \<^verbatim>\<open>Session.Write\<close> was given is an address. A control message is a fresh
  one that nobody else holds, and is passed by value.

  The map of unacknowledged messages is an association list with distinct keys; Go iterates
  over a map in any order, so the order of an iteration is part of the tick event. What
  \<^verbatim>\<open>socket.WriteMessage\<close> returns is a function of the event.
\<close>

section \<open>State\<close>

definition maxInflightMessages :: nat where [go_consts]: "maxInflightMessages = 10"
definition resendIntervalDuration :: time where [go_consts]: "resendIntervalDuration = 1 * 10 ^ 9"
definition resendTimeoutDuration :: time where [go_consts]: "resendTimeoutDuration = 60 * 10 ^ 9"

type_synonym addr = nat
type_synonym heap = "addr \<Rightarrow> agent_message"

record unacknowledgedMessage =
  umessage :: addr
  firstSendTime :: time
  lastSendTime :: time

record writer =
  wreturned :: "go_error option" \<comment> \<open>the error it has returned; \<^term>\<open>None\<close> while it runs\<close>
  nextOutgoingSequenceNumber :: int64
  unacknowledgedMessages :: "(int64 \<times> unacknowledgedMessage) list"
  writeThrottled :: bool

definition writer_init :: writer where
  "writer_init =
     \<lparr>wreturned = None, nextOutgoingSequenceNumber = 0, unacknowledgedMessages = [],
      writeThrottled = False\<rparr>"

type_synonym socket = "bytes \<Rightarrow> go_error option"

datatype writer_event =
    WAck int64
  | WControl agent_message socket
  | WMessage addr time time socket         \<comment> \<open>with the two readings of the clock\<close>
  | WThrottle
  | WTick time "int64 list" socket         \<comment> \<open>with the order of the iteration\<close>
  | WDone go_error                         \<comment> \<open>with \<^verbatim>\<open>context.Cause(ctx)\<close>\<close>

text \<open>The frames given to the socket, with the reason they were sent.\<close>

datatype writer_output =
    SentControl bytes
  | SentData int64 bytes
  | Resent int64 bytes

section \<open>Operations\<close>

text \<open>\<^verbatim>\<open>writeMessage\<close>: the message as encoding leaves it, the frame written, the error.\<close>

definition writeMessage :: "agent_message \<Rightarrow> socket \<Rightarrow> agent_message \<times> bytes list \<times> go_error option" where
  "writeMessage msg socket =
     (case MarshalBinary msg of
        (Inl err, msg) \<Rightarrow> (msg, [], Some (Errorf ''failed to marshal outgoing message: %w'' [err]))
      | (Inr data, msg) \<Rightarrow>
          (case socket data of
             Some err \<Rightarrow> (msg, [data], Some (Errorf ''failed to send outgoing message: %w'' [err]))
           | None \<Rightarrow> (msg, [data], None)))"

text \<open>The branches of the \<^verbatim>\<open>select\<close>. The errors of \<^verbatim>\<open>writeMessage\<close> are only logged.\<close>

definition onAck :: "int64 \<Rightarrow> writer \<Rightarrow> writer" where
  "onAck seqNumber w =
     (if map_of (unacknowledgedMessages w) seqNumber \<noteq> None then
        w\<lparr>unacknowledgedMessages := AList.delete seqNumber (unacknowledgedMessages w)\<rparr>
      else w)"

definition onMessage ::
    "addr \<Rightarrow> time \<Rightarrow> time \<Rightarrow> socket \<Rightarrow> heap \<times> writer \<Rightarrow> (heap \<times> writer) \<times> writer_output list" where
  "onMessage message now1 now2 socket hw =
     (case hw of (h, w) \<Rightarrow>
       let n = nextOutgoingSequenceNumber w;
           msg = (h message)\<lparr>SequenceNumber := n\<rparr>;
           w = w\<lparr>unacknowledgedMessages := AList.update n
                 \<lparr>umessage = message, firstSendTime = now1, lastSendTime = now2\<rparr>
                 (unacknowledgedMessages w)\<rparr>;
           msg = (if SequenceNumber msg = 0 \<and> Flags msg \<noteq> Fin then msg\<lparr>Flags := Syn\<rparr> else msg);
           (msg, sent, err) = writeMessage msg socket
       in ((h(message := msg),
            w\<lparr>nextOutgoingSequenceNumber := nextOutgoingSequenceNumber w + 1,
              writeThrottled := True\<rparr>),
           map (SentData n) sent))"

text \<open>Lines 409 to 428: the loop of the ticker over the map, in the given order.\<close>

fun resendLoop ::
    "time \<Rightarrow> socket \<Rightarrow> int64 list \<Rightarrow> heap \<Rightarrow> (int64 \<times> unacknowledgedMessage) list
      \<Rightarrow> heap \<times> (int64 \<times> unacknowledgedMessage) list \<times> writer_output list \<times> go_error option" where
  "resendLoop currentTime socket [] h unacks = (h, unacks, [], None)"
| "resendLoop currentTime socket (seq # seqs) h unacks =
     (case map_of unacks seq of
        None \<Rightarrow> resendLoop currentTime socket seqs h unacks
      | Some unack \<Rightarrow>
          if currentTime - firstSendTime unack > resendTimeoutDuration then
            (h, unacks, [], Some ErrAckTimeout)
          else if currentTime - lastSendTime unack > resendIntervalDuration then
            let (msg, sent, err) = writeMessage (h (umessage unack)) socket;
                (h, unacks, out, res) =
                  resendLoop currentTime socket seqs (h(umessage unack := msg))
                    (AList.update seq (unack\<lparr>lastSendTime := currentTime\<rparr>) unacks)
            in (h, unacks, map (Resent seq) sent @ out, res)
          else resendLoop currentTime socket seqs h unacks)"

definition onTick ::
    "time \<Rightarrow> int64 list \<Rightarrow> socket \<Rightarrow> heap \<times> writer \<Rightarrow> (heap \<times> writer) \<times> writer_output list" where
  "onTick currentTime order socket hw =
     (case hw of (h, w) \<Rightarrow>
       let (h, unacks, out, res) = resendLoop currentTime socket order h (unacknowledgedMessages w)
       in ((h, w\<lparr>unacknowledgedMessages := unacks, wreturned := res\<rparr>), out))"

text \<open>
  When a branch can be taken: data messages only below the in-flight limit and not while
  throttled (lines 344 to 349), the timer only while throttled, and an iteration visits each
  key once.
\<close>

definition writer_enabled :: "writer_event \<Rightarrow> writer \<Rightarrow> bool" where
  "writer_enabled e w \<longleftrightarrow>
     wreturned w = None
     \<and> (case e of
          WMessage _ _ _ _ \<Rightarrow>
            length (unacknowledgedMessages w) < maxInflightMessages \<and> \<not> writeThrottled w
        | WThrottle \<Rightarrow> writeThrottled w
        | WTick _ order _ \<Rightarrow>
            distinct order \<and> set order = set (map fst (unacknowledgedMessages w))
        | _ \<Rightarrow> True)"

definition writer_step ::
    "writer_event \<Rightarrow> heap \<times> writer \<Rightarrow> ((heap \<times> writer) \<times> writer_output list) option" where
  "writer_step e hw =
     (if writer_enabled e (snd hw) then
        Some (case e of
          WAck seqNumber \<Rightarrow> ((fst hw, onAck seqNumber (snd hw)), [])
        | WControl controlMessage socket \<Rightarrow>
            (hw, map SentControl (fst (snd (writeMessage controlMessage socket))))
        | WMessage message now1 now2 socket \<Rightarrow> onMessage message now1 now2 socket hw
        | WThrottle \<Rightarrow> ((fst hw, (snd hw)\<lparr>writeThrottled := False\<rparr>), [])
        | WTick currentTime order socket \<Rightarrow> onTick currentTime order socket hw
        | WDone cause \<Rightarrow> ((fst hw, (snd hw)\<lparr>wreturned := Some cause\<rparr>), []))
      else None)"

fun writer_run ::
    "writer_event list \<Rightarrow> heap \<times> writer \<Rightarrow> ((heap \<times> writer) \<times> writer_output list) option" where
  "writer_run [] hw = Some (hw, [])"
| "writer_run (e # es) hw =
     (case writer_step e hw of
        None \<Rightarrow> None
      | Some (hw', out) \<Rightarrow>
          map_option (\<lambda>(hw'', outs). (hw'', out @ outs)) (writer_run es hw'))"

section \<open>Frames and histories\<close>

definition frames :: "agent_message \<Rightarrow> bytes list" where
  "frames m = (case fst (MarshalBinary m) of Inr data \<Rightarrow> [data] | Inl _ \<Rightarrow> [])"

text \<open>The message as the goroutine sends it under the number \<open>n\<close>.\<close>

definition numbered :: "int64 \<Rightarrow> agent_message \<Rightarrow> agent_message" where
  "numbered n m =
     m\<lparr>SequenceNumber := n, Flags := (if n = 0 \<and> Flags m \<noteq> Fin then Syn else Flags m)\<rparr>"

fun dequeued :: "writer_event list \<Rightarrow> addr list" where
  "dequeued [] = []"
| "dequeued (WMessage a t t' s # es) = a # dequeued es"
| "dequeued (_ # es) = dequeued es"

fun data_frames :: "writer_output list \<Rightarrow> (int64 \<times> bytes) list" where
  "data_frames [] = []"
| "data_frames (SentData n bs # outs) = (n, bs) # data_frames outs"
| "data_frames (_ # outs) = data_frames outs"

fun resent_frames :: "writer_output list \<Rightarrow> (int64 \<times> bytes) list" where
  "resent_frames [] = []"
| "resent_frames (Resent n bs # outs) = (n, bs) # resent_frames outs"
| "resent_frames (_ # outs) = resent_frames outs"

lemma dequeued_append [simp]: "dequeued (xs @ ys) = dequeued xs @ dequeued ys"
  by (induction xs rule: dequeued.induct) simp_all

lemma data_frames_append [simp]: "data_frames (xs @ ys) = data_frames xs @ data_frames ys"
  by (induction xs rule: data_frames.induct) simp_all

lemma resent_frames_append [simp]: "resent_frames (xs @ ys) = resent_frames xs @ resent_frames ys"
  by (induction xs rule: resent_frames.induct) simp_all

lemma frame_maps [simp]:
  "data_frames (map (SentData n) bss) = map (Pair n) bss" "data_frames (map (Resent n) bss) = []"
  "data_frames (map SentControl bss) = []" "resent_frames (map (SentData n) bss) = []"
  "resent_frames (map (Resent n) bss) = map (Pair n) bss"
  "resent_frames (map SentControl bss) = []"
  by (induction bss) simp_all

subsection \<open>Encoding twice\<close>

lemma sealed_sealed [simp]: "sealed (sealed m) = sealed m"
  by (simp add: sealed_def)

lemma MarshalBinary_of_sealed: "MarshalBinary (sealed m) = MarshalBinary m"
  by (simp add: MarshalBinary_sealed split: option.split)

lemma frames_sealed [simp]: "frames (sealed m) = frames m"
  by (simp add: frames_def MarshalBinary_of_sealed)

lemma writeMessage_simps [simp]:
  "fst (writeMessage m s) = sealed m" "fst (snd (writeMessage m s)) = frames m"
  by (simp_all add: writeMessage_def frames_def MarshalBinary_sealed split: option.split)

lemma writeMessage_eq: "writeMessage m s = (sealed m, frames m, snd (snd (writeMessage m s)))"
  by (simp add: prod_eq_iff)

subsection \<open>The branches\<close>

lemma onMessage_eq:
  "onMessage a t t' s (h, w) =
     ((h(a := sealed (numbered (nextOutgoingSequenceNumber w) (h a))),
       w\<lparr>unacknowledgedMessages := AList.update (nextOutgoingSequenceNumber w)
           \<lparr>umessage = a, firstSendTime = t, lastSendTime = t'\<rparr> (unacknowledgedMessages w),
         nextOutgoingSequenceNumber := nextOutgoingSequenceNumber w + 1, writeThrottled := True\<rparr>),
      map (SentData (nextOutgoingSequenceNumber w))
        (frames (numbered (nextOutgoingSequenceNumber w) (h a))))"
  by (simp add: onMessage_def numbered_def Let_def split_def)

lemma resendLoop_Some:
  assumes "map_of un seq = Some u"
  shows "resendLoop now s (seq # order) h un =
    (if now - firstSendTime u > resendTimeoutDuration then (h, un, [], Some ErrAckTimeout)
     else if now - lastSendTime u > resendIntervalDuration then
       (case resendLoop now s order (h(umessage u := sealed (h (umessage u))))
          (AList.update seq (u\<lparr>lastSendTime := now\<rparr>) un) of
          (h', un', out, res) \<Rightarrow> (h', un', map (Resent seq) (frames (h (umessage u))) @ out, res))
     else resendLoop now s order h un)"
  using assms by (simp add: Let_def split_def)

lemma resendLoop_None:
  "map_of un seq = None \<Longrightarrow> resendLoop now s (seq # order) h un = resendLoop now s order h un"
  by simp

text \<open>Computation of the loop, one key at a time: unknown, timed out, due, or not due.\<close>

lemma resendLoop_induct [consumes 1, case_names finished unknown timeout due wait]:
  assumes run: "resendLoop now s order h un = (h', un', out, res)"
    and "\<And>h un. P [] h un h un [] None"
    and "\<And>seq order h un h' un' out res. map_of un seq = None \<Longrightarrow>
      resendLoop now s order h un = (h', un', out, res) \<Longrightarrow>
      P order h un h' un' out res \<Longrightarrow> P (seq # order) h un h' un' out res"
    and "\<And>seq order h un u. map_of un seq = Some u \<Longrightarrow>
      now - firstSendTime u > resendTimeoutDuration \<Longrightarrow>
      P (seq # order) h un h un [] (Some ErrAckTimeout)"
    and "\<And>seq order h un u h' un' out res. map_of un seq = Some u \<Longrightarrow>
      \<not> now - firstSendTime u > resendTimeoutDuration \<Longrightarrow>
      now - lastSendTime u > resendIntervalDuration \<Longrightarrow>
      resendLoop now s order (h(umessage u := sealed (h (umessage u))))
        (AList.update seq (u\<lparr>lastSendTime := now\<rparr>) un) = (h', un', out, res) \<Longrightarrow>
      P order (h(umessage u := sealed (h (umessage u))))
        (AList.update seq (u\<lparr>lastSendTime := now\<rparr>) un) h' un' out res \<Longrightarrow>
      P (seq # order) h un h' un' (map (Resent seq) (frames (h (umessage u))) @ out) res"
    and "\<And>seq order h un u h' un' out res. map_of un seq = Some u \<Longrightarrow>
      \<not> now - firstSendTime u > resendTimeoutDuration \<Longrightarrow>
      \<not> now - lastSendTime u > resendIntervalDuration \<Longrightarrow>
      resendLoop now s order h un = (h', un', out, res) \<Longrightarrow>
      P order h un h' un' out res \<Longrightarrow> P (seq # order) h un h' un' out res"
  shows "P order h un h' un' out res"
  using run
proof (induction order arbitrary: h un h' un' out res)
  case (Cons seq order)
  show ?case
  proof (cases "map_of un seq")
    case None
    with Cons assms(3) show ?thesis
      by simp
  next
    case (Some u)
    with Cons assms(4-6) show ?thesis
      by (auto simp: resendLoop_Some simp del: resendLoop.simps(2) split: if_splits prod.splits)
  qed
qed (use assms(2) in simp)

lemma resendLoop_keys:
  "resendLoop now s order h un = (h', un', out, res) \<Longrightarrow> map fst un' = map fst un"
  by (induction rule: resendLoop_induct)
    (auto simp: update_keys dest: map_of_SomeD intro: rev_image_eqI)

lemma resendLoop_entries:
  "resendLoop now s order h un = (h', un', out, res) \<Longrightarrow>
     map_option (\<lambda>u. (umessage u, firstSendTime u)) (map_of un' n)
       = map_option (\<lambda>u. (umessage u, firstSendTime u)) (map_of un n)"
  by (induction rule: resendLoop_induct) (auto simp: update_conv')

text \<open>Resending does not change messages that have already been encoded.\<close>

lemma resendLoop_heap:
  "resendLoop now s order h un = (h', un', out, res) \<Longrightarrow>
     (\<And>n u. map_of un n = Some u \<Longrightarrow> sealed (h (umessage u)) = h (umessage u)) \<Longrightarrow> h' = h"
proof (induction rule: resendLoop_induct)
  case (due seq order h un u h' un' out res)
  have same: "h(umessage u := sealed (h (umessage u))) = h"
    using due.prems [OF due.hyps(1)] by simp
  show ?case
    using due.IH due.prems due.hyps(1) unfolding same by (fastforce simp: update_conv' split: if_splits)
qed auto

lemma resendLoop_out:
  "resendLoop now s order h un = (h', un', out, res) \<Longrightarrow>
     (\<And>n u. map_of un n = Some u \<Longrightarrow> sealed (h (umessage u)) = h (umessage u)) \<Longrightarrow>
     data_frames out = [] \<and>
     (\<forall>(n, bs) \<in> set (resent_frames out). \<exists>u. map_of un n = Some u \<and> bs \<in> set (frames (h (umessage u))))"
proof (induction rule: resendLoop_induct)
  case (due seq order h un u h' un' out res)
  have same: "h(umessage u := sealed (h (umessage u))) = h"
    using due.prems [OF due.hyps(1)] by simp
  show ?case
    using due.IH due.prems due.hyps(1) unfolding same
    by (fastforce simp: update_conv' split: if_splits)
qed auto
definition timed_out :: "time \<Rightarrow> unacknowledgedMessage \<Rightarrow> bool" where
  "timed_out now u \<longleftrightarrow> now - firstSendTime u > resendTimeoutDuration"

definition due :: "time \<Rightarrow> unacknowledgedMessage \<Rightarrow> bool" where
  "due now u \<longleftrightarrow> now - lastSendTime u > resendIntervalDuration"

lemma resendLoop_result:
  "resendLoop now s order h un = (h', un', out, res) \<Longrightarrow>
     res = (if \<exists>n \<in> set order. \<exists>u. map_of un n = Some u \<and> timed_out now u
            then Some ErrAckTimeout else None)"
proof (induction rule: resendLoop_induct)
  case (due seq order h un u h' un' out res)
  have "(\<exists>v. map_of (AList.update seq (u\<lparr>lastSendTime := now\<rparr>) un) n = Some v \<and> timed_out now v)
      = (\<exists>v. map_of un n = Some v \<and> timed_out now v)" for n
    using due.hyps(1) by (auto simp: update_conv' timed_out_def)
  with due.IH due.hyps show ?case
    by (auto simp: timed_out_def)
qed (auto simp: timed_out_def)

lemma resendLoop_resent:
  "resendLoop now s order h un = (h', un', out, res) \<Longrightarrow> res = None \<Longrightarrow> distinct order \<Longrightarrow>
     (\<And>n u. map_of un n = Some u \<Longrightarrow> sealed (h (umessage u)) = h (umessage u)) \<Longrightarrow>
     resent_frames out =
       concat (map (\<lambda>n. case map_of un n of
          Some u \<Rightarrow> if due now u then map (Pair n) (frames (h (umessage u))) else [] | None \<Rightarrow> [])
        order)
     \<and> map_of un' = (\<lambda>n. case map_of un n of None \<Rightarrow> None
          | Some u \<Rightarrow> Some (if n \<in> set order \<and> due now u then u\<lparr>lastSendTime := now\<rparr> else u))"
proof (induction rule: resendLoop_induct)
  case (due seq order h un u h' un' out res)
  let ?un = "AList.update seq (u\<lparr>lastSendTime := now\<rparr>) un"
  have same: "h(umessage u := sealed (h (umessage u))) = h"
    using due.prems(3) [OF due.hyps(1)] by simp
  have "sealed (h (umessage v)) = h (umessage v)" if "map_of ?un n = Some v" for n v
    using that due.prems(3) due.hyps(1) by (auto simp: update_conv' split: if_splits)
  note IH = due.IH [unfolded same, OF due.prems(1) _ this]
  have others: "map_of ?un n = map_of un n" if "n \<in> set order" for n
    using that due.prems(2) by (auto simp: update_conv')
  show ?case
    using IH due.prems(2) due.hyps(1,3) others
    by (auto simp: due_def update_conv' fun_eq_iff cong: map_cong split: option.split)
qed (auto simp: due_def fun_eq_iff split: option.split)

lemma writer_tick_result:
  assumes "writer_step (WTick now order s) (h, w) = Some ((h', w'), out)"
  shows "wreturned w' = (if \<exists>n u. map_of (unacknowledgedMessages w) n = Some u \<and> timed_out now u
    then Some ErrAckTimeout else None)"
proof -
  obtain un res where loop: "resendLoop now s order h (unacknowledgedMessages w) = (h', un, out, res)"
    and w': "w' = w\<lparr>unacknowledgedMessages := un, wreturned := res\<rparr>"
    and order: "set order = fst ` set (unacknowledgedMessages w)"
    using assms by (auto simp: writer_step_def writer_enabled_def onTick_def split: if_splits prod.splits)
  have "n \<in> set order" if "map_of (unacknowledgedMessages w) n = Some u" for n u
    using map_of_SomeD [OF that] order by force
  then show ?thesis
    using resendLoop_result [OF loop] by (auto simp: w' simp del: map_of_eq_Some_iff)
qed

section \<open>The invariant of the sending goroutine\<close>

text \<open>
  The window: at most ten entries, under distinct numbers already used, and the entry of a
  number holds the message that was dequeued at that position.
\<close>

definition window_inv :: "addr list \<Rightarrow> writer \<Rightarrow> bool" where
  "window_inv deq w \<longleftrightarrow>
     nextOutgoingSequenceNumber w = of_nat (length deq)
     \<and> distinct (map fst (unacknowledgedMessages w))
     \<and> length (unacknowledgedMessages w) \<le> maxInflightMessages
     \<and> (\<forall>n u. map_of (unacknowledgedMessages w) n = Some u \<longrightarrow>
          (\<exists>i < length deq. n = of_nat i \<and> umessage u = deq ! i))"

text \<open>
  The messages: those dequeued are encoded under their number, the others untouched; the
  frames sent so far are those of the dequeued messages.
\<close>

definition heap_ok :: "heap \<Rightarrow> addr list \<Rightarrow> heap \<Rightarrow> bool" where
  "heap_ok h0 deq h \<longleftrightarrow>
     (\<forall>i < length deq. h (deq ! i) = sealed (numbered (of_nat i) (h0 (deq ! i))))
     \<and> (\<forall>a. a \<notin> set deq \<longrightarrow> h a = h0 a)"

definition first_frames :: "heap \<Rightarrow> addr list \<Rightarrow> nat \<Rightarrow> (int64 \<times> bytes) list" where
  "first_frames h0 deq i = map (Pair (of_nat i)) (frames (numbered (of_nat i) (h0 (deq ! i))))"

definition sent_ok :: "heap \<Rightarrow> addr list \<Rightarrow> writer_output list \<Rightarrow> bool" where
  "sent_ok h0 deq outs \<longleftrightarrow>
     data_frames outs = concat (map (first_frames h0 deq) [0..<length deq])
     \<and> set (resent_frames outs) \<subseteq> (\<Union>i < length deq. set (first_frames h0 deq i))"

definition content_inv :: "heap \<Rightarrow> addr list \<Rightarrow> writer_output list \<Rightarrow> heap \<Rightarrow> bool" where
  "content_inv h0 deq outs h \<longleftrightarrow> heap_ok h0 deq h \<and> sent_ok h0 deq outs"

lemma first_frames_append [simp]:
  "i < length deq \<Longrightarrow> first_frames h0 (deq @ ds) i = first_frames h0 deq i"
  by (simp add: first_frames_def nth_append)

lemma first_frames_last [simp]:
  "first_frames h0 (deq @ [a]) (length deq)
     = map (Pair (of_nat (length deq))) (frames (numbered (of_nat (length deq)) (h0 a)))"
  by (simp add: first_frames_def)

lemma sent_ok_more:
  assumes "sent_ok h0 deq outs" and "data_frames out = []"
    and "set (resent_frames out) \<subseteq> (\<Union>i < length deq. set (first_frames h0 deq i))"
  shows "sent_ok h0 deq (outs @ out)"
  using assms by (simp add: sent_ok_def)

lemma sent_ok_snoc:
  assumes "sent_ok h0 deq outs"
  shows "sent_ok h0 (deq @ [a])
    (outs @ map (SentData (of_nat (length deq))) (frames (numbered (of_nat (length deq)) (h0 a))))"
proof -
  have maps: "map (first_frames h0 (deq @ [a])) [0..<length deq] = map (first_frames h0 deq) [0..<length deq]"
    by simp
  have "(\<Union>i < length deq. set (first_frames h0 (deq @ [a]) i))
      = (\<Union>i < length deq. set (first_frames h0 deq i))"
    by simp
  then show ?thesis
    using assms unfolding sent_ok_def by (auto simp: lessThan_Suc maps simp del: map_eq_conv)
qed

lemma heap_ok_snoc:
  assumes "heap_ok h0 deq h" and "a \<notin> set deq"
  shows "heap_ok h0 (deq @ [a]) (h(a := sealed (numbered (of_nat (length deq)) (h0 a))))"
  using assms unfolding heap_ok_def by (auto simp: nth_append less_Suc_eq)

fun event_message :: "writer_event \<Rightarrow> addr list" where
  "event_message (WMessage a t t' s) = [a]"
| "event_message _ = []"

lemma dequeued_Cons: "dequeued (e # es) = event_message e @ dequeued es"
  by (cases e) simp_all

lemma window_inv_updates [simp]:
  "window_inv deq (w\<lparr>writeThrottled := b\<rparr>) = window_inv deq w"
  "window_inv deq (w\<lparr>wreturned := res\<rparr>) = window_inv deq w"
  by (simp_all add: window_inv_def)

lemma window_inv_delete:
  assumes "window_inv deq w"
  shows "window_inv deq (w\<lparr>unacknowledgedMessages := AList.delete n (unacknowledgedMessages w)\<rparr>)"
proof -
  have "\<exists>i < length deq. m = of_nat i \<and> umessage u = deq ! i"
    if u: "map_of (AList.delete n (unacknowledgedMessages w)) m = Some u" for m u
  proof -
    have "map_of (unacknowledgedMessages w) m = Some u"
      using u by (simp add: delete_conv' split: if_splits)
    with assms show ?thesis
      unfolding window_inv_def by blast
  qed
  moreover have "length (AList.delete n (unacknowledgedMessages w)) \<le> maxInflightMessages"
    using assms length_AList_delete_le [of n "unacknowledgedMessages w"]
    by (simp add: window_inv_def)
  ultimately show ?thesis
    using assms by (simp add: window_inv_def distinct_delete del: map_of_eq_Some_iff)
qed

lemma window_inv_step:
  assumes inv: "window_inv deq w" and k: "length deq < 2 ^ 63"
    and step: "writer_step e (h, w) = Some ((h', w'), out)"
  shows "window_inv (deq @ event_message e) w'"
proof (cases e)
  case (WAck n)
  with step have "w' = onAck n w"
    by (simp add: writer_step_def split: if_splits)
  with window_inv_delete [OF inv, of n] inv show ?thesis
    by (simp add: WAck onAck_def)
next
  case (WMessage a t t' s)
  have lt: "\<exists>i < Suc (length deq). n = of_nat i \<and> umessage u = (deq @ [a]) ! i"
    if u: "map_of (unacknowledgedMessages w) n = Some u" for n u
  proof -
    obtain i where "i < length deq" "n = of_nat i" "umessage u = deq ! i"
      using inv u unfolding window_inv_def by blast
    then show ?thesis
      by (intro exI [of _ i]) (simp add: nth_append)
  qed
  let ?n = "of_nat (length deq) :: int64"
  let ?un = "AList.update ?n \<lparr>umessage = a, firstSendTime = t, lastSendTime = t'\<rparr>
    (unacknowledgedMessages w)"
  have n: "nextOutgoingSequenceNumber w = ?n" and distinct: "distinct (map fst (unacknowledgedMessages w))"
    using inv by (simp_all add: window_inv_def)
  have w': "w' = w\<lparr>unacknowledgedMessages := ?un, nextOutgoingSequenceNumber := ?n + 1,
      writeThrottled := True\<rparr>"
    and room: "length (unacknowledgedMessages w) < maxInflightMessages"
    using WMessage step by (simp_all add: writer_step_def writer_enabled_def onMessage_eq n split: if_splits)
  have "\<exists>i < Suc (length deq). m = of_nat i \<and> umessage u = (deq @ [a]) ! i"
    if "map_of ?un m = Some u" for m u
  proof (cases "m = ?n")
    case True
    with that show ?thesis
      by (intro exI [of _ "length deq"]) (auto simp: update_conv')
  next
    case False
    with that lt show ?thesis
      by (simp add: update_conv')
  qed
  moreover have "length ?un \<le> maxInflightMessages"
    by (rule le_trans [OF length_AList_update_le]) (use room in simp)
  ultimately show ?thesis
    using distinct by (simp add: window_inv_def w' WMessage distinct_update add.commute)
next
  case (WTick now order s)
  obtain h1 un res where loop:
    "resendLoop now s order h (unacknowledgedMessages w) = (h1, un, out, res)"
    and w': "w' = w\<lparr>unacknowledgedMessages := un, wreturned := res\<rparr>"
    using WTick step by (auto simp: writer_step_def onTick_def split: if_splits prod.splits)
  have keys: "map fst un = map fst (unacknowledgedMessages w)"
    by (rule resendLoop_keys [OF loop])
  then have len: "length un = length (unacknowledgedMessages w)"
    by (metis length_map)
  have "\<exists>i < length deq. n = of_nat i \<and> umessage u = deq ! i" if u: "map_of un n = Some u" for n u
  proof -
    obtain v where "map_of (unacknowledgedMessages w) n = Some v" "umessage v = umessage u"
      using resendLoop_entries [OF loop, of n] u
      by (cases "map_of (unacknowledgedMessages w) n") auto
    with inv show ?thesis
      unfolding window_inv_def by metis
  qed
  with inv WTick keys len show ?thesis
    unfolding w' by (simp add: window_inv_def del: map_of_eq_Some_iff)
qed (use assms in \<open>auto simp: writer_step_def split: if_splits\<close>)
lemma content_sealed:
  assumes "heap_ok h0 deq h" and "window_inv deq w"
    and "map_of (unacknowledgedMessages w) n = Some u"
  shows "sealed (h (umessage u)) = h (umessage u)"
proof -
  obtain i where "i < length deq" "umessage u = deq ! i"
    using assms(2,3) unfolding window_inv_def by blast
  with assms(1) show ?thesis
    by (simp add: heap_ok_def)
qed

lemma content_frames:
  assumes "heap_ok h0 deq h" and "window_inv deq w"
    and "map_of (unacknowledgedMessages w) n = Some u" and "bs \<in> set (frames (h (umessage u)))"
  shows "\<exists>i < length deq. (n, bs) \<in> set (first_frames h0 deq i)"
proof -
  obtain i where i: "i < length deq" "n = of_nat i" "umessage u = deq ! i"
    using assms(2,3) unfolding window_inv_def by blast
  with assms(1,4) have "(n, bs) \<in> set (first_frames h0 deq i)"
    by (simp add: heap_ok_def first_frames_def)
  with i(1) show ?thesis
    by blast
qed

lemma content_inv_step:
  assumes inv: "content_inv h0 deq outs h" and window: "window_inv deq w"
    and step: "writer_step e (h, w) = Some ((h', w'), out)"
    and distinct: "distinct (deq @ event_message e)"
  shows "content_inv h0 (deq @ event_message e) (outs @ out) h'"
proof (cases e)
  case (WMessage a t t' s)
  let ?n = "of_nat (length deq) :: int64"
  have n: "nextOutgoingSequenceNumber w = ?n"
    using window by (simp add: window_inv_def)
  have fresh: "h a = h0 a" "a \<notin> set deq"
    using inv distinct WMessage by (simp_all add: content_inv_def heap_ok_def)
  have "h' = h(a := sealed (numbered ?n (h0 a)))" "out = map (SentData ?n) (frames (numbered ?n (h0 a)))"
    using step WMessage fresh by (simp_all add: writer_step_def onMessage_eq n split: if_splits)
  with inv fresh(2) show ?thesis
    by (simp add: WMessage content_inv_def heap_ok_snoc sent_ok_snoc)
next
  case (WTick now order s)
  obtain un res where loop:
    "resendLoop now s order h (unacknowledgedMessages w) = (h', un, out, res)"
    using WTick step by (auto simp: writer_step_def onTick_def split: if_splits prod.splits)
  have heap: "heap_ok h0 deq h" and sent: "sent_ok h0 deq outs"
    using inv by (simp_all add: content_inv_def)
  note sealed = content_sealed [OF heap window]
  have out: "data_frames out = [] \<and> (\<forall>(n, bs) \<in> set (resent_frames out).
      \<exists>u. map_of (unacknowledgedMessages w) n = Some u \<and> bs \<in> set (frames (h (umessage u))))"
    by (rule resendLoop_out [OF loop]) (rule sealed)
  have same: "h' = h"
    by (rule resendLoop_heap [OF loop]) (rule sealed)
  have "(n, bs) \<in> (\<Union>i < length deq. set (first_frames h0 deq i))"
    if resent: "(n, bs) \<in> set (resent_frames out)" for n bs
  proof -
    obtain u where u: "map_of (unacknowledgedMessages w) n = Some u" "bs \<in> set (frames (h (umessage u)))"
      using bspec [OF conjunct2 [OF out] resent] by auto
    show ?thesis
      using content_frames [OF heap window u] by auto
  qed
  then have "set (resent_frames out) \<subseteq> (\<Union>i < length deq. set (first_frames h0 deq i))"
    by (rule subrelI)
  with out have "sent_ok h0 deq (outs @ out)"
    by (intro sent_ok_more [OF sent]) simp_all
  with heap show ?thesis
    by (simp add: content_inv_def WTick same)
next
  case (WControl m s)
  with step have "h' = h" "data_frames out = []" "resent_frames out = []"
    by (auto simp: writer_step_def split: if_splits)
  with inv WControl show ?thesis
    by (simp add: content_inv_def sent_ok_more)
qed (use inv step in \<open>simp_all add: writer_step_def split: if_splits\<close>)

section \<open>The goroutine as a transition system\<close>

type_synonym writer_sys = "addr list \<times> writer_output list \<times> heap \<times> writer"

inductive writer_trans :: "writer_sys \<Rightarrow> writer_sys \<Rightarrow> bool" where
  "writer_step e (h, w) = Some ((h', w'), out) \<Longrightarrow>
     writer_trans (deq, outs, h, w) (deq @ event_message e, outs @ out, h', w')"

inductive_cases writer_transE [consumes 1, case_names step]: "writer_trans (deq, outs, h, w) s'"

definition writer_start :: "heap \<Rightarrow> writer_sys \<Rightarrow> bool" where
  "writer_start h0 s \<longleftrightarrow> s = ([], [], h0, writer_init)"

fun writer_sys_inv :: "heap \<Rightarrow> writer_sys \<Rightarrow> bool" where
  "writer_sys_inv h0 (deq, outs, h, w) =
     (length deq < 2 ^ 63 \<longrightarrow>
       window_inv deq w \<and> (distinct deq \<longrightarrow> content_inv h0 deq outs h))"

interpretation wr: inductive_invariant "writer_start h0" writer_trans "writer_sys_inv h0" for h0
proof unfold_locales
  fix s assume "writer_start h0 s"
  then show "writer_sys_inv h0 s"
    by (simp add: writer_start_def writer_init_def window_inv_def content_inv_def heap_ok_def sent_ok_def)
next
  fix s t assume inv: "writer_sys_inv h0 s" and step: "writer_trans s t"
  obtain deq outs h w where s: "s = (deq, outs, h, w)"
    by (cases s)
  from step [unfolded s] show "writer_sys_inv h0 t"
  proof (cases rule: writer_transE)
    case (step e h' w' out)
    with inv s show ?thesis
      using window_inv_step [of deq w e h h' w' out] content_inv_step [of h0 deq outs h w e h' w' out]
      by auto
  qed
qed

lemma writer_run_trans:
  "writer_run es (h, w) = Some ((h', w'), out) \<Longrightarrow>
     writer_trans\<^sup>*\<^sup>* (deq, outs, h, w) (deq @ dequeued es, outs @ out, h', w')"
proof (induction es arbitrary: h w out deq outs)
  case (Cons e es)
  then obtain h1 w1 out1 out2 where step: "writer_step e (h, w) = Some ((h1, w1), out1)"
    and run: "writer_run es (h1, w1) = Some ((h', w'), out2)" "out = out1 @ out2"
    by (auto split: option.splits)
  have "writer_trans (deq, outs, h, w) (deq @ event_message e, outs @ out1, h1, w1)"
    using step by (rule writer_trans.intros)
  also note Cons.IH [OF run(1), of "deq @ event_message e" "outs @ out1"]
  finally (converse_rtranclp_into_rtranclp) show ?case
    by (simp add: dequeued_Cons run(2))
qed simp

lemma writer_run_inv:
  assumes "writer_run es (h0, writer_init) = Some ((h, w), outs)" and "length (dequeued es) < 2 ^ 63"
  shows "window_inv (dequeued es) w"
    "distinct (dequeued es) \<Longrightarrow> content_inv h0 (dequeued es) outs h"
  using wr.rtranclp_inv [OF writer_run_trans [OF assms(1), of "[]" "[]"], of h0]
    wr.inv_init [of h0 "([], [], h0, writer_init)"] assms(2)
  by (simp_all add: writer_start_def)
section \<open>What is outstanding\<close>

text \<open>
  The numbers a history leaves unacknowledged: those given to a message and not acknowledged
  after that. \<open>k\<close> is the number of messages dequeued before.
\<close>

fun outstanding :: "nat \<Rightarrow> int64 set \<Rightarrow> writer_event list \<Rightarrow> int64 set" where
  "outstanding k S [] = S"
| "outstanding k S (WAck n # es) = outstanding k (S - {n}) es"
| "outstanding k S (WMessage a t t' s # es) = outstanding (Suc k) (insert (of_nat k) S) es"
| "outstanding k S (_ # es) = outstanding k S es"

lemma writer_step_keys:
  assumes inv: "window_inv deq w" and step: "writer_step e (h, w) = Some ((h', w'), out)"
  shows "outstanding (length deq) (set (map fst (unacknowledgedMessages w))) (e # es)
    = outstanding (length (deq @ event_message e)) (set (map fst (unacknowledgedMessages w'))) es"
proof (cases e)
  case (WAck n)
  with step show ?thesis
    by (auto simp: writer_step_def onAck_def keys_AList_delete map_of_eq_None_iff insert_Diff_if
        split: if_splits)
next
  case (WMessage a t t' s)
  with inv step show ?thesis
    by (auto simp: writer_step_def onMessage_eq window_inv_def keys_AList_update split: if_splits)
next
  case (WTick now order s)
  obtain h1 un res where loop:
    "resendLoop now s order h (unacknowledgedMessages w) = (h1, un, out, res)"
    and w': "w' = w\<lparr>unacknowledgedMessages := un, wreturned := res\<rparr>"
    using WTick step by (auto simp: writer_step_def onTick_def split: if_splits prod.splits)
  have "set (map fst (unacknowledgedMessages w')) = set (map fst (unacknowledgedMessages w))"
    by (simp add: w' resendLoop_keys [OF loop] del: set_map)
  then show ?thesis
    by (simp add: WTick del: set_map)
qed (use step in \<open>auto simp: writer_step_def split: if_splits\<close>)

lemma writer_run_outstanding:
  assumes "writer_run es (h, w) = Some ((h', w'), out)" and "window_inv deq w"
    and "length deq + length (dequeued es) < 2 ^ 63"
  shows "set (map fst (unacknowledgedMessages w'))
    = outstanding (length deq) (set (map fst (unacknowledgedMessages w))) es"
  using assms
proof (induction es arbitrary: h w out deq)
  case (Cons e es)
  then obtain h1 w1 out1 out2 where step: "writer_step e (h, w) = Some ((h1, w1), out1)"
    and run: "writer_run es (h1, w1) = Some ((h', w'), out2)"
    by (auto split: option.splits)
  have inv: "window_inv (deq @ event_message e) w1"
    by (rule window_inv_step [OF Cons.prems(2) _ step]) (use Cons.prems(3) in simp)
  have "set (map fst (unacknowledgedMessages w'))
      = outstanding (length (deq @ event_message e)) (set (map fst (unacknowledgedMessages w1))) es"
    by (rule Cons.IH [OF run inv]) (use Cons.prems(3) in \<open>simp add: dequeued_Cons\<close>)
  then show ?case
    using writer_step_keys [OF Cons.prems(2) step] by simp
qed simp

section \<open>An outstanding message stays\<close>

lemma writer_step_keeps:
  assumes inv: "window_inv deq w" and k: "length deq < 2 ^ 63"
    and step: "writer_step e (h, w) = Some ((h', w'), out)" and e: "e \<noteq> WAck n"
    and u: "map_of (unacknowledgedMessages w) n = Some u"
  shows "\<exists>u'. map_of (unacknowledgedMessages w') n = Some u' \<and> firstSendTime u' = firstSendTime u"
proof (cases e)
  case (WAck n')
  with step u e show ?thesis
    by (auto simp: writer_step_def onAck_def delete_conv' split: if_splits)
next
  case (WMessage a t t' s)
  obtain i where "i < length deq" "n = of_nat i"
    using inv u unfolding window_inv_def by blast
  with k have "n \<noteq> of_nat (length deq)"
    by (metis (mono_tags) less_imp_neq less_trans of_nat_eq_iff sint_of_nat_64)
  with WMessage inv step u show ?thesis
    by (auto simp: writer_step_def onMessage_eq window_inv_def update_conv' split: if_splits)
next
  case (WTick now order s)
  obtain h1 un res where loop:
    "resendLoop now s order h (unacknowledgedMessages w) = (h1, un, out, res)"
    and w': "w' = w\<lparr>unacknowledgedMessages := un, wreturned := res\<rparr>"
    using WTick step by (auto simp: writer_step_def onTick_def split: if_splits prod.splits)
  show ?thesis
    using resendLoop_entries [OF loop, of n] u by (auto simp: w')
qed (use step u in \<open>auto simp: writer_step_def split: if_splits\<close>)

lemma writer_run_keeps:
  assumes "writer_run es (h, w) = Some ((h', w'), out)" and "window_inv deq w"
    and "length deq + length (dequeued es) < 2 ^ 63" and "WAck n \<notin> set es"
    and "map_of (unacknowledgedMessages w) n = Some u"
  shows "\<exists>u'. map_of (unacknowledgedMessages w') n = Some u' \<and> firstSendTime u' = firstSendTime u"
  using assms
proof (induction es arbitrary: h w out deq u)
  case (Cons e es)
  then obtain h1 w1 out1 out2 where step: "writer_step e (h, w) = Some ((h1, w1), out1)"
    and run: "writer_run es (h1, w1) = Some ((h', w'), out2)"
    by (auto split: option.splits)
  have k: "length deq < 2 ^ 63" "e \<noteq> WAck n" "WAck n \<notin> set es"
    and len: "length (deq @ event_message e) + length (dequeued es) < 2 ^ 63"
    using Cons.prems(3,4) by (auto simp: dequeued_Cons)
  obtain u1 where u1: "map_of (unacknowledgedMessages w1) n = Some u1" "firstSendTime u1 = firstSendTime u"
    using writer_step_keeps [OF Cons.prems(2) k(1) step k(2) Cons.prems(5)] by blast
  from Cons.IH [OF run window_inv_step [OF Cons.prems(2) k(1) step] len k(3) u1(1)] u1(2)
  show ?case
    by simp
qed simp

lemma writer_run_append:
  "writer_run (xs @ ys) hw = Some (hw', out) \<Longrightarrow>
     \<exists>hw1 out1 out2. writer_run xs hw = Some (hw1, out1) \<and> writer_run ys hw1 = Some (hw', out2)"
proof (induction xs arbitrary: hw out)
  case (Cons e xs)
  then obtain hw1 out1 out2 where "writer_step e hw = Some (hw1, out1)"
    "writer_run (xs @ ys) hw1 = Some (hw', out2)"
    by (auto split: option.splits)
  with Cons.IH [OF this(2)] show ?case
    by auto
qed simp

lemma never_sent:
  assumes "sent_ok h0 deq outs" and "length deq < 2 ^ 63" and "k < length deq"
    and "frames (numbered (of_nat k) (h0 (deq ! k))) = []"
  shows "of_nat k \<notin> fst ` set (data_frames outs) \<and> of_nat k \<notin> fst ` set (resent_frames outs)"
proof -
  let ?F = "\<Union>i < length deq. set (first_frames h0 deq i)"
  have "of_nat k \<notin> fst ` ?F"
  proof
    assume "of_nat k \<in> fst ` ?F"
    then obtain i x where i: "i < length deq" "x \<in> set (first_frames h0 deq i)" "fst x = of_nat k"
      by (elim imageE UN_E) simp
    have "fst x = of_nat i"
      using i(2) by (auto simp: first_frames_def)
    with i(3) have "sint (of_nat i :: int64) = sint (of_nat k :: int64)"
      by simp
    then have "i = k"
      using i(1) assms(2,3) by simp
    with i(2) assms(4) show False
      by (simp add: first_frames_def)
  qed
  moreover have "set (data_frames outs) = ?F"
    using assms(1) by (simp add: sent_ok_def lessThan_atLeast0)
  moreover have "set (resent_frames outs) \<subseteq> ?F"
    using assms(1) by (simp add: sent_ok_def)
  ultimately show ?thesis
    by (metis image_mono subsetD)
qed

lemma frames_invalid: "ValidateMessage (sealed m) \<noteq> None \<Longrightarrow> frames m = []"
  by (auto simp: frames_def MarshalBinary_sealed)

section \<open>A sample run\<close>

text \<open>Two messages; the first is acknowledged, the second is resent after two seconds.\<close>

definition sample_heap :: heap where
  "sample_heap a = NewStreamMessage 0 (replicate 16 0) [of_nat a]"

abbreviation quiet :: socket where
  "quiet \<equiv> \<lambda>_. None"

definition sample_writes :: "writer_event list" where
  "sample_writes = [WMessage 7 0 0 quiet, WThrottle, WMessage 8 0 0 quiet, WThrottle, WAck 0,
     WTick (2 * 10 ^ 9) [1] quiet]"

definition sample_frame :: "nat \<Rightarrow> int64 \<Rightarrow> bytes" where
  "sample_frame a n = wireBytes (sealed (numbered n (sample_heap a)))"

lemma sample_frames [simp]: "frames (numbered n (sample_heap a)) = [sample_frame a n]"
proof -
  have "sendable (numbered n (sample_heap a))"
    by (simp add: sendable_def numbered_def sample_heap_def NewStreamMessage_def wf_message_def
        NewAgentMessage_def zeroMessage_def zeroTime_def)
  from sendable_Marshal [OF this] show ?thesis
    by (simp add: frames_def sample_frame_def)
qed
lemma sample_writer_run:
  "writer_run sample_writes (sample_heap, writer_init) =
     Some ((sample_heap(7 := sealed (numbered 0 (sample_heap 7)), 8 := sealed (numbered 1 (sample_heap 8))),
       \<lparr>wreturned = None, nextOutgoingSequenceNumber = 2,
        unacknowledgedMessages = [(1, \<lparr>umessage = 8, firstSendTime = 0, lastSendTime = 2 * 10 ^ 9\<rparr>)],
        writeThrottled = False\<rparr>),
      [SentData 0 (sample_frame 7 0), SentData 1 (sample_frame 8 1), Resent 1 (sample_frame 8 1)])"
  by (simp add: sample_writes_def writer_init_def writer_step_def writer_enabled_def onMessage_eq
      onAck_def onTick_def resendLoop_Some resendTimeoutDuration_def resendIntervalDuration_def
      maxInflightMessages_def del: resendLoop.simps(2))

section \<open>Properties\<close>

text \<open>C4: Messages go out once each, in the order in which they were written, under consecutive
  numbers, and a retransmission repeats the bytes of the first transmission. For every run in
  which no message is queued twice, the first transmissions are, for the \<open>i\<close>-th message taken
  from the queue, the encoding of that message with sequence number \<open>i\<close> (and the SYN flag on
  the first one unless it is a FIN); a message that does not validate is given a number and no
  frame. Every retransmitted frame is one of those frames, under its number.\<close>

theorem writer_sends_in_order:
  assumes "writer_run es (h0, writer_init) = Some ((h, w), outs)"
    and "length (dequeued es) < 2 ^ 63" and "distinct (dequeued es)"
  shows "data_frames outs
      = concat (map (\<lambda>i. map (Pair (of_nat i)) (frames (numbered (of_nat i) (h0 (dequeued es ! i)))))
          [0..<length (dequeued es)])
    \<and> set (resent_frames outs) \<subseteq> set (data_frames outs)
    \<and> nextOutgoingSequenceNumber w = of_nat (length (dequeued es))"
proof -
  note inv = writer_run_inv [OF assms(1,2)]
  have "sent_ok h0 (dequeued es) outs"
    using inv(2) [OF assms(3)] by (simp add: content_inv_def)
  then show ?thesis
    using inv(1) by (simp add: sent_ok_def first_frames_def [abs_def] window_inv_def lessThan_atLeast0)
qed

theorem writer_sends_in_order_witness:
  "set (resent_frames [SentData 0 (sample_frame 7 0), SentData 1 (sample_frame 8 1), Resent 1 (sample_frame 8 1)])
     \<subseteq> {(0, sample_frame 7 0), (1, sample_frame 8 1)}"
  using writer_sends_in_order [OF sample_writer_run] by (simp add: sample_writes_def)

text \<open>C8: The window. The messages kept for retransmission are exactly those whose number has not
  been acknowledged since it was given: acknowledging the wrong number, one not yet used, or
  one twice changes nothing, and no message is forgotten before it is acknowledged. At most ten
  are outstanding at any time, under distinct numbers.\<close>

theorem writer_window:
  assumes "writer_run es (h0, writer_init) = Some ((h, w), outs)"
    and "length (dequeued es) < 2 ^ 63"
  shows "set (map fst (unacknowledgedMessages w)) = outstanding 0 {} es
    \<and> distinct (map fst (unacknowledgedMessages w))
    \<and> length (unacknowledgedMessages w) \<le> 10"
proof -
  have "window_inv [] writer_init"
    by (simp add: window_inv_def writer_init_def)
  from writer_run_outstanding [OF assms(1) this] assms(2)
  have "set (map fst (unacknowledgedMessages w)) = outstanding 0 {} es"
    by (simp add: writer_init_def del: set_map)
  then show ?thesis
    using writer_run_inv(1) [OF assms] by (simp add: window_inv_def maxInflightMessages_def del: set_map)
qed

theorem writer_window_witness: "outstanding 0 {} sample_writes = {1}"
  using writer_window [OF sample_writer_run] by (simp add: sample_writes_def)

text \<open>C31: The resend ticker. At a tick the goroutine gives up with \<^verbatim>\<open>ErrAckTimeout\<close> exactly if some
  outstanding message was first sent more than one minute ago, whatever the order in which Go
  iterates over the map. Otherwise it goes on, sends again exactly the messages last sent more
  than one second ago, each once and with the bytes of its encoding, and stamps exactly those
  with the current time; nothing else changes.\<close>

theorem writer_tick:
  assumes "writer_run es (h0, writer_init) = Some ((h, w), outs)"
    and "length (dequeued es) < 2 ^ 63" and "distinct (dequeued es)"
    and "writer_step (WTick now order socket) (h, w) = Some ((h', w'), out)"
  shows "(wreturned w' =
        (if \<exists>n u. map_of (unacknowledgedMessages w) n = Some u \<and> now - firstSendTime u > 60 * 10 ^ 9
         then Some ErrAckTimeout else None))
    \<and> h' = h \<and> data_frames out = []
    \<and> (wreturned w' = None \<longrightarrow>
        resent_frames out = concat (map (\<lambda>n. case map_of (unacknowledgedMessages w) n of
            Some u \<Rightarrow> if now - lastSendTime u > 10 ^ 9 then map (Pair n) (frames (h (umessage u))) else []
          | None \<Rightarrow> []) order)
        \<and> map_of (unacknowledgedMessages w') = (\<lambda>n. case map_of (unacknowledgedMessages w) n of
            None \<Rightarrow> None
          | Some u \<Rightarrow> Some (if now - lastSendTime u > 10 ^ 9 then u\<lparr>lastSendTime := now\<rparr> else u)))"
proof -
  note inv = writer_run_inv [OF assms(1,2)]
  have heap: "heap_ok h0 (dequeued es) h"
    using inv(2) [OF assms(3)] by (simp add: content_inv_def)
  note sealed = content_sealed [OF heap inv(1)]
  obtain un res where loop:
    "resendLoop now socket order h (unacknowledgedMessages w) = (h', un, out, res)"
    and w': "w' = w\<lparr>unacknowledgedMessages := un, wreturned := res\<rparr>"
    and order: "distinct order" "set order = fst ` set (unacknowledgedMessages w)"
    using assms(4) by (auto simp: writer_step_def writer_enabled_def onTick_def split: if_splits prod.splits)
  have visited: "n \<in> set order" if "map_of (unacknowledgedMessages w) n = Some u" for n u
    using map_of_SomeD [OF that] order(2) by force
  have same: "h' = h"
    by (rule resendLoop_heap [OF loop]) (rule sealed)
  have data: "data_frames out = []"
    using resendLoop_out [OF loop] sealed by blast
  have res: "res = (if \<exists>n u. map_of (unacknowledgedMessages w) n = Some u \<and> now - firstSendTime u > 60 * 10 ^ 9
      then Some ErrAckTimeout else None)"
    using resendLoop_result [OF loop] visited
    by (auto simp: timed_out_def resendTimeoutDuration_def simp del: map_of_eq_Some_iff)
  have goes_on: "resent_frames out = concat (map (\<lambda>n. case map_of (unacknowledgedMessages w) n of
        Some u \<Rightarrow> if now - lastSendTime u > 10 ^ 9 then map (Pair n) (frames (h (umessage u))) else []
      | None \<Rightarrow> []) order)
    \<and> map_of un = (\<lambda>n. case map_of (unacknowledgedMessages w) n of
        None \<Rightarrow> None
      | Some u \<Rightarrow> Some (if now - lastSendTime u > 10 ^ 9 then u\<lparr>lastSendTime := now\<rparr> else u))"
    if "res = None"
  proof -
    have due: "due now u \<longleftrightarrow> now - lastSendTime u > 10 ^ 9" for u
      by (simp add: due_def resendIntervalDuration_def)
    have "map_of un = (\<lambda>n. case map_of (unacknowledgedMessages w) n of None \<Rightarrow> None
        | Some u \<Rightarrow> Some (if n \<in> set order \<and> due now u then u\<lparr>lastSendTime := now\<rparr> else u))"
      "resent_frames out = concat (map (\<lambda>n. case map_of (unacknowledgedMessages w) n of
        Some u \<Rightarrow> if due now u then map (Pair n) (frames (h (umessage u))) else [] | None \<Rightarrow> []) order)"
      using resendLoop_resent [OF loop that order(1)] sealed by blast+
    then show ?thesis
      using visited unfolding due by (auto simp: fun_eq_iff split: option.split)
  qed
  show ?thesis
    using same data res goes_on unfolding w' by simp
qed

theorem writer_tick_witness:
  "\<exists>h' w' out. writer_step (WTick (61 * 10 ^ 9) [1] quiet)
      (sample_heap(7 := sealed (numbered 0 (sample_heap 7)), 8 := sealed (numbered 1 (sample_heap 8))),
       \<lparr>wreturned = None, nextOutgoingSequenceNumber = 2,
        unacknowledgedMessages = [(1, \<lparr>umessage = 8, firstSendTime = 0, lastSendTime = 2 * 10 ^ 9\<rparr>)],
        writeThrottled = False\<rparr>) = Some ((h', w'), out)
    \<and> wreturned w' = Some ErrAckTimeout"
proof -
  obtain h' w' out where step: "writer_step (WTick (61 * 10 ^ 9) [1] quiet)
      (sample_heap(7 := sealed (numbered 0 (sample_heap 7)), 8 := sealed (numbered 1 (sample_heap 8))),
       \<lparr>wreturned = None, nextOutgoingSequenceNumber = 2,
        unacknowledgedMessages = [(1, \<lparr>umessage = 8, firstSendTime = 0, lastSendTime = 2 * 10 ^ 9\<rparr>)],
        writeThrottled = False\<rparr>) = Some ((h', w'), out)"
    by (simp add: writer_step_def writer_enabled_def onTick_def resendTimeoutDuration_def)
  have "length (dequeued sample_writes) < 2 ^ 63" "distinct (dequeued sample_writes)"
    by (simp_all add: sample_writes_def)
  with writer_tick [OF sample_writer_run this step] step show ?thesis
    by auto
qed

text \<open>C40: A message that does not validate kills the session. Once it has been taken from the queue
  (a message type of fewer than ten characters, say), its number is used up, no frame is ever
  sent for it, and unless the remote acknowledges a number it has never seen, the first tick
  more than a minute later ends the goroutine with \<^verbatim>\<open>ErrAckTimeout\<close>, although
  \<^verbatim>\<open>Session.Write\<close> returned no error and nothing is wrong with the connection.\<close>

theorem writer_invalid_message:
  assumes "writer_run (pre @ WMessage a t t' s # post) (h0, writer_init) = Some ((h, w), outs)"
    and "length (dequeued (pre @ WMessage a t t' s # post)) < 2 ^ 63"
    and "distinct (dequeued (pre @ WMessage a t t' s # post))"
    and "n = of_nat (length (dequeued pre))"
    and "ValidateMessage (sealed (numbered n (h0 a))) \<noteq> None"
    and "WAck n \<notin> set post" and "now - t > 60 * 10 ^ 9"
    and "writer_step (WTick now order socket) (h, w) = Some ((h', w'), out)"
  shows "wreturned w' = Some ErrAckTimeout
    \<and> n \<notin> fst ` set (data_frames outs) \<and> n \<notin> fst ` set (resent_frames outs)"
proof -
  let ?es = "pre @ WMessage a t t' s # post" and ?k = "length (dequeued pre)"
  obtain h1 w1 h2 w2 out1 out2 out3 where runs:
    "writer_run pre (h0, writer_init) = Some ((h1, w1), out1)"
    "writer_step (WMessage a t t' s) (h1, w1) = Some ((h2, w2), out2)"
    "writer_run post (h2, w2) = Some ((h, w), out3)"
    using writer_run_append [OF assms(1)] by (auto split: option.splits)
  have "?k < 2 ^ 63"
    using assms(2) by simp
  note inv1 = writer_run_inv(1) [OF runs(1) this] and inv2 = window_inv_step [OF _ this runs(2)]
  have "map_of (unacknowledgedMessages w2) n = Some \<lparr>umessage = a, firstSendTime = t, lastSendTime = t'\<rparr>"
    using runs(2) inv1 assms(4)
    by (auto simp: writer_step_def onMessage_eq window_inv_def update_conv' split: if_splits)
  from writer_run_keeps [OF runs(3) inv2 [OF inv1] _ assms(6) this] assms(2)
  obtain u where u: "map_of (unacknowledgedMessages w) n = Some u" "firstSendTime u = t"
    by auto
  have "wreturned w' = Some ErrAckTimeout"
    using writer_tick_result [OF assms(8)] u assms(7) by (auto simp: timed_out_def resendTimeoutDuration_def)
  moreover have "sent_ok h0 (dequeued ?es) outs"
    using writer_run_inv(2) [OF assms(1-3)] by (simp add: content_inv_def)
  moreover have "frames (numbered (of_nat ?k) (h0 (dequeued ?es ! ?k))) = []"
    using assms(4,5) by (simp add: frames_invalid nth_append)
  ultimately show ?thesis
    using never_sent [of h0 "dequeued ?es" outs ?k] assms(2,4) by simp
qed

definition bad_heap :: heap where
  "bad_heap a = (NewAgentMessage 0 (replicate 16 0))\<lparr>MessageType := ''short''\<rparr>"

lemma bad_frames: "frames (numbered 0 (bad_heap a)) = []" "ValidateMessage (sealed (numbered 0 (bad_heap a))) \<noteq> None"
proof -
  show v: "ValidateMessage (sealed (numbered 0 (bad_heap a))) \<noteq> None"
    by (simp add: ValidateMessage_def sealed_def numbered_def bad_heap_def go_consts)
  show "frames (numbered 0 (bad_heap a)) = []"
    using v by (rule frames_invalid)
qed

theorem writer_invalid_message_witness:
  "\<exists>h w outs h' w' out. writer_run [WMessage 3 0 0 quiet] (bad_heap, writer_init) = Some ((h, w), outs)
    \<and> writer_step (WTick (61 * 10 ^ 9) [0] quiet) (h, w) = Some ((h', w'), out)
    \<and> wreturned w' = Some ErrAckTimeout \<and> outs = []"
proof -
  let ?w = "\<lparr>wreturned = None, nextOutgoingSequenceNumber = 1,
    unacknowledgedMessages = [(0, \<lparr>umessage = 3, firstSendTime = 0, lastSendTime = 0\<rparr>)], writeThrottled = True\<rparr>"
  let ?h = "bad_heap(3 := sealed (numbered 0 (bad_heap 3)))"
  have run: "writer_run ([] @ WMessage 3 0 0 quiet # []) (bad_heap, writer_init) = Some ((?h, ?w), [])"
    by (simp add: writer_step_def writer_enabled_def onMessage_eq writer_init_def maxInflightMessages_def
        bad_frames)
  obtain h' w' out where step: "writer_step (WTick (61 * 10 ^ 9) [0] quiet) (?h, ?w) = Some ((h', w'), out)"
    by (simp add: writer_step_def writer_enabled_def onTick_def resendTimeoutDuration_def)
  have "wreturned w' = Some ErrAckTimeout"
    using writer_invalid_message [OF run _ _ _ _ _ _ step, of 0] bad_frames(2) by simp
  with run step show ?thesis
    by auto
qed

text \<open>Writing the same message again before it is acknowledged loses data. \<^verbatim>\<open>Session.Write\<close>
  keeps the caller's pointer and the goroutine numbers the message in place, so if the same
  pointer is queued twice, both entries of the window hold the message with the later number:
  when the two are resent, both frames carry number 1, and number 0 is never resent, whatever
  happened to its first frame.\<close>

theorem writer_aliasing:
  assumes "sendable (h0 a)" and "t' + 10 ^ 9 < now" and "now \<le> t + 60 * 10 ^ 9"
  shows "\<exists>hw outs f0 f1. writer_run [WMessage a t t' s, WThrottle, WMessage a t t' s, WTick now [0, 1] s]
      (h0, writer_init) = Some (hw, outs)
    \<and> data_frames outs = [(0, f0), (1, f1)] \<and> resent_frames outs = [(0, f1), (1, f1)]
    \<and> Uint64 (slice f0 48 56) = 0 \<and> Uint64 (slice f1 48 56) = 1"
proof -
  let ?m0 = "numbered 0 (h0 a)"
  let ?m1 = "numbered 1 (sealed ?m0)"
  have ok: "sendable ?m0" "sendable ?m1"
    using assms(1) by (simp_all add: sendable_def numbered_def wf_message_def)
  let ?f0 = "wireBytes (sealed ?m0)" and ?f1 = "wireBytes (sealed ?m1)"
  have f: "frames ?m0 = [?f0]" "frames ?m1 = [?f1]"
    using sendable_Marshal [OF ok(1)] sendable_Marshal [OF ok(2)] by (simp_all add: frames_def)
  have number: "Uint64 (slice (wireBytes (sealed m)) 48 56) = SequenceNumber m" if "sendable m" for m
    using that slice_wireBytes(4) [of "sealed m" "[]"] by (simp add: sendable_def wf_message_def)
  have "Uint64 (slice ?f0 48 56) = 0" "Uint64 (slice ?f1 48 56) = 1"
    using number [OF ok(1)] number [OF ok(2)] by (simp_all add: numbered_def)
  moreover have "\<exists>hw. writer_run [WMessage a t t' s, WThrottle, WMessage a t t' s, WTick now [0, 1] s]
      (h0, writer_init) = Some (hw, [SentData 0 ?f0, SentData 1 ?f1, Resent 0 ?f1, Resent 1 ?f1])"
    using assms(2,3)
    by (simp add: writer_step_def writer_enabled_def onMessage_eq writer_init_def maxInflightMessages_def
        onTick_def resendLoop_Some resendTimeoutDuration_def resendIntervalDuration_def f
        del: resendLoop.simps(2))
  ultimately show ?thesis
    by (metis (no_types) data_frames.simps resent_frames.simps)
qed

theorem writer_aliasing_witness:
  "\<exists>hw outs f0 f1. writer_run [WMessage 5 0 0 quiet, WThrottle, WMessage 5 0 0 quiet, WTick (2 * 10 ^ 9) [0, 1] quiet]
      (sample_heap, writer_init) = Some (hw, outs)
    \<and> data_frames outs = [(0, f0), (1, f1)] \<and> resent_frames outs = [(0, f1), (1, f1)]
    \<and> Uint64 (slice f0 48 56) = 0 \<and> Uint64 (slice f1 48 56) = 1"
  by (rule writer_aliasing)
    (simp_all add: sendable_def sample_heap_def NewStreamMessage_def wf_message_def
      NewAgentMessage_def zeroMessage_def zeroTime_def)

end
