(* ===== verification/Go_Chan.thy ===== *)
theory Go_Chan
  imports Ssm_Prelude
begin

text \<open>
  Buffered Go channels. A channel is the list of its buffered values and its capacity; a
  send that would block and a receive that would block are \<^term>\<open>None\<close>. The contract of a
  bounded first-in first-out queue is the locale \<open>bounded_fifo\<close>; its lemmas are what the
  session theories use of the four channels of a session.
\<close>

section \<open>Channels\<close>

record 'a chan =
  chan_buf :: "'a list"
  chan_cap :: nat

definition chan_make :: "nat \<Rightarrow> 'a chan" where
  "chan_make n = \<lparr>chan_buf = [], chan_cap = n\<rparr>"

definition chan_send :: "'a \<Rightarrow> 'a chan \<Rightarrow> 'a chan option" where
  "chan_send x c =
     (if length (chan_buf c) < chan_cap c then Some (c\<lparr>chan_buf := chan_buf c @ [x]\<rparr>) else None)"

definition chan_recv :: "'a chan \<Rightarrow> ('a \<times> 'a chan) option" where
  "chan_recv c = (case chan_buf c of [] \<Rightarrow> None | x # xs \<Rightarrow> Some (x, c\<lparr>chan_buf := xs\<rparr>))"

section \<open>The contract\<close>

datatype 'a queue_op = QSend 'a | QRecv

text \<open>A history of operations that did not block: what was sent and what was received.\<close>

fun queue_run ::
    "('a \<Rightarrow> 'q \<Rightarrow> 'q option) \<Rightarrow> ('q \<Rightarrow> ('a \<times> 'q) option) \<Rightarrow> 'a queue_op list \<Rightarrow> 'q
      \<Rightarrow> ('q \<times> 'a list \<times> 'a list) option" where
  "queue_run snd_op rcv [] q = Some (q, [], [])"
| "queue_run snd_op rcv (QSend x # ops) q =
     (case snd_op x q of
        None \<Rightarrow> None
      | Some q' \<Rightarrow> map_option (\<lambda>(q, ss, rs). (q, x # ss, rs)) (queue_run snd_op rcv ops q'))"
| "queue_run snd_op rcv (QRecv # ops) q =
     (case rcv q of
        None \<Rightarrow> None
      | Some (x, q') \<Rightarrow> map_option (\<lambda>(q, ss, rs). (q, ss, x # rs)) (queue_run snd_op rcv ops q'))"

locale bounded_fifo =
  fixes snd_op :: "'a \<Rightarrow> 'q \<Rightarrow> 'q option"
    and rcv :: "'q \<Rightarrow> ('a \<times> 'q) option"
    and contents :: "'q \<Rightarrow> 'a list"
    and bound :: "'q \<Rightarrow> nat"
  assumes send_None: "snd_op x q = None \<longleftrightarrow> length (contents q) \<ge> bound q"
    and send_contents: "snd_op x q = Some q' \<Longrightarrow> contents q' = contents q @ [x]"
    and send_bound: "snd_op x q = Some q' \<Longrightarrow> bound q' = bound q"
    and recv_None: "rcv q = None \<longleftrightarrow> contents q = []"
    and recv_contents: "rcv q = Some (x, q') \<Longrightarrow> contents q = x # contents q'"
    and recv_bound: "rcv q = Some (x, q') \<Longrightarrow> bound q' = bound q"
begin

lemma send_within: "snd_op x q = Some q' \<Longrightarrow> length (contents q') \<le> bound q'"
  using send_None [of x q] by (simp add: send_contents send_bound)

lemma recv_within:
  "rcv q = Some (x, q') \<Longrightarrow> length (contents q) \<le> bound q \<Longrightarrow> length (contents q') \<le> bound q'"
  using recv_contents [of q x q'] by (simp add: recv_bound)

lemma send_possible: "length (contents q) < bound q \<Longrightarrow> \<exists>q'. snd_op x q = Some q'"
  using send_None [of x q] by (cases "snd_op x q") auto

lemma recv_possible: "contents q \<noteq> [] \<Longrightarrow> \<exists>x q'. rcv q = Some (x, q')"
  using recv_None [of q] by (cases "rcv q") auto

text \<open>What went in is what came out, in order, followed by what is still buffered.\<close>

lemma fifo:
  "queue_run snd_op rcv ops q = Some (q', sent, received) \<Longrightarrow>
     contents q @ sent = received @ contents q' \<and> bound q' = bound q"
proof (induction ops arbitrary: q sent received)
  case (Cons op ops)
  then show ?case
    by (cases op) (fastforce split: option.splits simp: send_contents send_bound
      dest: recv_contents recv_bound)+
qed simp

lemma run_within:
  "queue_run snd_op rcv ops q = Some (q', sent, received) \<Longrightarrow> length (contents q) \<le> bound q \<Longrightarrow>
     length (contents q') \<le> bound q'"
proof (induction ops arbitrary: q sent received)
  case (Cons op ops)
  then show ?case
    by (cases op) (fastforce split: option.splits dest: send_within recv_within)+
qed simp

end

section \<open>Channels meet it\<close>

interpretation ch: bounded_fifo chan_send chan_recv chan_buf chan_cap
  by unfold_locales
    (auto simp: chan_send_def chan_recv_def split: if_splits list.splits)

lemma chan_make_simps [simp]: "chan_buf (chan_make n) = []" "chan_cap (chan_make n) = n"
  by (simp_all add: chan_make_def)

text \<open>The well-formed channels of a given capacity, and the operations keep them so.\<close>

definition chan_ok :: "nat \<Rightarrow> 'a chan \<Rightarrow> bool" where
  "chan_ok n c \<longleftrightarrow> chan_cap c = n \<and> length (chan_buf c) \<le> n"

lemma chan_ok_make [simp]: "chan_ok n (chan_make n)"
  by (simp add: chan_ok_def)

lemma chan_ok_send: "chan_ok n c \<Longrightarrow> chan_send x c = Some c' \<Longrightarrow> chan_ok n c'"
  using ch.send_within ch.send_bound by (fastforce simp: chan_ok_def)

lemma chan_ok_recv: "chan_ok n c \<Longrightarrow> chan_recv c = Some (x, c') \<Longrightarrow> chan_ok n c'"
  using ch.recv_within ch.recv_bound by (fastforce simp: chan_ok_def)

end
