(* ===== verification/Go_Errgroup.thy ===== *)
theory Go_Errgroup
  imports Ssm_Prelude
begin

text \<open>
  \<^verbatim>\<open>golang.org/x/sync/errgroup\<close> is third-party code, so it is a parameter of the models that
  use it: a record of its operations on an abstract state. \<open>errgroup_laws\<close> is what its
  documentation promises of a group made by \<^verbatim>\<open>WithContext\<close>: \<^verbatim>\<open>Wait\<close> gives the first non-nil
  error a function returned, and the derived context is cancelled, with that error as its
  cause, when a function first returns one. (The documentation adds that the first return of
  \<^verbatim>\<open>Wait\<close> cancels the context too; every \<^verbatim>\<open>Wait\<close> of this code is on a context that is
  cancelled by then.) When \<^verbatim>\<open>Wait\<close> returns, which it does when all functions have, is
  expressed by the models, which know their goroutines.

  The session, the stream handler and the mux handler end their groups in the same way: a
  listener returns a private sentinel error after \<^verbatim>\<open>Stop()\<close>, and their \<^verbatim>\<open>Wait\<close> maps it to nil.
\<close>

record 'g errgroup =
  eg_new :: 'g
  eg_return :: "go_error option \<Rightarrow> 'g \<Rightarrow> 'g" \<comment> \<open>a function of the group has returned\<close>
  eg_cause :: "'g \<Rightarrow> go_error option"        \<comment> \<open>\<^verbatim>\<open>context.Cause\<close> of the derived context\<close>
  eg_error :: "'g \<Rightarrow> go_error option"        \<comment> \<open>the result of \<^verbatim>\<open>Wait\<close>\<close>

definition first_of :: "go_error option \<Rightarrow> go_error option \<Rightarrow> go_error option" where
  "first_of a b = (case a of None \<Rightarrow> b | Some e \<Rightarrow> Some e)"

definition errgroup_laws :: "'g errgroup \<Rightarrow> bool" where
  "errgroup_laws G \<longleftrightarrow>
     eg_cause G (eg_new G) = None \<and> eg_error G (eg_new G) = None
     \<and> (\<forall>e g. eg_cause G (eg_return G e g) = first_of (eg_cause G g) e)
     \<and> (\<forall>e g. eg_error G (eg_return G e g) = first_of (eg_error G g) e)"

text \<open>A group that satisfies them: the first error itself.\<close>

definition first_error_group :: "go_error option errgroup" where
  "first_error_group =
     \<lparr>eg_new = None, eg_return = (\<lambda>e g. first_of g e), eg_cause = (\<lambda>g. g), eg_error = (\<lambda>g. g)\<rparr>"

lemma first_error_group_laws: "errgroup_laws first_error_group"
  by (simp add: errgroup_laws_def first_error_group_def)

lemma first_of_simps [simp]:
  "first_of None b = b" "first_of (Some e) b = Some e" "first_of a None = a"
  by (simp_all add: first_of_def split: option.split)

text \<open>\<^verbatim>\<open>ctx.Err()\<close> of the derived context.\<close>

definition ctxErr :: "go_error option \<Rightarrow> go_error option" where
  "ctxErr cause = (if cause = None then None else Some context_Canceled)"

text \<open>The end of the three \<^verbatim>\<open>Wait\<close> methods: the sentinel of a requested stop becomes nil.\<close>

definition waitResult :: "go_error \<Rightarrow> go_error option \<Rightarrow> go_error option" where
  "waitResult stopRequested err = (if err \<noteq> Some stopRequested then err else None)"

text \<open>The branch of a \<^verbatim>\<open>select\<close> between a channel, the caller's context and the group's context.\<close>

datatype select_case = OnChannel | OnCtx | OnGroup

end
