(* ===== verification/Session.thy ===== *)
theory Session
  imports Session_Reader Session_Writer Go_Chan Go_Errgroup
begin

text \<open>
  The session of \<^verbatim>\<open>session.go\<close> as a whole: \<^verbatim>\<open>Start\<close> with the goroutines it spawns, the four
  channels between them, and the methods of the user and of the handler (\<^verbatim>\<open>Stop\<close>, \<^verbatim>\<open>Wait\<close>,
  \<^verbatim>\<open>Read\<close>, \<^verbatim>\<open>Write\<close>). One step is one action of one goroutine, and an event names it together
  with what the environment answered (the dialer, the socket, the handler, which branch a
  \<^verbatim>\<open>select\<close> took). The receiving and the sending goroutine take the steps of
  \<^theory_text>\<open>Session_Reader\<close> and \<^theory_text>\<open>Session_Writer\<close>, with their channels and their context connected.

  \<^verbatim>\<open>Start\<close> may be called again after a call that spawned nothing (a failed dial, or a data channel
  that could not be opened). Calls of \<^verbatim>\<open>Start\<close> at the same time, or after one that spawned the
  goroutines, are not modelled: a session is single-use. The other methods are called by
  anybody, at any time. A panic ends the process: no step follows it.
\<close>

section \<open>State\<close>

definition queueSize :: nat where [go_consts]: "queueSize = 20"

datatype thread = NotStarted | Running | Finished

datatype start_pc =
    StNew                             \<comment> \<open>before \<^verbatim>\<open>Start\<close>\<close>
  | StDialed                          \<comment> \<open>in \<^verbatim>\<open>openDataChannel\<close>\<close>
  | StStarting                        \<comment> \<open>goroutines started, in \<^verbatim>\<open>Handler.Start\<close>\<close>
  | StFailed                          \<comment> \<open>in the \<^verbatim>\<open>errgrp.Wait()\<close> of \<^verbatim>\<open>Start\<close>\<close>
  | StReturned "go_error option"

datatype cleanup_pc = CNotStarted | CWait | CClose | CHandlerStop | CSignal | CFinished

record 'g session =
  outgoingControlMessages :: "agent_message chan"
  outgoingMessages :: "addr chan"
  ackReceived :: "int64 chan"
  incomingDataMessages :: "agent_message chan"
  errgrp :: 'g
  stopped :: bool                     \<comment> \<open>the channel \<^verbatim>\<open>stopped\<close> is closed\<close>
  startPc :: start_pc
  cleanupPc :: cleanup_pc
  stopListener :: thread
  readerThread :: thread
  writerThread :: thread
  handlerWait :: thread
  failThread :: thread                \<comment> \<open>the goroutine of line 196\<close>
  failError :: "go_error option"
  pendingStops :: nat                 \<comment> \<open>calls of \<^verbatim>\<open>Stop\<close> before their deferred \<^verbatim>\<open>signalStop\<close>\<close>
  rd :: reader
  wrt :: writer
  heap :: heap
  allocated :: addr                   \<comment> \<open>the next fresh address\<close>
  wsOpen :: bool
  handlerStopped :: bool              \<comment> \<open>\<^verbatim>\<open>Handler.Stop()\<close> was called by the cleanup goroutine\<close>
  \<comment> \<open>history\<close>
  hIn :: "agent_message list"         \<comment> \<open>messages received from the socket\<close>
  hOut :: "reader_output list"        \<comment> \<open>what the receiver put on its channels\<close>
  hRead :: "agent_message list"       \<comment> \<open>results of \<^verbatim>\<open>Read\<close>\<close>
  hWritten :: "addr list"             \<comment> \<open>messages accepted by \<^verbatim>\<open>Write\<close>\<close>
  hDequeued :: "addr list"            \<comment> \<open>messages taken by the sender\<close>
  hSent :: "writer_output list"       \<comment> \<open>frames given to the socket\<close>
  hHeap :: heap                       \<comment> \<open>messages as their owner built them\<close>

definition session_init :: "'g errgroup \<Rightarrow> 'g session" where
  "session_init G =
     \<lparr>outgoingControlMessages = chan_make queueSize, outgoingMessages = chan_make queueSize,
      ackReceived = chan_make queueSize, incomingDataMessages = chan_make queueSize,
      errgrp = eg_new G, stopped = False, startPc = StNew, cleanupPc = CNotStarted,
      stopListener = NotStarted, readerThread = NotStarted, writerThread = NotStarted,
      handlerWait = NotStarted, failThread = NotStarted, failError = None, pendingStops = 0,
      rd = reader_init, wrt = writer_init, heap = (\<lambda>_. zeroMessage), allocated = 0,
      wsOpen = False, handlerStopped = False, hIn = [], hOut = [], hRead = [], hWritten = [],
      hDequeued = [], hSent = [], hHeap = (\<lambda>_. zeroMessage)\<rparr>"

abbreviation cause :: "'g errgroup \<Rightarrow> 'g session \<Rightarrow> go_error option" where
  "cause G s \<equiv> eg_cause G (errgrp s)"

definition signalStop :: "'g session \<Rightarrow> 'g session" where
  "signalStop s = s\<lparr>stopped := True\<rparr>"

definition goReturn :: "'g errgroup \<Rightarrow> go_error option \<Rightarrow> 'g session \<Rightarrow> 'g session" where
  "goReturn G err s = s\<lparr>errgrp := eg_return G err (errgrp s)\<rparr>"

text \<open>All goroutines of the group that were started have returned.\<close>

definition allReturned :: "'g session \<Rightarrow> bool" where
  "allReturned s \<longleftrightarrow>
     cleanupPc s \<in> {CNotStarted, CFinished} \<and> stopListener s \<noteq> Running
     \<and> readerThread s \<noteq> Running \<and> writerThread s \<noteq> Running \<and> handlerWait s \<noteq> Running
     \<and> failThread s \<noteq> Running"

section \<open>Start\<close>

text \<open>The text frame that opens the data channel: a JSON object of strings, keys sorted.\<close>

definition openDataChannelPayload :: "string \<Rightarrow> string \<Rightarrow> string \<Rightarrow> string \<Rightarrow> bytes" where
  "openDataChannelPayload clientVersion requestId clientId tokenValue =
     bytes_of (json_Encode (JObj
       [(''ClientId'', JStr clientId), (''ClientVersion'', JStr clientVersion),
        (''MessageSchemaVersion'', JStr ''1.0''), (''RequestId'', JStr requestId),
        (''TokenValue'', JStr tokenValue)]))"

definition openDataChannel :: "go_error option \<Rightarrow> go_error option" where
  "openDataChannel writeErr =
     (case writeErr of
        Some err \<Rightarrow> Some (Errorf ''failed to write handshake message: %w'' [err])
      | None \<Rightarrow> None)"

text \<open>
  Nothing guards \<^verbatim>\<open>Start\<close>: it can be called on a new session, and again as long as the calls
  before have failed without spawning a goroutine.
\<close>

definition startable :: "'g session \<Rightarrow> bool" where
  "startable s \<longleftrightarrow>
     cleanupPc s = CNotStarted \<and> (case startPc s of StNew \<Rightarrow> True | StReturned res \<Rightarrow> res \<noteq> None | _ \<Rightarrow> False)"

definition startDial :: "go_error option \<Rightarrow> 'g session \<Rightarrow> 'g session option" where
  "startDial res s =
     (if startable s then
        (case res of
           Some err \<Rightarrow> Some (s\<lparr>startPc := StReturned (Some (wrap2 ErrWebsocketDialFailed err))\<rparr>)
         | None \<Rightarrow> Some (s\<lparr>startPc := StDialed, wsOpen := True\<rparr>))
      else None)"

definition startOpen :: "go_error option \<Rightarrow> go_error option \<Rightarrow> 'g session \<Rightarrow> 'g session option" where
  "startOpen writeErr closeErr s =
     (if startPc s = StDialed then
        (case openDataChannel writeErr of
           Some err \<Rightarrow>
             Some (s\<lparr>wsOpen := False, startPc := StReturned (Some
               (case closeErr of
                  Some wErr \<Rightarrow> Errorf ''%w: %w: %w'' [wErr, ErrOpenDataChannelFailed, err]
                | None \<Rightarrow> wrap2 ErrOpenDataChannelFailed err))\<rparr>)
         | None \<Rightarrow>
             Some (s\<lparr>startPc := StStarting, cleanupPc := CWait, stopListener := Running,
               writerThread := Running, readerThread := Running\<rparr>))
      else None)"

definition startHandler :: "go_error option \<Rightarrow> 'g session \<Rightarrow> 'g session option" where
  "startHandler res s =
     (if startPc s = StStarting then
        (case res of
           Some err \<Rightarrow>
             Some (s\<lparr>startPc := StFailed, failThread := Running,
               failError := Some (Errorf ''handler failed to start: %w'' [err])\<rparr>)
         | None \<Rightarrow> Some (s\<lparr>startPc := StReturned None, handlerWait := Running\<rparr>))
      else None)"

definition startFailed :: "'g errgroup \<Rightarrow> 'g session \<Rightarrow> 'g session option" where
  "startFailed G s =
     (if startPc s = StFailed \<and> allReturned s then
        Some (s\<lparr>startPc := StReturned (eg_error G (errgrp s))\<rparr>)
      else None)"

section \<open>The small goroutines\<close>

definition cleanupStep :: "'g errgroup \<Rightarrow> 'g session \<Rightarrow> 'g session option" where
  "cleanupStep G s =
     (case cleanupPc s of
        CWait \<Rightarrow> if cause G s \<noteq> None then Some (s\<lparr>cleanupPc := CClose\<rparr>) else None
      | CClose \<Rightarrow> Some (s\<lparr>cleanupPc := CHandlerStop, wsOpen := False\<rparr>)
      | CHandlerStop \<Rightarrow> Some (s\<lparr>cleanupPc := CSignal, handlerStopped := True\<rparr>)
      | CSignal \<Rightarrow> Some (goReturn G None ((signalStop s)\<lparr>cleanupPc := CFinished\<rparr>))
      | _ \<Rightarrow> None)"

definition stopListenerStep :: "'g errgroup \<Rightarrow> 'g session \<Rightarrow> 'g session option" where
  "stopListenerStep G s =
     (if stopListener s = Running \<and> stopped s then
        Some (goReturn G (Some errSessionStopRequested) (s\<lparr>stopListener := Finished\<rparr>))
      else None)"

definition failStep :: "'g errgroup \<Rightarrow> 'g session \<Rightarrow> 'g session option" where
  "failStep G s =
     (if failThread s = Running then
        Some (goReturn G (failError s) (s\<lparr>failThread := Finished\<rparr>))
      else None)"

text \<open>\<^verbatim>\<open>Handler.Wait\<close> has returned, with any result.\<close>

definition handlerWaitStep :: "'g errgroup \<Rightarrow> go_error option \<Rightarrow> 'g session \<Rightarrow> 'g session option" where
  "handlerWaitStep G res s =
     (if handlerWait s = Running then
        Some (goReturn G res (s\<lparr>handlerWait := Finished\<rparr>))
      else None)"

section \<open>The receiver and the sender\<close>

text \<open>The answers of the group's context; the other answers are up to the channels and the socket.\<close>

fun readerGate :: "'g errgroup \<Rightarrow> reader_event \<Rightarrow> 'g session \<Rightarrow> bool" where
  "readerGate G (CtxErr err) s = (err = ctxErr (cause G s))"
| "readerGate G (CtxDone c) s = (cause G s = Some c)"
| "readerGate G _ s = True"

fun putOutputs :: "reader_output list \<Rightarrow> 'g session \<Rightarrow> 'g session option" where
  "putOutputs [] s = Some s"
| "putOutputs (ToControl m # outs) s =
     (case chan_send m (outgoingControlMessages s) of
        None \<Rightarrow> None | Some c \<Rightarrow> putOutputs outs (s\<lparr>outgoingControlMessages := c\<rparr>))"
| "putOutputs (ToAckReceived n # outs) s =
     (case chan_send n (ackReceived s) of
        None \<Rightarrow> None | Some c \<Rightarrow> putOutputs outs (s\<lparr>ackReceived := c\<rparr>))"
| "putOutputs (ToHandler m # outs) s =
     (case chan_send m (incomingDataMessages s) of
        None \<Rightarrow> None | Some c \<Rightarrow> putOutputs outs (s\<lparr>incomingDataMessages := c\<rparr>))"

definition readerStep :: "third_party \<Rightarrow> 'g errgroup \<Rightarrow> reader_event \<Rightarrow> 'g session \<Rightarrow> 'g session option" where
  "readerStep tp G e s =
     (if readerThread s = Running \<and> readerGate G e s then
        (case reader_step tp (rpc (rd s)) e (rd s) of
           None \<Rightarrow> None
         | Some (r, out) \<Rightarrow>
             (case putOutputs out s of
                None \<Rightarrow> None
              | Some s \<Rightarrow> Some (s\<lparr>rd := r, hIn := hIn s @ decoded e, hOut := hOut s @ out\<rparr>)))
      else None)"

definition readerReturn :: "'g errgroup \<Rightarrow> 'g session \<Rightarrow> 'g session option" where
  "readerReturn G s =
     (case rpc (rd s) of
        RReturned err \<Rightarrow>
          if readerThread s = Running then
            Some (goReturn G (Some err) (s\<lparr>readerThread := Finished\<rparr>))
          else None
      | _ \<Rightarrow> None)"

text \<open>What a branch of the sender takes from its channel, or needs of the context.\<close>

fun writerTake :: "'g errgroup \<Rightarrow> writer_event \<Rightarrow> 'g session \<Rightarrow> 'g session option" where
  "writerTake G (WAck n) s =
     (case chan_recv (ackReceived s) of
        Some (x, c) \<Rightarrow> if x = n then Some (s\<lparr>ackReceived := c\<rparr>) else None
      | None \<Rightarrow> None)"
| "writerTake G (WControl m socket) s =
     (case chan_recv (outgoingControlMessages s) of
        Some (x, c) \<Rightarrow> if x = m then Some (s\<lparr>outgoingControlMessages := c\<rparr>) else None
      | None \<Rightarrow> None)"
| "writerTake G (WMessage a t t' socket) s =
     (case chan_recv (outgoingMessages s) of
        Some (x, c) \<Rightarrow> if x = a then Some (s\<lparr>outgoingMessages := c\<rparr>) else None
      | None \<Rightarrow> None)"
| "writerTake G (WDone c) s = (if cause G s = Some c then Some s else None)"
| "writerTake G _ s = Some s"

definition writerStep :: "'g errgroup \<Rightarrow> writer_event \<Rightarrow> 'g session \<Rightarrow> 'g session option" where
  "writerStep G e s =
     (if writerThread s = Running then
        (case writer_step e (heap s, wrt s) of
           None \<Rightarrow> None
         | Some ((h, w), out) \<Rightarrow>
             (case writerTake G e s of
                None \<Rightarrow> None
              | Some s \<Rightarrow> Some (s\<lparr>heap := h, wrt := w, hDequeued := hDequeued s @ event_message e,
                  hSent := hSent s @ out\<rparr>)))
      else None)"

definition writerReturn :: "'g errgroup \<Rightarrow> 'g session \<Rightarrow> 'g session option" where
  "writerReturn G s =
     (case wreturned (wrt s) of
        Some err \<Rightarrow>
          if writerThread s = Running then
            Some (goReturn G (Some err) (s\<lparr>writerThread := Finished\<rparr>))
          else None
      | None \<Rightarrow> None)"

section \<open>The methods\<close>

text \<open>
  \<^verbatim>\<open>Stop\<close>: the non-blocking send of a terminate message; the deferred \<^verbatim>\<open>signalStop\<close> is a step of
  its own.
\<close>

definition Stop :: "time \<Rightarrow> bytes \<Rightarrow> 'g session \<Rightarrow> 'g session" where
  "Stop now uid s =
     (case chan_send (NewTerminateSessionMessage now uid) (outgoingControlMessages s) of
        Some c \<Rightarrow> s\<lparr>outgoingControlMessages := c, pendingStops := Suc (pendingStops s)\<rparr>
      | None \<Rightarrow> s\<lparr>pendingStops := Suc (pendingStops s)\<rparr>)"

definition stopReturn :: "'g session \<Rightarrow> 'g session option" where
  "stopReturn s =
     (if pendingStops s > 0 then
        Some (signalStop (s\<lparr>pendingStops := pendingStops s - 1\<rparr>))
      else None)"

text \<open>
  The blocking methods take the branch of the \<^verbatim>\<open>select\<close> and the error of the caller's context
  (\<^term>\<open>None\<close> while it is not done); the result \<^term>\<open>None\<close> is a branch that is not ready.
\<close>

definition Wait :: "'g errgroup \<Rightarrow> select_case \<Rightarrow> go_error option \<Rightarrow> 'g session \<Rightarrow> go_error option option" where
  "Wait G branch ctx s =
     (case branch of
        OnCtx \<Rightarrow> if ctx \<noteq> None then Some ctx else None
      | OnGroup \<Rightarrow>
          if cause G s \<noteq> None \<and> allReturned s then
            Some (waitResult errSessionStopRequested (eg_error G (errgrp s)))
          else None
      | OnChannel \<Rightarrow> None)"

definition Read ::
    "'g errgroup \<Rightarrow> select_case \<Rightarrow> go_error option \<Rightarrow> 'g session
      \<Rightarrow> ((go_error + agent_message) \<times> 'g session) option" where
  "Read G branch ctx s =
     (case branch of
        OnChannel \<Rightarrow>
          map_option (\<lambda>(message, c). (Inr message,
              s\<lparr>incomingDataMessages := c, hRead := hRead s @ [message]\<rparr>))
            (chan_recv (incomingDataMessages s))
      | OnCtx \<Rightarrow> map_option (\<lambda>err. (Inl err, s)) ctx
      | OnGroup \<Rightarrow> map_option (\<lambda>err. (Inl (wrap2 ErrSessionStopped err), s)) (cause G s))"

definition Write ::
    "'g errgroup \<Rightarrow> select_case \<Rightarrow> go_error option \<Rightarrow> addr \<Rightarrow> 'g session
      \<Rightarrow> (go_error option \<times> 'g session) option" where
  "Write G branch ctx message s =
     (case branch of
        OnChannel \<Rightarrow>
          map_option (\<lambda>c. (None, s\<lparr>outgoingMessages := c, hWritten := hWritten s @ [message]\<rparr>))
            (chan_send message (outgoingMessages s))
      | OnCtx \<Rightarrow> map_option (\<lambda>err. (Some err, s)) ctx
      | OnGroup \<Rightarrow> map_option (\<lambda>err. (Some (wrap2 ErrSessionStopped err), s)) (cause G s))"

text \<open>A client builds a message: a fresh address.\<close>

definition newMessage :: "agent_message \<Rightarrow> 'g session \<Rightarrow> 'g session" where
  "newMessage m s =
     s\<lparr>heap := (heap s)(allocated s := m), hHeap := (hHeap s)(allocated s := m),
       allocated := Suc (allocated s)\<rparr>"

section \<open>Steps\<close>

datatype session_event =
    EvDial "go_error option" | EvOpen "go_error option" "go_error option"
  | EvHandlerStart "go_error option" | EvStartFailed
  | EvCleanup | EvStopListener | EvFail | EvHandlerWait "go_error option"
  | EvReader reader_event | EvReaderReturn | EvWriter writer_event | EvWriterReturn
  | EvStop time bytes | EvStopReturn
  | EvNew agent_message
  | EvRead select_case "go_error option" | EvWrite select_case "go_error option" addr

fun session_action :: "third_party \<Rightarrow> 'g errgroup \<Rightarrow> session_event \<Rightarrow> 'g session \<Rightarrow> 'g session option" where
  "session_action tp G (EvDial res) s = startDial res s"
| "session_action tp G (EvOpen w c) s = startOpen w c s"
| "session_action tp G (EvHandlerStart res) s = startHandler res s"
| "session_action tp G EvStartFailed s = startFailed G s"
| "session_action tp G EvCleanup s = cleanupStep G s"
| "session_action tp G EvStopListener s = stopListenerStep G s"
| "session_action tp G EvFail s = failStep G s"
| "session_action tp G (EvHandlerWait res) s = handlerWaitStep G res s"
| "session_action tp G (EvReader e) s = readerStep tp G e s"
| "session_action tp G EvReaderReturn s = readerReturn G s"
| "session_action tp G (EvWriter e) s = writerStep G e s"
| "session_action tp G EvWriterReturn s = writerReturn G s"
| "session_action tp G (EvStop now uid) s = Some (Stop now uid s)"
| "session_action tp G EvStopReturn s = stopReturn s"
| "session_action tp G (EvNew m) s = Some (newMessage m s)"
| "session_action tp G (EvRead b ctx) s = map_option snd (Read G b ctx s)"
| "session_action tp G (EvWrite b ctx a) s =
     (if a < allocated s then map_option snd (Write G b ctx a s) else None)"

text \<open>A panic in the receiver takes the process down.\<close>

definition session_step ::
    "third_party \<Rightarrow> 'g errgroup \<Rightarrow> session_event \<Rightarrow> 'g session \<Rightarrow> 'g session option" where
  "session_step tp G e s = (if rpc (rd s) = RPanicked then None else session_action tp G e s)"

fun session_run ::
    "third_party \<Rightarrow> 'g errgroup \<Rightarrow> session_event list \<Rightarrow> 'g session \<Rightarrow> 'g session option" where
  "session_run tp G [] s = Some s"
| "session_run tp G (e # es) s =
     (case session_step tp G e s of None \<Rightarrow> None | Some t \<Rightarrow> session_run tp G es t)"

inductive session_trans :: "third_party \<Rightarrow> 'g errgroup \<Rightarrow> 'g session \<Rightarrow> 'g session \<Rightarrow> bool"
  for tp G where
  "session_step tp G e s = Some t \<Longrightarrow> session_trans tp G s t"

inductive_cases session_transE [consumes 1, case_names step]: "session_trans tp G s t"

definition session_start :: "'g errgroup \<Rightarrow> 'g session \<Rightarrow> bool" where
  "session_start G s \<longleftrightarrow> s = session_init G"

lemma session_run_reachable:
  "session_run tp G es s = Some t \<Longrightarrow> reachable (session_start G) (session_trans tp G) s \<Longrightarrow>
     reachable (session_start G) (session_trans tp G) t"
proof (induction es arbitrary: s)
  case (Cons e es)
  then obtain u where u: "session_step tp G e s = Some u" "session_run tp G es u = Some t"
    by (auto split: option.splits)
  then have "reachable (session_start G) (session_trans tp G) u"
    using Cons.prems(2) by (blast intro: reach_step session_trans.intros)
  with Cons.IH [OF u(2)] show ?case
    by blast
qed simp

lemma session_run_init:
  "session_run tp G es (session_init G) = Some t \<Longrightarrow>
     reachable (session_start G) (session_trans tp G) t"
  by (erule session_run_reachable) (simp add: reach_init session_start_def)

section \<open>What the connected goroutines do to the channels\<close>

lemmas session_defs =
  startDial_def startOpen_def startHandler_def startFailed_def cleanupStep_def stopListenerStep_def
  failStep_def handlerWaitStep_def readerReturn_def writerReturn_def Stop_def stopReturn_def
  newMessage_def signalStop_def goReturn_def

lemma putOutputs_frame:
  "putOutputs outs s = Some t \<Longrightarrow>
     t = s\<lparr>outgoingControlMessages := outgoingControlMessages t, ackReceived := ackReceived t,
       incomingDataMessages := incomingDataMessages t\<rparr>"
  by (induction outs s rule: putOutputs.induct) (auto split: option.splits)

lemma putOutputs_delivered:
  "putOutputs outs s = Some t \<Longrightarrow>
     chan_buf (incomingDataMessages t) = chan_buf (incomingDataMessages s) @ delivered outs"
  by (induction outs s rule: putOutputs.induct)
    (auto split: option.splits simp: ch.send_contents)

lemma putOutputs_ok:
  "putOutputs outs s = Some t \<Longrightarrow> chan_ok n (outgoingControlMessages s) \<Longrightarrow>
     chan_ok n (outgoingControlMessages t)"
  "putOutputs outs s = Some t \<Longrightarrow> chan_ok n (ackReceived s) \<Longrightarrow> chan_ok n (ackReceived t)"
  "putOutputs outs s = Some t \<Longrightarrow> chan_ok n (incomingDataMessages s) \<Longrightarrow>
     chan_ok n (incomingDataMessages t)"
  by (induction outs s rule: putOutputs.induct) (auto split: option.splits dest: chan_ok_send)

lemma writerTake_frame:
  "writerTake G e s = Some t \<Longrightarrow>
     t = s\<lparr>outgoingControlMessages := outgoingControlMessages t, ackReceived := ackReceived t,
       outgoingMessages := outgoingMessages t\<rparr>"
  by (cases e) (auto split: option.splits if_splits)

lemma writerTake_dequeues:
  "writerTake G e s = Some t \<Longrightarrow>
     chan_buf (outgoingMessages s) = event_message e @ chan_buf (outgoingMessages t)"
proof (cases e)
  case (WMessage a t1 t2 k)
  moreover assume "writerTake G e s = Some t"
  ultimately have "chan_recv (outgoingMessages s) = Some (a, outgoingMessages t)"
    by (auto split: option.splits if_splits)
  from ch.recv_contents [OF this] WMessage show ?thesis
    by simp
qed (auto split: option.splits if_splits)

lemma writerTake_ok:
  assumes "writerTake G e s = Some t"
  shows "chan_ok n (outgoingControlMessages s) \<Longrightarrow> chan_ok n (outgoingControlMessages t)"
    "chan_ok n (ackReceived s) \<Longrightarrow> chan_ok n (ackReceived t)"
    "chan_ok n (outgoingMessages s) \<Longrightarrow> chan_ok n (outgoingMessages t)"
  using assms by (cases e; auto split: option.splits if_splits dest: chan_ok_recv)+

text \<open>A step of the receiver and of the sender, with all that it changes.\<close>

lemma readerStepE:
  assumes "readerStep tp G e s = Some t"
  obtains r out u where "reader_step tp (rpc (rd s)) e (rd s) = Some (r, out)"
    "readerThread s = Running" "readerGate G e s" "putOutputs out s = Some u"
    "t = s\<lparr>outgoingControlMessages := outgoingControlMessages u, ackReceived := ackReceived u,
       incomingDataMessages := incomingDataMessages u, rd := r, hIn := hIn s @ decoded e,
       hOut := hOut s @ out\<rparr>"
proof -
  from assms obtain r out u where *: "reader_step tp (rpc (rd s)) e (rd s) = Some (r, out)"
    "readerThread s = Running" "readerGate G e s" "putOutputs out s = Some u"
    "t = u\<lparr>rd := r, hIn := hIn u @ decoded e, hOut := hOut u @ out\<rparr>"
    by (auto simp: readerStep_def split: if_splits option.splits)
  have "t = s\<lparr>outgoingControlMessages := outgoingControlMessages u, ackReceived := ackReceived u,
       incomingDataMessages := incomingDataMessages u, rd := r, hIn := hIn s @ decoded e,
       hOut := hOut s @ out\<rparr>"
    unfolding *(5) by (subst (1 2 3) putOutputs_frame [OF *(4)]) simp
  with * that show thesis
    by blast
qed

lemma writerStepE:
  assumes "writerStep G e s = Some t"
  obtains h w out u where "writer_step e (heap s, wrt s) = Some ((h, w), out)"
    "writerThread s = Running" "writerTake G e s = Some u"
    "t = s\<lparr>outgoingControlMessages := outgoingControlMessages u, ackReceived := ackReceived u,
       outgoingMessages := outgoingMessages u, heap := h, wrt := w,
       hDequeued := hDequeued s @ event_message e, hSent := hSent s @ out\<rparr>"
proof -
  from assms obtain h w out u where *: "writer_step e (heap s, wrt s) = Some ((h, w), out)"
    "writerThread s = Running" "writerTake G e s = Some u"
    "t = u\<lparr>heap := h, wrt := w, hDequeued := hDequeued u @ event_message e, hSent := hSent u @ out\<rparr>"
    by (auto simp: writerStep_def split: if_splits option.splits)
  have "t = s\<lparr>outgoingControlMessages := outgoingControlMessages u, ackReceived := ackReceived u,
       outgoingMessages := outgoingMessages u, heap := h, wrt := w,
       hDequeued := hDequeued s @ event_message e, hSent := hSent s @ out\<rparr>"
    unfolding *(4) by (subst (1 2 3) writerTake_frame [OF *(3)]) simp
  with * that show thesis
    by blast
qed

section \<open>Invariants\<close>

subsection \<open>The channels never hold more than their capacity\<close>

definition chans_ok :: "'g session \<Rightarrow> bool" where
  "chans_ok s \<longleftrightarrow>
     chan_ok queueSize (outgoingControlMessages s) \<and> chan_ok queueSize (outgoingMessages s)
     \<and> chan_ok queueSize (ackReceived s) \<and> chan_ok queueSize (incomingDataMessages s)"

lemma chans_ok_readerStep: "chans_ok s \<Longrightarrow> readerStep tp G e s = Some t \<Longrightarrow> chans_ok t"
  by (elim readerStepE) (simp add: chans_ok_def putOutputs_ok)

lemma chans_ok_writerStep: "chans_ok s \<Longrightarrow> writerStep G e s = Some t \<Longrightarrow> chans_ok t"
  by (elim writerStepE) (simp add: chans_ok_def writerTake_ok)

lemma chans_ok_step:
  assumes "chans_ok s" and "session_action tp G e s = Some t"
  shows "chans_ok t"
proof (cases e)
  case (EvReader re)
  with assms show ?thesis
    by (auto intro: chans_ok_readerStep)
next
  case (EvWriter we)
  with assms show ?thesis
    by (auto intro: chans_ok_writerStep)
next
  case (EvRead b ctx)
  with assms show ?thesis
    by (auto simp: Read_def chans_ok_def split: select_case.splits dest: chan_ok_recv)
next
  case (EvWrite b ctx a)
  with assms show ?thesis
    by (auto simp: Write_def chans_ok_def split: select_case.splits if_splits dest: chan_ok_send)
next
  case (EvStop now uid)
  with assms show ?thesis
    by (auto simp: Stop_def chans_ok_def split: option.splits dest: chan_ok_send)
qed (use assms in \<open>auto simp: session_defs chans_ok_def
  split: if_splits option.splits cleanup_pc.splits reader_pc.splits\<close>)

interpretation sess_chans: inductive_invariant "session_start G" "session_trans tp G" chans_ok for tp G
proof unfold_locales
  fix s t assume "chans_ok s" "session_trans tp G s t"
  then show "chans_ok t"
    by (auto simp: session_step_def elim!: session_transE intro: chans_ok_step split: if_splits)
qed (simp add: session_start_def session_init_def chans_ok_def)

lemmas step_splits = if_splits option.splits cleanup_pc.splits reader_pc.splits select_case.splits

subsection \<open>From the socket to Read\<close>

text \<open>
  What \<^verbatim>\<open>Read\<close> has returned, followed by what is buffered, is what the receiver delivered.
\<close>

definition read_inv :: "'g session \<Rightarrow> bool" where
  "read_inv s \<longleftrightarrow>
     delivered (hOut s) = hRead s @ chan_buf (incomingDataMessages s)
     \<and> (length (delivered (hOut s)) < 2 ^ 63 \<longrightarrow> reader_inv (hIn s) (hOut s) (rd s))"

lemma read_inv_readerStep:
  assumes "read_inv s" and "readerStep tp G e s = Some t"
  shows "read_inv t"
  using assms(2)
proof (rule readerStepE)
  fix r out u
  assume step: "reader_step tp (rpc (rd s)) e (rd s) = Some (r, out)" "putOutputs out s = Some u"
    and t: "t = s\<lparr>outgoingControlMessages := outgoingControlMessages u, ackReceived := ackReceived u,
       incomingDataMessages := incomingDataMessages u, rd := r, hIn := hIn s @ decoded e,
       hOut := hOut s @ out\<rparr>"
  show "read_inv t"
    using assms(1) reader_inv_step [OF _ step(1), of "hIn s" "hOut s"] putOutputs_delivered [OF step(2)]
    by (auto simp: read_inv_def t)
qed

lemma read_inv_step:
  assumes "read_inv s" and "session_action tp G e s = Some t"
  shows "read_inv t"
proof (cases e)
  case (EvReader re)
  with assms show ?thesis
    by (auto intro: read_inv_readerStep)
next
  case (EvWriter we)
  with assms show ?thesis
    by (auto simp: read_inv_def elim!: writerStepE)
next
  case (EvRead b ctx)
  show ?thesis
  proof (cases b)
    case OnChannel
    with EvRead assms(2) obtain m c where "chan_recv (incomingDataMessages s) = Some (m, c)"
      "t = s\<lparr>incomingDataMessages := c, hRead := hRead s @ [m]\<rparr>"
      by (auto simp: Read_def)
    with assms(1) ch.recv_contents [OF this(1)] show ?thesis
      by (simp add: read_inv_def)
  qed (use assms EvRead in \<open>auto simp: Read_def\<close>)
next
  case (EvWrite b ctx a)
  with assms show ?thesis
    by (auto simp: Write_def read_inv_def split: select_case.splits if_splits)
qed (use assms in \<open>auto simp: session_defs read_inv_def split: step_splits\<close>)

interpretation sess_read: inductive_invariant "session_start G" "session_trans tp G" read_inv for tp G
proof unfold_locales
  fix s t assume "read_inv s" "session_trans tp G s t"
  then show "read_inv t"
    by (auto simp: session_step_def elim!: session_transE intro: read_inv_step split: if_splits)
qed (simp add: session_start_def session_init_def read_inv_def reader_init_def reader_inv_def queue_ok_def)

subsection \<open>From Write to the socket\<close>

text \<open>
  What \<^verbatim>\<open>Write\<close> has accepted is what the sender has taken, followed by what is buffered; the
  messages not yet taken are as their owner built them.
\<close>

definition write_inv :: "'g session \<Rightarrow> bool" where
  "write_inv s \<longleftrightarrow>
     hWritten s = hDequeued s @ chan_buf (outgoingMessages s)
     \<and> set (hWritten s) \<subseteq> {..<allocated s}
     \<and> (length (hDequeued s) < 2 ^ 63 \<longrightarrow>
         window_inv (hDequeued s) (wrt s)
         \<and> (distinct (hDequeued s) \<longrightarrow> content_inv (hHeap s) (hDequeued s) (hSent s) (heap s)))"

lemma content_inv_new:
  assumes "content_inv h0 deq outs h" and "a \<notin> set deq"
  shows "content_inv (h0(a := m)) deq outs (h(a := m))"
proof -
  have "first_frames (h0(a := m)) deq i = first_frames h0 deq i" if "i < length deq" for i
    using that assms(2) by (auto simp: first_frames_def)
  then have maps: "map (first_frames (h0(a := m)) deq) [0..<length deq] = map (first_frames h0 deq) [0..<length deq]"
    "(\<Union>i < length deq. set (first_frames (h0(a := m)) deq i)) = (\<Union>i < length deq. set (first_frames h0 deq i))"
    by simp_all
  have "heap_ok (h0(a := m)) deq (h(a := m))"
    using assms by (auto simp: content_inv_def heap_ok_def)
  with assms(1) show ?thesis
    by (simp add: content_inv_def sent_ok_def maps del: map_eq_conv)
qed

lemma write_inv_writerStep:
  assumes "write_inv s" and "writerStep G e s = Some t"
  shows "write_inv t"
  using assms(2)
proof (rule writerStepE)
  fix h w out u
  assume step: "writer_step e (heap s, wrt s) = Some ((h, w), out)" "writerTake G e s = Some u"
    and t: "t = s\<lparr>outgoingControlMessages := outgoingControlMessages u, ackReceived := ackReceived u,
       outgoingMessages := outgoingMessages u, heap := h, wrt := w,
       hDequeued := hDequeued s @ event_message e, hSent := hSent s @ out\<rparr>"
  show "write_inv t"
    using assms(1) writerTake_dequeues [OF step(2)] window_inv_step [OF _ _ step(1), of "hDequeued s"]
      content_inv_step [OF _ _ step(1), of "hHeap s" "hDequeued s" "hSent s"]
    by (auto simp: write_inv_def t)
qed

lemma write_inv_step:
  assumes "write_inv s" and "session_action tp G e s = Some t"
  shows "write_inv t"
proof (cases e)
  case (EvReader re)
  with assms show ?thesis
    by (auto simp: write_inv_def elim!: readerStepE)
next
  case (EvWriter we)
  with assms show ?thesis
    by (auto intro: write_inv_writerStep)
next
  case (EvNew m)
  have "allocated s \<notin> set (hDequeued s)"
    using assms(1) by (auto simp: write_inv_def)
  with EvNew assms show ?thesis
    by (auto simp: write_inv_def newMessage_def content_inv_new)
next
  case (EvRead b ctx)
  with assms show ?thesis
    by (auto simp: Read_def write_inv_def split: select_case.splits)
next
  case (EvWrite b ctx a)
  show ?thesis
  proof (cases b)
    case OnChannel
    with EvWrite assms(2) obtain c where "chan_send a (outgoingMessages s) = Some c" "a < allocated s"
      "t = s\<lparr>outgoingMessages := c, hWritten := hWritten s @ [a]\<rparr>"
      by (auto simp: Write_def split: if_splits)
    with assms(1) ch.send_contents [OF this(1)] show ?thesis
      by (auto simp: write_inv_def)
  qed (use assms EvWrite in \<open>auto simp: Write_def split: if_splits\<close>)
qed (use assms in \<open>auto simp: session_defs write_inv_def split: step_splits\<close>)

interpretation sess_write: inductive_invariant "session_start G" "session_trans tp G" write_inv for tp G
proof unfold_locales
  fix s t assume "write_inv s" "session_trans tp G s t"
  then show "write_inv t"
    by (auto simp: session_step_def elim!: session_transE intro: write_inv_step split: if_splits)
qed (simp add: session_start_def session_init_def write_inv_def writer_init_def window_inv_def
  content_inv_def heap_ok_def sent_ok_def)

subsection \<open>The life of a session\<close>

definition spawned :: "'g session \<Rightarrow> bool" where
  "spawned s \<longleftrightarrow> cleanupPc s \<noteq> CNotStarted"

text \<open>As long as the goroutines do not exist nothing can cancel the group.\<close>

definition quiet_inv :: "'g errgroup \<Rightarrow> 'g session \<Rightarrow> bool" where
  "quiet_inv G s \<longleftrightarrow>
     (\<not> spawned s \<longrightarrow>
       stopListener s = NotStarted \<and> readerThread s = NotStarted \<and> writerThread s = NotStarted
       \<and> handlerWait s = NotStarted \<and> failThread s = NotStarted \<and> cause G s = None
       \<and> (startPc s \<in> {StNew, StDialed} \<or> (\<exists>e. startPc s = StReturned (Some e))))
     \<and> (spawned s \<longrightarrow>
       stopListener s \<noteq> NotStarted \<and> readerThread s \<noteq> NotStarted \<and> writerThread s \<noteq> NotStarted
       \<and> startPc s \<notin> {StNew, StDialed})"

text \<open>Who has cancelled the group, and how far the cleanup has come.\<close>

definition cause_inv :: "'g errgroup \<Rightarrow> 'g session \<Rightarrow> bool" where
  "cause_inv G s \<longleftrightarrow>
     eg_error G (errgrp s) = cause G s
     \<and> (cause G s = None \<longrightarrow>
         stopListener s \<noteq> Finished \<and> readerThread s \<noteq> Finished \<and> writerThread s \<noteq> Finished
         \<and> failThread s \<noteq> Finished \<and> cleanupPc s \<in> {CNotStarted, CWait})"

definition cleanup_inv :: "'g session \<Rightarrow> bool" where
  "cleanup_inv s \<longleftrightarrow>
     (cleanupPc s \<in> {CHandlerStop, CSignal, CFinished} \<longrightarrow> \<not> wsOpen s)
     \<and> (cleanupPc s \<in> {CSignal, CFinished} \<longrightarrow> handlerStopped s)
     \<and> (cleanupPc s = CFinished \<longrightarrow> stopped s)"

text \<open>The paths of \<^verbatim>\<open>Start\<close>.\<close>

definition start_inv :: "'g session \<Rightarrow> bool" where
  "start_inv s \<longleftrightarrow>
     (startPc s = StStarting \<longrightarrow> handlerWait s = NotStarted \<and> failThread s = NotStarted)
     \<and> (failThread s \<noteq> NotStarted \<longrightarrow> failError s \<noteq> None \<and> handlerWait s = NotStarted
          \<and> (startPc s = StFailed \<or> (\<exists>e. startPc s = StReturned (Some e) \<and> allReturned s)))
     \<and> (startPc s = StFailed \<longrightarrow> failThread s \<noteq> NotStarted)
     \<and> (startPc s = StReturned None \<longrightarrow> handlerWait s \<noteq> NotStarted \<and> failThread s = NotStarted)
     \<and> (\<forall>e. startPc s = StReturned (Some e) \<longrightarrow> spawned s \<longrightarrow> failThread s \<noteq> NotStarted)"

definition life_inv :: "'g errgroup \<Rightarrow> 'g session \<Rightarrow> bool" where
  "life_inv G s \<longleftrightarrow> quiet_inv G s \<and> cause_inv G s \<and> cleanup_inv s \<and> start_inv s"

lemma errgroup_lawsD:
  assumes "errgroup_laws G"
  shows "eg_cause G (eg_new G) = None" "eg_error G (eg_new G) = None"
    "eg_cause G (eg_return G e g) = first_of (eg_cause G g) e"
    "eg_error G (eg_return G e g) = first_of (eg_error G g) e"
  using assms by (simp_all add: errgroup_laws_def)

lemma first_of_None_iff [simp]: "first_of a b = None \<longleftrightarrow> a = None \<and> b = None"
  by (cases a) simp_all

text \<open>The steps that move messages leave the life of the session alone.\<close>

definition same_life :: "'g session \<Rightarrow> 'g session \<Rightarrow> bool" where
  "same_life s t \<longleftrightarrow>
     startPc t = startPc s \<and> cleanupPc t = cleanupPc s \<and> stopListener t = stopListener s
     \<and> readerThread t = readerThread s \<and> writerThread t = writerThread s
     \<and> handlerWait t = handlerWait s \<and> failThread t = failThread s \<and> failError t = failError s
     \<and> errgrp t = errgrp s \<and> wsOpen t = wsOpen s \<and> handlerStopped t = handlerStopped s
     \<and> stopped t = stopped s"

fun moves_messages :: "session_event \<Rightarrow> bool" where
  "moves_messages (EvReader e) = True"
| "moves_messages (EvWriter e) = True"
| "moves_messages (EvRead b ctx) = True"
| "moves_messages (EvWrite b ctx a) = True"
| "moves_messages (EvStop now uid) = True"
| "moves_messages (EvNew m) = True"
| "moves_messages _ = False"

lemma same_life_step:
  assumes "session_action tp G e s = Some t" and "moves_messages e"
  shows "same_life s t"
proof (cases e)
  case (EvReader re)
  with assms(1) show ?thesis
    by (auto simp: same_life_def elim!: readerStepE)
next
  case (EvWriter we)
  with assms(1) show ?thesis
    by (auto simp: same_life_def elim!: writerStepE)
next
  case (EvRead b ctx)
  with assms(1) show ?thesis
    by (auto simp: Read_def same_life_def split: select_case.splits)
next
  case (EvWrite b ctx a)
  with assms(1) show ?thesis
    by (auto simp: Write_def same_life_def split: select_case.splits if_splits)
next
  case (EvStop now uid)
  with assms(1) show ?thesis
    by (auto simp: Stop_def same_life_def split: option.splits)
next
  case (EvNew m)
  with assms(1) show ?thesis
    by (auto simp: newMessage_def same_life_def)
qed (use assms(2) in simp_all)

lemma same_life_inv: "same_life s t \<Longrightarrow> life_inv G t = life_inv G s"
  by (simp add: same_life_def life_inv_def quiet_inv_def cause_inv_def cleanup_inv_def start_inv_def
      spawned_def allReturned_def)

text \<open>The other steps, one lemma each.\<close>

lemmas life_defs = life_inv_def quiet_inv_def cause_inv_def cleanup_inv_def start_inv_def

lemma life_unspawned:
  assumes "life_inv G s" and "startable s \<or> startPc s = StDialed"
  shows "cleanupPc s = CNotStarted" "stopListener s = NotStarted" "readerThread s = NotStarted"
    "writerThread s = NotStarted" "handlerWait s = NotStarted" "failThread s = NotStarted"
    "cause G s = None" "eg_error G (errgrp s) = None"
  using assms by (auto simp: life_inv_def quiet_inv_def cause_inv_def spawned_def startable_def)

lemma life_startDial:
  assumes inv: "life_inv G s" and step: "startDial res s = Some t"
  shows "life_inv G t"
proof -
  have "startable s"
    using step by (simp add: startDial_def split: if_splits)
  with life_unspawned [OF inv] show ?thesis
    using step by (cases res) (auto simp: startDial_def life_defs spawned_def)
qed

lemma life_startOpen:
  assumes inv: "life_inv G s" and step: "startOpen w c s = Some t"
  shows "life_inv G t"
proof -
  have "startPc s = StDialed"
    using step by (simp add: startOpen_def split: if_splits)
  with life_unspawned [OF inv] show ?thesis
    using step by (cases "openDataChannel w") (auto simp: startOpen_def life_defs spawned_def)
qed

lemma life_startHandler:
  assumes inv: "life_inv G s" and step: "startHandler res s = Some t"
  shows "life_inv G t"
proof -
  have s: "startPc s = StStarting"
    using step by (simp add: startHandler_def split: if_splits)
  then have pcs: "handlerWait s = NotStarted" "failThread s = NotStarted" "cleanupPc s \<noteq> CNotStarted"
    using inv by (auto simp: life_inv_def start_inv_def quiet_inv_def spawned_def)
  have quiet: "quiet_inv G s" and cause: "cause_inv G s" and cleanup: "cleanup_inv s"
    using inv by (simp_all add: life_inv_def)
  have t: "t = s\<lparr>startPc := startPc t, failThread := failThread t, failError := failError t,
      handlerWait := handlerWait t\<rparr>"
    and t_fail: "startPc t = StFailed \<and> failThread t = Running \<and> failError t \<noteq> None \<and> handlerWait t = NotStarted
      \<or> startPc t = StReturned None \<and> failThread t = NotStarted \<and> handlerWait t = Running"
    using step pcs by (auto simp: startHandler_def split: if_splits option.splits)
  have "quiet_inv G t"
    using quiet t_fail pcs by (subst t) (auto simp: quiet_inv_def spawned_def)
  moreover have "cause_inv G t"
    using cause t_fail by (subst t) (auto simp: cause_inv_def)
  moreover have "cleanup_inv t"
    using cleanup by (subst t) (simp add: cleanup_inv_def)
  moreover have "start_inv t"
    using t_fail pcs by (auto simp: start_inv_def)
  ultimately show ?thesis
    by (simp add: life_inv_def)
qed

lemma life_startFailed:
  assumes inv: "life_inv G s" and step: "startFailed G s = Some t"
  shows "life_inv G t"
proof -
  have s: "startPc s = StFailed" "allReturned s"
    and t: "t = s\<lparr>startPc := StReturned (eg_error G (errgrp s))\<rparr>"
    using step by (auto simp: startFailed_def split: if_splits)
  have fail: "failThread s = Finished"
    using inv s by (cases "failThread s") (auto simp: life_defs allReturned_def)
  then obtain err where "eg_error G (errgrp s) = Some err"
    using inv by (auto simp: life_inv_def cause_inv_def)
  with inv s fail show ?thesis
    unfolding t by (simp add: life_defs spawned_def allReturned_def)
qed

lemma start_inv_busy:
  assumes "start_inv s" and "\<not> allReturned s" and "startPc t = startPc s" and "failError t = failError s"
    and "(failThread t = NotStarted) = (failThread s = NotStarted)"
    and "(handlerWait t = NotStarted) = (handlerWait s = NotStarted)" and "spawned t = spawned s"
  shows "start_inv t"
proof -
  have "failThread s \<noteq> NotStarted \<Longrightarrow> startPc s = StFailed"
    using assms(1,2) by (auto simp: start_inv_def)
  with assms show ?thesis
    by (cases "failThread s = NotStarted") (simp_all add: start_inv_def)
qed

lemma life_cleanup_core:
  assumes inv: "life_inv G s" and busy: "\<not> allReturned s" and woken: "cause G s \<noteq> None"
    and t: "t = s\<lparr>cleanupPc := pc, wsOpen := ws, handlerStopped := hs, stopped := st, errgrp := g\<rparr>"
    and pc: "cleanupPc s \<noteq> CNotStarted" "pc \<noteq> CNotStarted"
    and group: "eg_cause G g = cause G s" "eg_error G g = cause G s"
    and clean: "cleanup_inv t"
  shows "life_inv G t"
proof -
  have quiet: "quiet_inv G s" and start: "start_inv s"
    using inv by (simp_all add: life_inv_def)
  have "quiet_inv G t"
    using quiet pc unfolding t quiet_inv_def spawned_def by simp
  moreover have "cause_inv G t"
    using woken group unfolding t cause_inv_def by auto
  moreover have "start_inv t"
    using pc unfolding t by (intro start_inv_busy [OF start busy]) (simp_all add: spawned_def)
  ultimately show ?thesis
    using clean by (simp add: life_inv_def)
qed

lemma life_cleanup:
  assumes laws: "errgroup_laws G" and inv: "life_inv G s" and step: "cleanupStep G s = Some t"
  shows "life_inv G t"
proof -
  have cause: "cause_inv G s" and cleanup: "cleanup_inv s"
    using inv by (simp_all add: life_inv_def)
  have busy: "\<not> allReturned s"
    using step by (auto simp: cleanupStep_def allReturned_def split: cleanup_pc.splits)
  have woken: "cause G s \<noteq> None"
    using step cause by (auto simp: cleanupStep_def cause_inv_def split: cleanup_pc.splits if_splits)
  note core = life_cleanup_core [OF inv busy woken]
  show ?thesis
  proof (cases "cleanupPc s")
    case CWait
    with step have "t = s\<lparr>cleanupPc := CClose\<rparr>"
      by (simp add: cleanupStep_def split: if_splits)
    with CWait cause show ?thesis
      by (intro core [where t = t and pc = CClose and ws = "wsOpen s" and hs = "handlerStopped s" and st = "stopped s" and g = "errgrp s"])
        (simp_all add: cleanup_inv_def cause_inv_def)
  next
    case CClose
    with step have "t = s\<lparr>cleanupPc := CHandlerStop, wsOpen := False\<rparr>"
      by (simp add: cleanupStep_def)
    with CClose cause show ?thesis
      by (intro core [where t = t and pc = CHandlerStop and ws = False and hs = "handlerStopped s" and st = "stopped s" and g = "errgrp s"])
        (simp_all add: cleanup_inv_def cause_inv_def)
  next
    case CHandlerStop
    with step have "t = s\<lparr>cleanupPc := CSignal, handlerStopped := True\<rparr>"
      by (simp add: cleanupStep_def)
    with CHandlerStop cause cleanup show ?thesis
      by (intro core [where t = t and pc = CSignal and ws = "wsOpen s" and hs = True and st = "stopped s" and g = "errgrp s"])
        (simp_all add: cleanup_inv_def cause_inv_def)
  next
    case CSignal
    with step have "t = s\<lparr>cleanupPc := CFinished, stopped := True, errgrp := eg_return G None (errgrp s)\<rparr>"
      by (auto simp: cleanupStep_def goReturn_def signalStop_def)
    with CSignal cause cleanup show ?thesis
      by (intro core [where t = t and pc = CFinished and ws = "wsOpen s" and hs = "handlerStopped s" and st = True and g = "eg_return G None (errgrp s)"])
        (simp_all add: cleanup_inv_def cause_inv_def errgroup_lawsD [OF laws])
  qed (use step in \<open>simp_all add: cleanupStep_def\<close>)
qed

text \<open>A goroutine of the group returns: the first error cancels it.\<close>

lemma life_return:
  assumes laws: "errgroup_laws G" and inv: "life_inv G s" and busy: "\<not> allReturned s"
    and t: "t = goReturn G err s'" and s': "cleanupPc s' = cleanupPc s" "startPc s' = startPc s"
      "errgrp s' = errgrp s" "wsOpen s' = wsOpen s" "handlerStopped s' = handlerStopped s"
      "stopped s' = stopped s" "failError s' = failError s"
    and started: "(stopListener s' = NotStarted) = (stopListener s = NotStarted)"
      "(readerThread s' = NotStarted) = (readerThread s = NotStarted)"
      "(writerThread s' = NotStarted) = (writerThread s = NotStarted)"
      "(failThread s' = NotStarted) = (failThread s = NotStarted)"
      "(handlerWait s' = NotStarted) = (handlerWait s = NotStarted)"
    and finished: "err = None \<Longrightarrow> stopListener s' = stopListener s \<and> readerThread s' = readerThread s
      \<and> writerThread s' = writerThread s \<and> failThread s' = failThread s"
    and spawned: "cleanupPc s \<noteq> CNotStarted"
  shows "life_inv G t"
proof -
  have quiet: "quiet_inv G s" and cause: "cause_inv G s" and cleanup: "cleanup_inv s"
    and start: "start_inv s"
    using inv by (simp_all add: life_inv_def)
  have "quiet_inv G t"
    using quiet s' started spawned unfolding t goReturn_def quiet_inv_def spawned_def by simp
  moreover have "cause_inv G t"
  proof (cases err)
    case None
    with cause s' finished show ?thesis
      unfolding t goReturn_def cause_inv_def by (simp add: errgroup_lawsD [OF laws])
  next
    case (Some x)
    with cause s' show ?thesis
      unfolding t goReturn_def cause_inv_def by (simp add: errgroup_lawsD [OF laws])
  qed
  moreover have "cleanup_inv t"
    using cleanup s' by (simp add: cleanup_inv_def t goReturn_def)
  moreover have "start_inv t"
    using s' started by (intro start_inv_busy [OF start busy]) (simp_all add: t goReturn_def spawned_def)
  ultimately show ?thesis
    by (simp add: life_inv_def)
qed

lemma running_spawned:
  assumes "life_inv G s" and "stopListener s = Running \<or> readerThread s = Running
    \<or> writerThread s = Running \<or> handlerWait s = Running \<or> failThread s = Running"
  shows "cleanupPc s \<noteq> CNotStarted"
  using assms by (auto simp: life_inv_def quiet_inv_def spawned_def)

lemma life_inv_step:
  assumes laws: "errgroup_laws G" and inv: "life_inv G s" and step: "session_action tp G e s = Some t"
  shows "life_inv G t"
proof (cases "moves_messages e")
  case True
  with same_life_inv [OF same_life_step [OF step]] inv show ?thesis
    by simp
next
  case False
  then show ?thesis
  proof (cases e)
    case EvStopListener
    with step show ?thesis
      by (intro life_return [OF laws inv, of t "Some errSessionStopRequested" "s\<lparr>stopListener := Finished\<rparr>"])
        (auto simp: stopListenerStep_def allReturned_def intro!: running_spawned [OF inv] split: if_splits)
  next
    case EvFail
    with step have "failThread s = Running" "t = goReturn G (failError s) (s\<lparr>failThread := Finished\<rparr>)"
      by (auto simp: failStep_def split: if_splits)
    moreover from this inv have "failError s \<noteq> None"
      by (auto simp: life_inv_def start_inv_def)
    ultimately show ?thesis
      by (intro life_return [OF laws inv, of t "failError s" "s\<lparr>failThread := Finished\<rparr>"])
        (auto simp: allReturned_def intro!: running_spawned [OF inv])
  next
    case (EvHandlerWait res)
    with step show ?thesis
      by (intro life_return [OF laws inv, of t res "s\<lparr>handlerWait := Finished\<rparr>"])
        (auto simp: handlerWaitStep_def allReturned_def intro!: running_spawned [OF inv] split: if_splits)
  next
    case EvReaderReturn
    with step obtain err where "readerThread s = Running"
      "t = goReturn G (Some err) (s\<lparr>readerThread := Finished\<rparr>)"
      by (auto simp: readerReturn_def split: reader_pc.splits if_splits)
    then show ?thesis
      by (intro life_return [OF laws inv, of t "Some err" "s\<lparr>readerThread := Finished\<rparr>"])
        (auto simp: allReturned_def intro!: running_spawned [OF inv])
  next
    case EvWriterReturn
    with step obtain err where "writerThread s = Running"
      "t = goReturn G (Some err) (s\<lparr>writerThread := Finished\<rparr>)"
      by (auto simp: writerReturn_def split: option.splits if_splits)
    then show ?thesis
      by (intro life_return [OF laws inv, of t "Some err" "s\<lparr>writerThread := Finished\<rparr>"])
        (auto simp: allReturned_def intro!: running_spawned [OF inv])
  next
    case EvStopReturn
    with step have "t = s\<lparr>pendingStops := pendingStops s - 1, stopped := True\<rparr>"
      by (auto simp: stopReturn_def signalStop_def split: if_splits)
    with inv show ?thesis
      unfolding life_inv_def quiet_inv_def cause_inv_def cleanup_inv_def start_inv_def
      by (simp add: spawned_def allReturned_def) blast
  qed (use step life_startDial [OF inv] life_startOpen [OF inv] life_startHandler [OF inv]
    life_startFailed [OF inv] life_cleanup [OF laws inv] in \<open>simp_all\<close>)
qed

interpretation sess_life: inductive_invariant "session_start G" "session_trans tp G"
  "\<lambda>s. errgroup_laws G \<longrightarrow> life_inv G s" for tp G
proof unfold_locales
  fix s t assume "errgroup_laws G \<longrightarrow> life_inv G s" "session_trans tp G s t"
  then show "errgroup_laws G \<longrightarrow> life_inv G t"
    by (auto simp: session_step_def elim!: session_transE intro: life_inv_step split: if_splits)
qed (simp add: session_start_def session_init_def life_inv_def quiet_inv_def cause_inv_def
  cleanup_inv_def start_inv_def spawned_def errgroup_lawsD)

abbreviation sess_reachable :: "third_party \<Rightarrow> 'g errgroup \<Rightarrow> 'g session \<Rightarrow> bool" where
  "sess_reachable tp G \<equiv> reachable (session_start G) (session_trans tp G)"

lemma reachable_life: "sess_reachable tp G s \<Longrightarrow> errgroup_laws G \<Longrightarrow> life_inv G s"
  using sess_life.reachable_inv by blast

end
