(* ===== verification/Handler_Interface.thy ===== *)
theory Handler_Interface
  imports Session
begin

text \<open>
  The interface between a session and its handler (\<^verbatim>\<open>handler/session.go\<close>): \<^verbatim>\<open>SessionReader\<close> and
  \<^verbatim>\<open>SessionWriter\<close> as a pair of functions on a state, with what a handler may rely on as a
  locale. A call that never returns is \<^term>\<open>None\<close>.

  The session provides it: its \<open>Read\<close> and \<open>Write\<close>, with any steps of the other goroutines
  before each call and any choice among the ready branches of the \<^verbatim>\<open>select\<close>.

  The handler of a session that has none of its own is \<^verbatim>\<open>NopHandler\<close> (\<^verbatim>\<open>handler.go\<close>).
\<close>

type_synonym 's read_fun = "'s \<Rightarrow> ((go_error + agent_message) \<times> 's) option"
type_synonym 's write_fun = "agent_message \<Rightarrow> 's \<Rightarrow> (go_error option \<times> 's) option"

text \<open>The adapters of \<^verbatim>\<open>handler/session.go\<close> and \<^verbatim>\<open>session.go\<close> turn a function into the interface.\<close>

definition SessionReaderFunc :: "'s read_fun \<Rightarrow> 's read_fun" where
  "SessionReaderFunc srf = (\<lambda>ctx. srf ctx)"

definition SessionWriterFunc :: "'s write_fun \<Rightarrow> 's write_fun" where
  "SessionWriterFunc swf = (\<lambda>message ctx. swf message ctx)"

section \<open>The contract\<close>

locale session_reader_writer =
  fixes sread :: "'s read_fun"
    and swrite :: "'s write_fun"
    and taken :: "'s \<Rightarrow> agent_message list" \<comment> \<open>the messages Read has returned\<close>
    and given :: "'s \<Rightarrow> agent_message list" \<comment> \<open>the messages Write has accepted\<close>
    and valid :: "'s \<Rightarrow> bool"
  assumes read_valid: "valid s \<Longrightarrow> sread s = Some (r, s') \<Longrightarrow> valid s'"
    and read_given: "valid s \<Longrightarrow> sread s = Some (r, s') \<Longrightarrow> given s' = given s"
    and read_taken: "valid s \<Longrightarrow> sread s = Some (r, s') \<Longrightarrow>
      taken s' = taken s @ (case r of Inr m \<Rightarrow> [m] | Inl _ \<Rightarrow> [])"
    and write_valid: "valid s \<Longrightarrow> swrite m s = Some (e, s') \<Longrightarrow> valid s'"
    and write_taken: "valid s \<Longrightarrow> swrite m s = Some (e, s') \<Longrightarrow> taken s' = taken s"
    and write_given: "valid s \<Longrightarrow> swrite m s = Some (e, s') \<Longrightarrow>
      given s' = given s @ (if e = None then [m] else [])"
begin

lemmas read_laws = read_valid read_given read_taken
lemmas write_laws = write_valid write_given write_taken

end

section \<open>The session provides it\<close>

text \<open>The steps of everybody but the handler.\<close>

fun background :: "session_event \<Rightarrow> bool" where
  "background (EvRead b ctx) = False"
| "background (EvWrite b ctx a) = False"
| "background (EvNew m) = False"
| "background _ = True"

definition alive :: "'g session \<Rightarrow> bool" where
  "alive s \<longleftrightarrow> rpc (rd s) \<noteq> RPanicked"

text \<open>They may be any, unless the receiver panics, which ends the process.\<close>

definition runBackground ::
    "third_party \<Rightarrow> 'g errgroup \<Rightarrow> ('g session \<Rightarrow> session_event list) \<Rightarrow> 'g session \<Rightarrow> 'g session option" where
  "runBackground tp G sched s =
     (case session_run tp G (filter background (sched s)) s of
        None \<Rightarrow> None
      | Some s \<Rightarrow> if alive s then Some s else None)"

definition sessionRead ::
    "third_party \<Rightarrow> 'g errgroup \<Rightarrow> ('g session \<Rightarrow> session_event list) \<Rightarrow> ('g session \<Rightarrow> select_case)
      \<Rightarrow> ('g session \<Rightarrow> go_error option) \<Rightarrow> 'g session read_fun" where
  "sessionRead tp G sched pick ctx s =
     (case runBackground tp G sched s of
        None \<Rightarrow> None
      | Some s \<Rightarrow> Read G (pick s) (ctx s) s)"

definition sessionWrite ::
    "third_party \<Rightarrow> 'g errgroup \<Rightarrow> ('g session \<Rightarrow> session_event list) \<Rightarrow> ('g session \<Rightarrow> select_case)
      \<Rightarrow> ('g session \<Rightarrow> go_error option) \<Rightarrow> 'g session write_fun" where
  "sessionWrite tp G sched pick ctx m s =
     (case runBackground tp G sched s of
        None \<Rightarrow> None
      | Some s \<Rightarrow> Write G (pick s) (ctx s) (allocated s) (newMessage m s))"

definition givenMessages :: "'g session \<Rightarrow> agent_message list" where
  "givenMessages s = map (hHeap s) (hWritten s)"

lemma background_step:
  assumes "session_step tp G e s = Some t" and "background e"
  shows "hRead t = hRead s \<and> hWritten t = hWritten s \<and> hHeap t = hHeap s"
proof -
  have step: "session_action tp G e s = Some t"
    using assms(1) by (simp add: session_step_def split: if_splits)
  show ?thesis
  proof (cases e)
    case (EvReader re)
    with step show ?thesis
      by (auto elim!: readerStepE)
  next
    case (EvWriter we)
    with step show ?thesis
      by (auto elim!: writerStepE)
  qed (use step assms(2) in \<open>auto simp: session_defs split: if_splits option.splits reader_pc.splits cleanup_pc.splits\<close>)
qed

lemma background_run:
  assumes "runBackground tp G sched s = Some t"
  shows "hRead t = hRead s" "givenMessages t = givenMessages s" "write_inv s \<Longrightarrow> write_inv t"
proof -
  have "hRead t = hRead s \<and> hWritten t = hWritten s \<and> hHeap t = hHeap s \<and> (write_inv s \<longrightarrow> write_inv t)"
    if "session_run tp G (filter background es) s = Some t" for es
    using that
  proof (induction es arbitrary: s)
    case (Cons e es)
    show ?case
    proof (cases "background e")
      case True
      with Cons.prems obtain u where u: "session_step tp G e s = Some u"
        "session_run tp G (filter background es) u = Some t"
        by (auto split: option.splits)
      have "write_inv s \<longrightarrow> write_inv u"
        using u(1) write_inv_step by (auto simp: session_step_def split: if_splits)
      with background_step [OF u(1) True] Cons.IH [OF u(2)] show ?thesis
        by simp
    qed (use Cons in simp)
  qed simp
  with assms show "hRead t = hRead s" "givenMessages t = givenMessages s" "write_inv s \<Longrightarrow> write_inv t"
    by (simp_all add: runBackground_def givenMessages_def split: option.splits if_splits)
qed

lemma given_newMessage:
  assumes "write_inv s"
  shows "map (hHeap (newMessage m s)) (hWritten s) = givenMessages s"
proof -
  have "allocated s \<notin> set (hWritten s)"
    using assms by (auto simp: write_inv_def)
  then show ?thesis
    by (simp add: newMessage_def givenMessages_def)
qed

lemma Read_laws:
  assumes "write_inv s" and "Read G b ctx s = Some (r, s')"
  shows "write_inv s'" "givenMessages s' = givenMessages s"
    "hRead s' = hRead s @ (case r of Inr m \<Rightarrow> [m] | Inl _ \<Rightarrow> [])"
proof -
  have "session_action sample_tp G (EvRead b ctx) s = Some s'"
    using assms(2) by simp
  with assms(1) show "write_inv s'"
    by (rule write_inv_step)
  show "givenMessages s' = givenMessages s"
    "hRead s' = hRead s @ (case r of Inr m \<Rightarrow> [m] | Inl _ \<Rightarrow> [])"
    using assms(2) by (auto simp: Read_def givenMessages_def split: select_case.splits)
qed

lemma Write_laws:
  assumes "write_inv s" and "Write G b ctx (allocated s) (newMessage m s) = Some (e, s')"
  shows "write_inv s'" "hRead s' = hRead s"
    "givenMessages s' = givenMessages s @ (if e = None then [m] else [])"
proof -
  have new: "write_inv (newMessage m s)"
    by (rule write_inv_step [of s sample_tp G "EvNew m"]) (simp_all add: assms(1))
  have "session_action sample_tp G (EvWrite b ctx (allocated s)) (newMessage m s) = Some s'"
    using assms(2) by (simp add: newMessage_def)
  with new show "write_inv s'"
    by (rule write_inv_step)
  show "hRead s' = hRead s"
    using assms(2) by (auto simp: Write_def newMessage_def split: select_case.splits)
  have "hHeap s' = hHeap (newMessage m s)"
    "hWritten s' = hWritten s @ (if e = None then [allocated s] else [])"
    using assms(2) by (auto simp: Write_def newMessage_def split: select_case.splits)
  with given_newMessage [OF assms(1), of m] show "givenMessages s' = givenMessages s @ (if e = None then [m] else [])"
    by (simp add: givenMessages_def) (simp add: newMessage_def)
qed

interpretation sess: session_reader_writer "sessionRead tp G sched pick ctx"
  "sessionWrite tp G sched pick ctx" hRead givenMessages write_inv for tp G sched pick ctx
proof unfold_locales
  fix s r s' assume v: "write_inv s" and "sessionRead tp G sched pick ctx s = Some (r, s')"
  then obtain u where u: "runBackground tp G sched s = Some u" "Read G (pick u) (ctx u) u = Some (r, s')"
    by (auto simp: sessionRead_def split: option.splits)
  note Read_laws [OF background_run(3) [OF u(1) v] u(2)] background_run(1,2) [OF u(1)]
  then show "write_inv s'" "givenMessages s' = givenMessages s"
    "hRead s' = hRead s @ (case r of Inr m \<Rightarrow> [m] | Inl _ \<Rightarrow> [])"
    by simp_all
next
  fix s m e s' assume v: "write_inv s" and "sessionWrite tp G sched pick ctx m s = Some (e, s')"
  then obtain u where u: "runBackground tp G sched s = Some u"
    "Write G (pick u) (ctx u) (allocated u) (newMessage m u) = Some (e, s')"
    by (auto simp: sessionWrite_def split: option.splits)
  note Write_laws [OF background_run(3) [OF u(1) v] u(2)] background_run(1,2) [OF u(1)]
  then show "write_inv s'" "hRead s' = hRead s"
    "givenMessages s' = givenMessages s @ (if e = None then [m] else [])"
    by simp_all
qed

section \<open>NopHandler\<close>

text \<open>Its state is whether its channel \<^verbatim>\<open>stopped\<close> is closed.\<close>

definition NopHandler_Start :: "bool \<Rightarrow> go_error option \<times> bool" where
  "NopHandler_Start nstopped = (None, nstopped)"

definition NopHandler_Stop :: "bool \<Rightarrow> bool" where
  "NopHandler_Stop nstopped = True"

definition NopHandler_Wait :: "select_case \<Rightarrow> go_error option \<Rightarrow> bool \<Rightarrow> go_error option option" where
  "NopHandler_Wait branch ctx nstopped =
     (case branch of
        OnChannel \<Rightarrow> if nstopped then Some None else None
      | OnCtx \<Rightarrow> if ctx \<noteq> None then Some ctx else None
      | OnGroup \<Rightarrow> None)"

lemma NopHandler_waits_for_stop:
  "NopHandler_Wait branch None nstopped = Some res \<longleftrightarrow> branch = OnChannel \<and> nstopped \<and> res = None"
  by (auto simp: NopHandler_Wait_def split: select_case.split)

end
