(* ===== verification/Handshake.thy ===== *)
theory Handshake
  imports Handler_Interface "HOL-Library.Monad_Syntax"
begin

text \<open>
  \<^verbatim>\<open>PerformHandshake\<close> of \<^verbatim>\<open>handler/handshake.go\<close>, over any session interface: wait for the
  handshake request, answer it, wait for its completion. The waiting loops have no bound, so
  they are partial functions; \<^term>\<open>None\<close> is a handshake that does not return.
\<close>

definition clientVersion :: string where [go_consts]: "clientVersion = ''1.2.331.1''"

text \<open>Lines 29 to 42 and 58 to 68: read until a message of the wanted payload type.\<close>

partial_function (option) awaitMessage ::
    "'s read_fun \<Rightarrow> u32 \<Rightarrow> 's \<Rightarrow> ((go_error + agent_message) \<times> 's) option" where
  "awaitMessage sread wanted s =
     do {
       (r, s) \<leftarrow> sread s;
       case r of
         Inl err \<Rightarrow> Some (Inl err, s)
       | Inr msg \<Rightarrow> if PayloadType msg = wanted then Some (Inr msg, s) else awaitMessage sread wanted s
     }"

definition PerformHandshake ::
    "'s read_fun \<Rightarrow> 's write_fun \<Rightarrow> time \<Rightarrow> bytes \<Rightarrow> 's \<Rightarrow> ((go_error + string) \<times> 's) option" where
  "PerformHandshake sread swrite now uid s =
     do {
       (r, s) \<leftarrow> awaitMessage sread HandshakeRequest s;
       case r of
         Inl err \<Rightarrow> Some (Inl (wrap2 ErrSessionHandshake err), s)
       | Inr msg \<Rightarrow>
           (case UnmarshalHandshakeRequest (Payload msg) of
              Inl err \<Rightarrow> Some (Inl (wrap2 ErrUnmarshalHandshake err), s)
            | Inr handshakeRequest \<Rightarrow>
                (case NewHandshakeResponse now uid clientVersion (RequestedClientActions handshakeRequest) of
                   Inl err \<Rightarrow> Some (Inl (wrap2 ErrCreateHandshakeResp err), s)
                 | Inr resp \<Rightarrow>
                     do {
                       (e, s) \<leftarrow> swrite resp s;
                       case e of
                         Some err \<Rightarrow> Some (Inl (wrap2 ErrSendHandshakeResp err), s)
                       | None \<Rightarrow>
                           do {
                             (r, s) \<leftarrow> awaitMessage sread HandshakeComplete s;
                             case r of
                               Inl err \<Rightarrow> Some (Inl (wrap2 ErrSessionHandshake err), s)
                             | Inr _ \<Rightarrow> Some (Inr (AgentVersion handshakeRequest), s)
                           }
                     }))
     }"

section \<open>Waiting\<close>

text \<open>A number of reads that succeed, with what they return.\<close>

fun reads :: "'s read_fun \<Rightarrow> nat \<Rightarrow> 's \<Rightarrow> (agent_message list \<times> 's) option" where
  "reads sread 0 s = Some ([], s)"
| "reads sread (Suc n) s =
     (case sread s of
        Some (Inr m, s) \<Rightarrow> map_option (\<lambda>(ms, s). (m # ms, s)) (reads sread n s)
      | _ \<Rightarrow> None)"

text \<open>If the wanted message is the next but \<open>n\<close>, waiting returns it.\<close>

lemma awaitMessage_returns:
  "reads sread (Suc n) s = Some (ms @ [m], s') \<Longrightarrow>
     \<forall>x \<in> set ms. PayloadType x \<noteq> wanted \<Longrightarrow> PayloadType m = wanted \<Longrightarrow>
     awaitMessage sread wanted s = Some (Inr m, s')"
proof (induction n arbitrary: s ms)
  case 0
  then show ?case
    by (subst awaitMessage.simps) (auto split: option.splits sum.splits prod.splits)
next
  case (Suc n)
  then obtain x s1 xs where x: "sread s = Some (Inr x, s1)" "reads sread (Suc n) s1 = Some (xs, s')"
    "ms @ [m] = x # xs"
    by (auto split: option.splits sum.splits prod.splits)
  then obtain ms' where ms: "ms = x # ms'" "xs = ms' @ [m]"
  proof (cases ms)
    case Nil
    with x have "xs = []"
      by simp
    with x(2) show thesis
      by (auto split: option.splits sum.splits prod.splits)
  qed auto
  with Suc.IH [of s1 ms'] Suc.prems x show ?case
    by (subst awaitMessage.simps) simp
qed

lemma awaitMessage_error:
  "reads sread n s = Some (ms, s') \<Longrightarrow> \<forall>x \<in> set ms. PayloadType x \<noteq> wanted \<Longrightarrow>
     sread s' = Some (Inl err, s'') \<Longrightarrow> awaitMessage sread wanted s = Some (Inl err, s'')"
proof (induction n arbitrary: s ms)
  case 0
  then show ?case
    by (subst awaitMessage.simps) simp
next
  case (Suc n)
  then obtain x s1 xs where x: "sread s = Some (Inr x, s1)" "reads sread n s1 = Some (xs, s')" "ms = x # xs"
    by (auto split: option.splits sum.splits prod.splits)
  with Suc.IH [of s1 xs] Suc.prems show ?case
    by (subst awaitMessage.simps) simp
qed

section \<open>What a handshake does to any session\<close>

lemma awaitMessage_induct [consumes 1, case_names error found skip]:
  assumes await: "awaitMessage sread wanted s = Some rs"
    and error: "\<And>s err s'. sread s = Some (Inl err, s') \<Longrightarrow> P s (Inl err, s')"
    and found: "\<And>s m s'. sread s = Some (Inr m, s') \<Longrightarrow> PayloadType m = wanted \<Longrightarrow> P s (Inr m, s')"
    and skip: "\<And>s m s' rs. sread s = Some (Inr m, s') \<Longrightarrow> PayloadType m \<noteq> wanted \<Longrightarrow> P s' rs \<Longrightarrow> P s rs"
  shows "P s rs"
proof -
  have "sr = sread \<longrightarrow> w = wanted \<longrightarrow> P x rs" if "awaitMessage sr w x = Some rs" for sr w x rs
  proof (rule awaitMessage.raw_induct [OF _ that])
    fix f :: "'a read_fun \<Rightarrow> u32 \<Rightarrow> 'a \<Rightarrow> ((go_error + agent_message) \<times> 'a) option"
    fix sr w x rs
    assume IH: "\<And>sr w x rs. f sr w x = Some rs \<Longrightarrow> sr = sread \<longrightarrow> w = wanted \<longrightarrow> P x rs"
      and run: "do {
        (r, s) \<leftarrow> sr x;
        case r of
          Inl err \<Rightarrow> Some (Inl err, s)
        | Inr msg \<Rightarrow> if PayloadType msg = w then Some (Inr msg, s) else f sr w s
      } = Some rs"
    from run obtain r s' where r: "sr x = Some (r, s')"
      and "(case r of Inl err \<Rightarrow> Some (Inl err, s')
        | Inr msg \<Rightarrow> if PayloadType msg = w then Some (Inr msg, s') else f sr w s') = Some rs"
      by (auto simp: bind_eq_Some_conv)
    with IH [of sread wanted s' rs] error found skip [of x _ s' rs]
    show "sr = sread \<longrightarrow> w = wanted \<longrightarrow> P x rs"
      by (cases r) (auto split: if_splits)
  qed
  with await show ?thesis
    by blast
qed

text \<open>A handshake, step by step: the four ways to fail and the one to succeed.\<close>

lemma PerformHandshake_cases:
  assumes "PerformHandshake sread swrite now uid s = Some (res, s')"
  obtains (no_request) err where
    "awaitMessage sread HandshakeRequest s = Some (Inl err, s')" "res = Inl (wrap2 ErrSessionHandshake err)"
  | (bad_request) msg err where
    "awaitMessage sread HandshakeRequest s = Some (Inr msg, s')"
    "UnmarshalHandshakeRequest (Payload msg) = Inl err" "res = Inl (wrap2 ErrUnmarshalHandshake err)"
  | (not_sent) msg req resp err s1 where
    "awaitMessage sread HandshakeRequest s = Some (Inr msg, s1)"
    "UnmarshalHandshakeRequest (Payload msg) = Inr req"
    "NewHandshakeResponse now uid clientVersion (RequestedClientActions req) = Inr resp"
    "swrite resp s1 = Some (Some err, s')" "res = Inl (wrap2 ErrSendHandshakeResp err)"
  | (not_completed) msg req resp err s1 s2 where
    "awaitMessage sread HandshakeRequest s = Some (Inr msg, s1)"
    "UnmarshalHandshakeRequest (Payload msg) = Inr req"
    "NewHandshakeResponse now uid clientVersion (RequestedClientActions req) = Inr resp"
    "swrite resp s1 = Some (None, s2)"
    "awaitMessage sread HandshakeComplete s2 = Some (Inl err, s')"
    "res = Inl (wrap2 ErrSessionHandshake err)"
  | (success) msg req resp m2 s1 s2 where
    "awaitMessage sread HandshakeRequest s = Some (Inr msg, s1)"
    "UnmarshalHandshakeRequest (Payload msg) = Inr req"
    "NewHandshakeResponse now uid clientVersion (RequestedClientActions req) = Inr resp"
    "swrite resp s1 = Some (None, s2)"
    "awaitMessage sread HandshakeComplete s2 = Some (Inr m2, s')" "res = Inr (AgentVersion req)"
proof -
  from assms obtain r s1 where first: "awaitMessage sread HandshakeRequest s = Some (r, s1)"
    by (auto simp: PerformHandshake_def bind_eq_Some_conv)
  note run = assms [unfolded PerformHandshake_def first, simplified]
  show thesis
  proof (cases r)
    case (Inl err)
    with run first no_request show thesis
      by simp
  next
    case msg: (Inr msg)
    show thesis
    proof (cases "UnmarshalHandshakeRequest (Payload msg)")
      case (Inl err)
      with run first msg bad_request show thesis
        by simp
    next
      case req: (Inr req)
      obtain resp where resp:
        "NewHandshakeResponse now uid clientVersion (RequestedClientActions req) = Inr resp"
        by (simp add: NewHandshakeResponse_def)
      note prefix = first [unfolded msg] req resp
      from run msg req resp obtain w s2 where wr: "swrite resp s1 = Some (w, s2)"
        by (auto simp: bind_eq_Some_conv)
      show thesis
      proof (cases w)
        case (Some err)
        with run wr msg req resp not_sent [OF prefix] show thesis
          by simp
      next
        case None
        with run wr msg req resp obtain r2 s3 where
          second: "awaitMessage sread HandshakeComplete s2 = Some (r2, s3)"
          by (auto simp: bind_eq_Some_conv)
        with run wr None msg req resp not_completed [OF prefix] success [OF prefix] show thesis
          by (cases r2) simp_all
      qed
    qed
  qed
qed

lemma PerformHandshake_errors:
  assumes "PerformHandshake sread swrite now uid s = Some (Inl e, s')"
  shows "errors_Is e ErrSessionHandshake \<or> errors_Is e ErrUnmarshalHandshake \<or> errors_Is e ErrSendHandshakeResp"
  using assms by (cases rule: PerformHandshake_cases) simp_all

context session_reader_writer
begin

lemma await_laws:
  assumes "awaitMessage sread wanted s = Some rs" and "valid s"
  shows "valid (snd rs) \<and> given (snd rs) = given s
    \<and> (\<exists>junk. (\<forall>x \<in> set junk. PayloadType x \<noteq> wanted)
         \<and> taken (snd rs) = taken s @ junk @ (case fst rs of Inr m \<Rightarrow> [m] | Inl _ \<Rightarrow> [])
         \<and> (\<forall>m. fst rs = Inr m \<longrightarrow> PayloadType m = wanted))"
  using assms
proof (induction rule: awaitMessage_induct)
  case (error s err s')
  with read_laws [OF error(2,1)] show ?case
    by (auto intro: exI [of _ "[]"])
next
  case (found s m s')
  with read_laws [OF found(3,1)] show ?case
    by (auto intro: exI [of _ "[]"])
next
  case (skip s m s' rs)
  note laws = read_laws [OF skip(4,1)]
  from skip.IH [OF laws(1)] obtain junk where junk: "\<forall>x \<in> set junk. PayloadType x \<noteq> wanted"
    "taken (snd rs) = taken s' @ junk @ (case fst rs of Inr m \<Rightarrow> [m] | Inl _ \<Rightarrow> [])"
    "\<forall>m. fst rs = Inr m \<longrightarrow> PayloadType m = wanted" "valid (snd rs)" "given (snd rs) = given s'"
    by blast
  with laws skip(2) show ?case
    by (intro conjI exI [of _ "m # junk"]) auto
qed

lemma handshake_valid:
  assumes "PerformHandshake sread swrite now uid s = Some (res, s')" and "valid s"
  shows "valid s'"
  using assms(1)
proof (cases rule: PerformHandshake_cases)
  case (not_sent msg req resp err s1)
  from write_laws(1) [OF _ not_sent(4)] await_laws [OF not_sent(1) assms(2)] show ?thesis
    by simp
next
  case (not_completed msg req resp err s1 s2)
  from await_laws [OF not_completed(5)] write_laws(1) [OF _ not_completed(4)]
    await_laws [OF not_completed(1) assms(2)] show ?thesis
    by simp
next
  case (success msg req resp m2 s1 s2)
  from await_laws [OF success(5)] write_laws(1) [OF _ success(4)] await_laws [OF success(1) assms(2)] show ?thesis
    by simp
qed (use await_laws [OF _ assms(2)] in force)+

lemma handshake_success_laws:
  assumes "PerformHandshake sread swrite now uid s = Some (Inr v, s')" and "valid s"
  shows "\<exists>junk1 request junk2 complete req resp.
    taken s' = taken s @ junk1 @ [request] @ junk2 @ [complete]
    \<and> (\<forall>x \<in> set junk1. PayloadType x \<noteq> HandshakeRequest) \<and> PayloadType request = HandshakeRequest
    \<and> (\<forall>x \<in> set junk2. PayloadType x \<noteq> HandshakeComplete) \<and> PayloadType complete = HandshakeComplete
    \<and> UnmarshalHandshakeRequest (Payload request) = Inr req
    \<and> NewHandshakeResponse now uid clientVersion (RequestedClientActions req) = Inr resp
    \<and> given s' = given s @ [resp] \<and> v = AgentVersion req"
  using assms(1)
proof (cases rule: PerformHandshake_cases)
  case (success msg req resp m2 s1 s2)
  then have steps: "awaitMessage sread HandshakeRequest s = Some (Inr msg, s1)"
    "swrite resp s1 = Some (None, s2)" "awaitMessage sread HandshakeComplete s2 = Some (Inr m2, s')"
    and req: "UnmarshalHandshakeRequest (Payload msg) = Inr req" "v = AgentVersion req"
      "NewHandshakeResponse now uid clientVersion (RequestedClientActions req) = Inr resp"
    by simp_all
  from await_laws [OF steps(1) assms(2)] obtain junk1 where 1: "valid s1" "given s1 = given s"
    "\<forall>x \<in> set junk1. PayloadType x \<noteq> HandshakeRequest" "taken s1 = taken s @ junk1 @ [msg]"
    "PayloadType msg = HandshakeRequest"
    by auto
  note 2 = write_laws [OF 1(1) steps(2)]
  from await_laws [OF steps(3) 2(1)] obtain junk2 where "given s' = given s2"
    "\<forall>x \<in> set junk2. PayloadType x \<noteq> HandshakeComplete" "taken s' = taken s2 @ junk2 @ [m2]"
    "PayloadType m2 = HandshakeComplete"
    by auto
  with 1 2 req show ?thesis
    by (intro exI [of _ junk1] exI [of _ msg] exI [of _ junk2] exI [of _ m2] exI [of _ req]
      exI [of _ resp]) simp
qed simp_all

text \<open>A failed handshake has written at most the response, and that only after a request.\<close>

lemma handshake_failure_laws:
  assumes "PerformHandshake sread swrite now uid s = Some (Inl e, s')" and "valid s"
  shows "(given s' = given s \<or>
      (\<exists>request \<in> set (taken s'). PayloadType request = HandshakeRequest
        \<and> (\<exists>req resp. UnmarshalHandshakeRequest (Payload request) = Inr req
          \<and> NewHandshakeResponse now uid clientVersion (RequestedClientActions req) = Inr resp
          \<and> given s' = given s @ [resp] \<and> errors_Is e ErrSessionHandshake)))"
  using assms(1)
proof (cases rule: PerformHandshake_cases)
  case (no_request err)
  with await_laws [OF no_request(1) assms(2)] show ?thesis
    by simp
next
  case (bad_request msg err)
  with await_laws [OF bad_request(1) assms(2)] show ?thesis
    by simp
next
  case (not_sent msg req resp err s1)
  have "valid s1" "given s1 = given s"
    using await_laws [OF not_sent(1) assms(2)] by simp_all
  with write_laws [OF this(1) not_sent(4)] show ?thesis
    by simp
next
  case (not_completed msg req resp err s1 s2)
  from await_laws [OF not_completed(1) assms(2)] have 1: "valid s1" "given s1 = given s"
    "msg \<in> set (taken s1)" "PayloadType msg = HandshakeRequest"
    by auto
  note 2 = write_laws [OF 1(1) not_completed(4)]
  from await_laws [OF not_completed(5) 2(1)] have "given s' = given s2" "set (taken s2) \<subseteq> set (taken s')"
    by auto
  with 1 2 not_completed(2,3,6) show ?thesis
    by auto
qed simp

end

end
