(* ===== verification/Session_Shutdown.thy ===== *)
theory Session_Shutdown
  imports Session
begin

text \<open>
  How a session ends: once its group is cancelled, every goroutine has only a bounded number of
  steps left, and one of them can always be taken. The steps of the handler
  (\<^verbatim>\<open>Handler.Start\<close> and \<^verbatim>\<open>Handler.Wait\<close> returning) are kept apart from the session's own, so that
  the end of the session can be combined with that of a particular handler.
\<close>

section \<open>Shutting down\<close>

text \<open>
  The steps each goroutine still has to take once the group is cancelled. A cancelled session
  that has not ended can always take a step that lowers their number.
\<close>

fun reader_work :: "reader_pc \<Rightarrow> nat" where
  "reader_work (RReturned e) = 1"
| "reader_work RPanicked = 0"
| "reader_work (RAck m) = 3"
| "reader_work (RDrainAck m) = 3"
| "reader_work _ = 2"

fun cleanup_work :: "cleanup_pc \<Rightarrow> nat" where
  "cleanup_work CWait = 4"
| "cleanup_work CClose = 3"
| "cleanup_work CHandlerStop = 2"
| "cleanup_work CSignal = 1"
| "cleanup_work _ = 0"

definition thread_work :: "thread \<Rightarrow> nat" where
  "thread_work th = (if th = Running then 1 else 0)"

definition work :: "'g session \<Rightarrow> nat" where
  "work s =
     (if startPc s = StStarting then 2 else 0) + cleanup_work (cleanupPc s)
     + thread_work (stopListener s) + thread_work (handlerWait s) + thread_work (failThread s)
     + (if writerThread s = Running then if wreturned (wrt s) = None then 2 else 1 else 0)
     + (if readerThread s = Running then reader_work (rpc (rd s)) else 0)"

lemma work_bound: "work s \<le> 14"
proof -
  have "reader_work pc \<le> 3" for pc
    by (cases pc) simp_all
  moreover have "cleanup_work c \<le> 4" for c
    by (cases c) simp_all
  moreover have "thread_work th \<le> 1" for th
    by (simp add: thread_work_def)
  ultimately have "cleanup_work (cleanupPc s) \<le> 4" "thread_work (stopListener s) \<le> 1"
    "thread_work (handlerWait s) \<le> 1" "thread_work (failThread s) \<le> 1"
    "(if writerThread s = Running then if wreturned (wrt s) = None then 2 else 1 else 0) \<le> (2::nat)"
    "(if readerThread s = Running then reader_work (rpc (rd s)) else 0) \<le> 3"
    "(if startPc s = StStarting then 2 else 0) \<le> (2::nat)"
    by simp_all
  then show ?thesis
    unfolding work_def by linarith
qed

text \<open>A cancelled session stays cancelled, and the process does not panic on the way down.\<close>

definition closing :: "'g errgroup \<Rightarrow> 'g session \<Rightarrow> bool" where
  "closing G s \<longleftrightarrow> life_inv G s \<and> cause G s \<noteq> None \<and> rpc (rd s) \<noteq> RPanicked"

text \<open>
  The steps by which a session goes down: none of its user's, and a read only of the closed
  websocket. \<open>goes_down\<close> is one of them that lowers the work left.
\<close>

fun closing_event :: "session_event \<Rightarrow> bool" where
  "closing_event (EvReader (SocketRead (Inr data))) = False"
| "closing_event (EvReader e) = True"
| "closing_event EvReaderReturn = True"
| "closing_event (EvWriter (WDone c)) = True"
| "closing_event EvWriterReturn = True"
| "closing_event EvCleanup = True"
| "closing_event EvStopListener = True"
| "closing_event EvFail = True"
| "closing_event _ = False"

fun handler_returns :: "session_event \<Rightarrow> bool" where
  "handler_returns (EvHandlerStart res) = True"
| "handler_returns (EvHandlerWait res) = True"
| "handler_returns _ = False"

definition goes_down ::
    "third_party \<Rightarrow> 'g errgroup \<Rightarrow> (session_event \<Rightarrow> bool) \<Rightarrow> 'g session \<Rightarrow> bool" where
  "goes_down tp G P s \<longleftrightarrow>
     (\<exists>e t. P e \<and> session_step tp G e s = Some t \<and> work t < work s \<and> closing G t)"

lemma goes_downI:
  "session_step tp G e s = Some t \<Longrightarrow> P e \<Longrightarrow> work t < work s \<Longrightarrow> closing G t \<Longrightarrow> goes_down tp G P s"
  by (auto simp: goes_down_def)

lemma goes_down_mono: "goes_down tp G P s \<Longrightarrow> (\<And>e. P e \<Longrightarrow> Q e) \<Longrightarrow> goes_down tp G Q s"
  unfolding goes_down_def by blast

lemma closing_reader:
  assumes laws: "errgroup_laws G" and s: "closing G s" and run: "readerThread s = Running"
  shows "goes_down tp G closing_event s"
proof -
  obtain c where c: "cause G s = Some c"
    using s by (auto simp: closing_def)
  have live: "rpc (rd s) \<noteq> RPanicked" and inv: "life_inv G s"
    using s by (simp_all add: closing_def)
  have go: ?thesis
    if "readerStep tp G e s = Some t" "reader_work (rpc (rd t)) < reader_work (rpc (rd s))"
      "rpc (rd t) \<noteq> RPanicked" "closing_event (EvReader e)" for e t
  proof -
    have step: "session_action tp G (EvReader e) s = Some t"
      using that(1) by simp
    have same: "same_life s t"
      by (rule same_life_step [OF step]) simp
    have "wrt t = wrt s"
      using that(1) by (auto elim!: readerStepE)
    with same that(2) run have "work t < work s"
      by (simp add: work_def same_life_def)
    moreover have "closing G t"
      using life_inv_step [OF laws inv step] same c that(3) by (simp add: closing_def same_life_def)
    ultimately show ?thesis
      using step live that(4) by (intro goes_downI [where e = "EvReader e" and t = t]) (simp_all add: session_step_def)
  qed
  have stop: ?thesis if "reader_step tp (rpc (rd s)) e (rd s) = Some (r, [])" "readerGate G e s"
      "reader_work (rpc r) < reader_work (rpc (rd s))" "rpc r \<noteq> RPanicked" "closing_event (EvReader e)" for e r
    by (rule go [of e "s\<lparr>rd := r, hIn := hIn s @ decoded e, hOut := hOut s @ []\<rparr>"])
      (use that run in \<open>simp_all add: readerStep_def\<close>)
  show ?thesis
  proof (cases "rpc (rd s)")
    case RTop
    then show ?thesis
      by (intro stop [of "CtxErr (Some context_Canceled)" "(rd s)\<lparr>rpc := RReturned context_Canceled\<rparr>"]) (simp_all add: c ctxErr_def)
  next
    case RRead
    have "rpc (handleRead tp (rd s) (Inl (ExternalErr 0))) = RReturned
        (wrap2 ErrReadWebsocketMessageFailed (if IsCloseError tp (ExternalErr 0) [1000, 1001, 1006]
          then Errorf ''websocket connection is closed: %w'' [io_EOF]
          else Errorf ''failed to read from websocket: %w'' [ExternalErr 0]))"
      by (simp add: handleRead_def readMessage_def)
    with RRead show ?thesis
      by (intro stop [of "SocketRead (Inl (ExternalErr 0))" "handleRead tp (rd s) (Inl (ExternalErr 0))"]) simp_all
  next
    case (RReturned err)
    let ?t = "goReturn G (Some err) (s\<lparr>readerThread := Finished\<rparr>)"
    have step: "session_action tp G EvReaderReturn s = Some ?t"
      using RReturned run by (simp add: readerReturn_def)
    have "work ?t < work s"
      using RReturned run by (simp add: work_def goReturn_def)
    moreover have "closing G ?t"
      using life_inv_step [OF laws inv step] c live
      by (simp add: closing_def goReturn_def errgroup_lawsD [OF laws])
    ultimately show ?thesis
      using step live by (intro goes_downI [where e = EvReaderReturn and t = ?t]) (simp_all add: session_step_def)
  next
    case (RAck m)
    then show ?thesis
      by (intro stop [of "CtxDone c" "afterAck (rd s) m"]) (simp_all add: c afterAck_def)
  next
    case (RDrainAck m)
    then show ?thesis
      by (intro stop [of "CtxDone c" "(rd s)\<lparr>rpc := RDrainDeliver m\<rparr>"]) (simp_all add: c)
  qed (use live in \<open>auto intro!: stop [of "CtxDone c" "(rd s)\<lparr>rpc := RReturned c\<rparr>"] simp: c\<close>)
qed

lemma closing_writer:
  assumes laws: "errgroup_laws G" and s: "closing G s" and run: "writerThread s = Running"
  shows "goes_down tp G closing_event s"
proof -
  obtain c where c: "cause G s = Some c"
    using s by (auto simp: closing_def)
  have live: "rpc (rd s) \<noteq> RPanicked" and inv: "life_inv G s"
    using s by (simp_all add: closing_def)
  show ?thesis
  proof (cases "wreturned (wrt s)")
    case None
    let ?t = "s\<lparr>heap := heap s, wrt := (wrt s)\<lparr>wreturned := Some c\<rparr>, hDequeued := hDequeued s @ [],
      hSent := hSent s @ []\<rparr>"
    have step: "session_action tp G (EvWriter (WDone c)) s = Some ?t"
      using None run by (simp add: writerStep_def writer_step_def writer_enabled_def c)
    moreover have "work ?t < work s"
      using None run by (simp add: work_def)
    moreover have "closing G ?t"
      using life_inv_step [OF laws inv step] c live by (simp add: closing_def)
    ultimately show ?thesis
      using live by (intro goes_downI [where e = "EvWriter (WDone c)" and t = ?t]) (simp_all add: session_step_def)
  next
    case (Some err)
    let ?t = "goReturn G (Some err) (s\<lparr>writerThread := Finished\<rparr>)"
    have step: "session_action tp G EvWriterReturn s = Some ?t"
      using Some run by (simp add: writerReturn_def)
    moreover have "work ?t < work s"
      using Some run by (simp add: work_def goReturn_def)
    moreover have "closing G ?t"
      using life_inv_step [OF laws inv step] c live
      by (simp add: closing_def goReturn_def errgroup_lawsD [OF laws])
    ultimately show ?thesis
      using live by (intro goes_downI [where e = EvWriterReturn and t = ?t]) (simp_all add: session_step_def)
  qed
qed

lemma closing_other:
  assumes laws: "errgroup_laws G" and s: "closing G s"
    and step: "session_action tp G e s = Some t" and work: "work t < work s"
    and e: "e \<in> {EvCleanup, EvStopListener, EvFail, EvHandlerWait None, EvHandlerStart None}" and P: "P e"
  shows "goes_down tp G P s"
proof -
  have live: "rpc (rd s) \<noteq> RPanicked" and inv: "life_inv G s" and c: "cause G s \<noteq> None"
    using s by (simp_all add: closing_def)
  have "rd t = rd s" "cause G t \<noteq> None"
    using step e c
    by (auto simp: session_defs errgroup_lawsD [OF laws] split: cleanup_pc.splits if_splits)
  with life_inv_step [OF laws inv step] live have "closing G t"
    by (simp add: closing_def)
  with step work live P show ?thesis
    by (intro goes_downI [where e = e and t = t]) (simp_all add: session_step_def)
qed

text \<open>What is left when only the handler keeps the session from ending.\<close>

definition quiesced :: "'g session \<Rightarrow> bool" where
  "quiesced s \<longleftrightarrow> cleanupPc s \<in> {CNotStarted, CFinished} \<and> stopListener s \<noteq> Running
     \<and> readerThread s \<noteq> Running \<and> writerThread s \<noteq> Running \<and> failThread s \<noteq> Running"

lemma allReturned_quiesced: "allReturned s \<longleftrightarrow> quiesced s \<and> handlerWait s \<noteq> Running"
  by (auto simp: allReturned_def quiesced_def)

lemma closing_quiesces:
  assumes laws: "errgroup_laws G" and s: "closing G s" and busy: "\<not> quiesced s"
  shows "goes_down tp G closing_event s"
proof -
  have inv: "life_inv G s" and c: "cause G s \<noteq> None"
    using s by (simp_all add: closing_def)
  note other = closing_other [OF laws s]
  consider "readerThread s = Running" | "writerThread s = Running" | "failThread s = Running"
    | "cleanupPc s \<notin> {CNotStarted, CFinished}" | "cleanupPc s \<in> {CNotStarted, CFinished}" "stopListener s = Running"
    using busy by (auto simp: quiesced_def)
  then show ?thesis
  proof cases
    case 1
    then show ?thesis by (rule closing_reader [OF laws s])
  next
    case 2
    then show ?thesis by (rule closing_writer [OF laws s])
  next
    case 3
    then show ?thesis
      by (intro other [of tp EvFail "goReturn G (failError s) (s\<lparr>failThread := Finished\<rparr>)"])
        (simp_all add: failStep_def work_def thread_work_def goReturn_def)
  next
    case 4
    then obtain t where "cleanupStep G s = Some t" "work t < work s"
      using c by (cases "cleanupPc s") (auto simp: cleanupStep_def work_def goReturn_def signalStop_def)
    then show ?thesis
      by (intro other [of tp EvCleanup t]) simp_all
  next
    case 5
    then have "cleanupPc s = CFinished"
      using running_spawned [OF inv] by simp
    then have "stopped s"
      using inv by (simp add: life_inv_def cleanup_inv_def)
    with 5 show ?thesis
      by (intro other [of tp EvStopListener "goReturn G (Some errSessionStopRequested) (s\<lparr>stopListener := Finished\<rparr>)"])
        (simp_all add: stopListenerStep_def work_def thread_work_def goReturn_def)
  qed
qed

lemma closing_progress:
  assumes laws: "errgroup_laws G" and s: "closing G s" and busy: "\<not> (allReturned s \<and> startPc s \<noteq> StStarting)"
  shows "goes_down tp G (\<lambda>e. closing_event e \<or> handler_returns e) s"
proof (cases "quiesced s")
  case False
  show ?thesis
    by (rule goes_down_mono [OF closing_quiesces [OF laws s False]]) simp
next
  case True
  have inv: "life_inv G s"
    using s by (simp add: closing_def)
  from True busy consider "startPc s = StStarting" | "handlerWait s = Running"
    by (auto simp: allReturned_quiesced)
  then show ?thesis
  proof cases
    case 1
    then have "handlerWait s = NotStarted"
      using inv by (simp add: life_inv_def start_inv_def)
    with 1 show ?thesis
      by (intro closing_other [OF laws s, of tp "EvHandlerStart None" "s\<lparr>startPc := StReturned None, handlerWait := Running\<rparr>"])
        (simp_all add: startHandler_def work_def thread_work_def)
  next
    case 2
    then show ?thesis
      by (intro closing_other [OF laws s, of tp "EvHandlerWait None" "goReturn G None (s\<lparr>handlerWait := Finished\<rparr>)"])
        (simp_all add: handlerWaitStep_def work_def thread_work_def goReturn_def)
  qed
qed

text \<open>A run of such steps, to where none is left to take.\<close>

lemma goes_down_run:
  assumes "closing G s" and "\<And>s. closing G s \<Longrightarrow> \<not> fin s \<Longrightarrow> goes_down tp G P s"
  shows "\<exists>es t. length es \<le> work s \<and> list_all P es \<and> session_run tp G es s = Some t \<and> closing G t \<and> fin t"
  using assms(1)
proof (induction "work s" arbitrary: s rule: less_induct)
  case less
  show ?case
  proof (cases "fin s")
    case True
    with less.prems show ?thesis
      by (intro exI [of _ "[]"] exI [of _ s]) simp
  next
    case False
    with assms(2) less.prems obtain e u where
      u: "P e" "session_step tp G e s = Some u" "work u < work s" "closing G u"
      unfolding goes_down_def by blast
    from less.hyps [OF u(3,4)] obtain es t where
      t: "length es \<le> work u" "list_all P es" "session_run tp G es u = Some t" "closing G t" "fin t"
      by blast
    with u show ?thesis
      by (intro exI [of _ "e # es"] exI [of _ t]) simp
  qed
qed

lemma closing_ends:
  assumes laws: "errgroup_laws G" and "closing G s"
  shows "\<exists>es t. length es \<le> work s \<and> session_run tp G es s = Some t \<and> closing G t
    \<and> allReturned t \<and> startPc t \<noteq> StStarting"
proof -
  have "\<exists>es t. length es \<le> work s \<and> list_all (\<lambda>e. closing_event e \<or> handler_returns e) es
      \<and> session_run tp G es s = Some t \<and> closing G t \<and> (allReturned t \<and> startPc t \<noteq> StStarting)"
    by (rule goes_down_run [OF assms(2)], rule closing_progress [OF laws])
  then show ?thesis
    by (elim exE conjE) (intro exI conjI)
qed

text \<open>The session's own part of its end: the handler has been stopped, and no more is left but its \<^verbatim>\<open>Wait\<close>.\<close>

lemma closing_event_keeps:
  assumes "session_step tp G e s = Some t" and "closing_event e"
  shows "handlerWait t = handlerWait s" "startPc t = startPc s" "(cleanupPc t = CNotStarted) = (cleanupPc s = CNotStarted)"
proof -
  have step: "session_action tp G e s = Some t"
    using assms(1) by (simp add: session_step_def split: if_splits)
  have "handlerWait t = handlerWait s \<and> startPc t = startPc s \<and> (cleanupPc t = CNotStarted) = (cleanupPc s = CNotStarted)"
  proof (cases "moves_messages e")
    case True
    with same_life_step [OF step] show ?thesis
      by (simp add: same_life_def)
  next
    case False
    with step assms(2) show ?thesis
      by (cases e) (auto simp: session_defs split: cleanup_pc.splits reader_pc.splits option.splits if_splits)
  qed
  then show "handlerWait t = handlerWait s" "startPc t = startPc s"
    "(cleanupPc t = CNotStarted) = (cleanupPc s = CNotStarted)"
    by simp_all
qed

lemma closing_run_keeps:
  "session_run tp G es s = Some t \<Longrightarrow> list_all closing_event es \<Longrightarrow>
     handlerWait t = handlerWait s \<and> startPc t = startPc s \<and> (cleanupPc t = CNotStarted) = (cleanupPc s = CNotStarted)"
  by (induction es arbitrary: s) (auto simp: closing_event_keeps split: option.splits)

lemma closing_session_quiesces:
  assumes "errgroup_laws G" and "closing G s" and "spawned s"
  shows "\<exists>es t. length es \<le> 14 \<and> list_all closing_event es \<and> session_run tp G es s = Some t
    \<and> closing G t \<and> quiesced t \<and> handlerStopped t \<and> handlerWait t = handlerWait s \<and> startPc t = startPc s"
proof -
  have "\<exists>es t. length es \<le> work s \<and> list_all closing_event es \<and> session_run tp G es s = Some t
      \<and> closing G t \<and> quiesced t"
    by (rule goes_down_run [OF assms(2)], rule closing_quiesces [OF assms(1)])
  then obtain es t where t: "length es \<le> work s" "list_all closing_event es" "session_run tp G es s = Some t"
    "closing G t" "quiesced t"
    by (elim exE conjE)
  note keep = closing_run_keeps [OF t(3,2)]
  have "cleanupPc t = CFinished"
    using keep t(5) assms(3) by (auto simp: quiesced_def spawned_def)
  then have "handlerStopped t"
    using t(4) by (simp add: closing_def life_inv_def cleanup_inv_def)
  with t keep work_bound [of s] show ?thesis
    by (intro exI [of _ es] exI [of _ t]) simp
qed

section \<open>What the steps of a session keep\<close>

lemma session_run_append:
  "session_run tp G es s = Some t \<Longrightarrow> session_run tp G es' t = Some u \<Longrightarrow>
     session_run tp G (es @ es') s = Some u"
  by (induction es arbitrary: s) (auto split: option.splits)

lemma session_step_action: "session_step tp G e s = Some t \<Longrightarrow> session_action tp G e s = Some t"
  by (simp add: session_step_def split: if_splits)

lemmas session_action_splits = cleanup_pc.splits reader_pc.splits option.splits if_splits

lemma session_step_latches:
  assumes "session_step tp G e s = Some t"
  shows "handlerStopped s \<Longrightarrow> handlerStopped t" "stopped s \<Longrightarrow> stopped t"
    "failThread t \<noteq> NotStarted \<Longrightarrow> failThread s \<noteq> NotStarted \<or> (\<exists>x. e = EvHandlerStart (Some x))"
    "failError t = failError s \<or> (\<exists>x. e = EvHandlerStart (Some x)
      \<and> failError t = Some (Errorf ''handler failed to start: %w'' [x]))"
    "handlerWait t = handlerWait s \<or> e = EvHandlerStart None \<and> handlerWait t = Running
      \<or> (\<exists>res. e = EvHandlerWait res \<and> handlerWait t = Finished)"
proof -
  note step = session_step_action [OF assms]
  have "(handlerStopped s \<longrightarrow> handlerStopped t) \<and> (stopped s \<longrightarrow> stopped t)
    \<and> (failThread t \<noteq> NotStarted \<longrightarrow> failThread s \<noteq> NotStarted \<or> (\<exists>x. e = EvHandlerStart (Some x)))
    \<and> (failError t = failError s \<or> (\<exists>x. e = EvHandlerStart (Some x)
        \<and> failError t = Some (Errorf ''handler failed to start: %w'' [x])))
    \<and> (handlerWait t = handlerWait s \<or> e = EvHandlerStart None \<and> handlerWait t = Running
      \<or> (\<exists>res. e = EvHandlerWait res \<and> handlerWait t = Finished))"
  proof (cases "moves_messages e")
    case True
    with same_life_step [OF step] show ?thesis
      by (simp add: same_life_def)
  next
    case False
    with step show ?thesis
      by (cases e) (auto simp: session_defs split: session_action_splits)
  qed
  then show "handlerStopped s \<Longrightarrow> handlerStopped t" "stopped s \<Longrightarrow> stopped t"
    "failThread t \<noteq> NotStarted \<Longrightarrow> failThread s \<noteq> NotStarted \<or> (\<exists>x. e = EvHandlerStart (Some x))"
    "failError t = failError s \<or> (\<exists>x. e = EvHandlerStart (Some x)
      \<and> failError t = Some (Errorf ''handler failed to start: %w'' [x]))"
    "handlerWait t = handlerWait s \<or> e = EvHandlerStart None \<and> handlerWait t = Running
      \<or> (\<exists>res. e = EvHandlerWait res \<and> handlerWait t = Finished)"
    by blast+
qed

section \<open>Why a session was cancelled\<close>

text \<open>
  The error of a goroutine that can be the cause: the receiver's, the sender's, or that of a
  handler that failed to start. The remaining two are the stop listener's and the result of the
  handler's \<^verbatim>\<open>Wait\<close>.
\<close>

definition own_error :: "go_error \<Rightarrow> 'g session \<Rightarrow> bool" where
  "own_error x s \<longleftrightarrow> rpc (rd s) = RReturned x \<or> wreturned (wrt s) = Some x
     \<or> failThread s = Finished \<and> failError s = Some x"

lemma reader_step_stays: "reader_step tp pc e r = Some (r', out) \<Longrightarrow> \<forall>x. pc \<noteq> RReturned x"
  by (auto elim: reader_step_elims)

lemma own_error_stays:
  assumes "session_step tp G e s = Some t" and "own_error x s" and "start_inv s"
  shows "own_error x t"
proof -
  note step = session_step_action [OF assms(1)]
  show ?thesis
  proof (cases e)
    case (EvReader re)
    with step assms(2) show ?thesis
      by (auto simp: own_error_def elim!: readerStepE dest: reader_step_stays)
  next
    case (EvWriter we)
    with step assms(2) show ?thesis
      by (auto simp: own_error_def writer_step_def writer_enabled_def elim!: writerStepE split: if_splits)
  next
    case (EvRead b ctx)
    with step assms(2) show ?thesis
      by (auto simp: Read_def own_error_def split: select_case.splits)
  next
    case (EvWrite b ctx a)
    with step assms(2) show ?thesis
      by (auto simp: Write_def own_error_def split: select_case.splits if_splits)
  next
    case (EvStop now uid)
    with step assms(2) show ?thesis
      by (auto simp: Stop_def own_error_def split: option.splits)
  next
    case (EvHandlerStart res)
    with step assms(2,3) show ?thesis
      by (auto simp: startHandler_def own_error_def start_inv_def split: if_splits option.splits)
  qed (use step assms(2) in \<open>auto simp: session_defs own_error_def newMessage_def split: session_action_splits\<close>)
qed

lemma session_step_cause:
  assumes "errgroup_laws G" and "session_step tp G e s = Some t" and "life_inv G s"
  shows "cause G s = Some x \<Longrightarrow> cause G t = Some x"
    "cause G s = None \<Longrightarrow> cause G t = Some x \<Longrightarrow>
      x = errSessionStopRequested \<or> own_error x t \<or> e = EvHandlerWait (Some x)"
proof -
  note step = session_step_action [OF assms(2)] and laws = errgroup_lawsD [OF assms(1)]
  have "(cause G s = Some x \<longrightarrow> cause G t = Some x) \<and> (cause G s = None \<longrightarrow> cause G t = Some x \<longrightarrow>
      x = errSessionStopRequested \<or> own_error x t \<or> e = EvHandlerWait (Some x))"
  proof (cases "moves_messages e")
    case True
    with same_life_step [OF step] show ?thesis
      by (auto simp: same_life_def)
  next
    case False
    with step show ?thesis
      by (cases e) (auto simp: session_defs laws own_error_def split: session_action_splits)
  qed
  then show "cause G s = Some x \<Longrightarrow> cause G t = Some x"
    "cause G s = None \<Longrightarrow> cause G t = Some x \<Longrightarrow>
      x = errSessionStopRequested \<or> own_error x t \<or> e = EvHandlerWait (Some x)"
    by blast+
qed

text \<open>The handler is stopped by the cleanup goroutine, so after the cancellation.\<close>

lemma handlerStopped_step:
  assumes "errgroup_laws G" and "life_inv G s" and "session_step tp G e s = Some t"
    and "handlerStopped s \<Longrightarrow> cause G s \<noteq> None" and "handlerStopped t"
  shows "cause G t \<noteq> None"
proof (cases "handlerStopped s")
  case True
  then show ?thesis
    using assms(4) session_step_cause(1) [OF assms(1,3,2)] by blast
next
  case False
  note step = session_step_action [OF assms(3)]
  have "cleanupPc s = CHandlerStop \<and> cause G t = cause G s"
  proof (cases "moves_messages e")
    case True
    with same_life_step [OF step] False assms(5) show ?thesis
      by (simp add: same_life_def)
  next
    case no: False
    with step False assms(5) show ?thesis
      by (cases e) (auto simp: session_defs split: session_action_splits)
  qed
  with assms(2) show ?thesis
    by (auto simp: life_inv_def cause_inv_def)
qed

end
