(* ===== verification/Session_Flow.thy ===== *)
theory Session_Flow
  imports Session
begin

text \<open>
  Flow control between a session, its remote and its user: the sender keeps a message until the
  remote has acknowledged its number, and the receiver acknowledges only what it has room for.
  Two invariants of the whole session, of which the bounds on what it holds are consequences.
\<close>

section \<open>What the remote has acknowledged\<close>

text \<open>The numbers that the acknowledgement messages received so far carry.\<close>

definition remote_acks :: "agent_message list \<Rightarrow> int64 list" where
  "remote_acks ins =
     concat (map (\<lambda>m. if MessageType m = Acknowledge
       then (case ParseAcknowledgment m of Inl _ \<Rightarrow> [] | Inr n \<Rightarrow> [n]) else []) ins)"

lemma remote_acks_simps [simp]:
  "remote_acks [] = []" "remote_acks (xs @ ys) = remote_acks xs @ remote_acks ys"
  by (simp_all add: remote_acks_def)

fun reporting :: "reader_pc \<Rightarrow> int64 set" where
  "reporting (RAckReceived n) = {n}"
| "reporting _ = {}"

lemma handleMessage_reports: "reporting (rpc (handleMessage r m)) \<subseteq> set (remote_acks [m])"
proof (cases "MessageType m = Acknowledge")
  case True
  then show ?thesis
    by (cases "ParseAcknowledgment m") (simp_all add: handleMessage_def remote_acks_def)
next
  case False
  then show ?thesis
    by (auto simp: handleMessage_def)
qed

lemma reporting_simps [simp]:
  "reporting (rpc (afterAck r m)) = {}" "reporting (rpc (drainHead r)) = {}"
  by (simp_all add: afterAck_def drainHead_def split: option.split)

text \<open>A number is reported to the sender only if the remote has acknowledged it.\<close>

fun acks_out :: "reader_output list \<Rightarrow> int64 list" where
  "acks_out [] = []"
| "acks_out (ToAckReceived n # outs) = n # acks_out outs"
| "acks_out (_ # outs) = acks_out outs"

lemma reader_step_reports:
  assumes "reader_step tp (rpc r) e r = Some (r', out)"
  shows "reporting (rpc r') \<union> set (acks_out out) \<subseteq> reporting (rpc r) \<union> set (remote_acks (decoded e))"
  using assms
proof (cases rule: reader_stepE)
  case (read res)
  then show ?thesis
    using handleMessage_reports by (cases rule: handleRead_cases [of res tp r]) auto
qed auto

lemma putOutputs_acks:
  "putOutputs outs s = Some t \<Longrightarrow> chan_buf (ackReceived t) = chan_buf (ackReceived s) @ acks_out outs"
  by (induction outs s rule: putOutputs.induct) (auto split: option.splits simp: ch.send_contents)

section \<open>Kept until acknowledged\<close>

definition kept :: "writer \<Rightarrow> int64 set" where
  "kept w = fst ` set (unacknowledgedMessages w)"

definition used :: "nat \<Rightarrow> int64 set" where
  "used k = of_nat ` {..<k}"

lemma used_simps [simp]: "used 0 = {}" "used (Suc k) = insert (of_nat k) (used k)"
  by (simp_all add: used_def lessThan_Suc)

text \<open>Every number used so far is that of a message still kept, or was acknowledged by the remote.\<close>

definition kept_inv :: "'g session \<Rightarrow> bool" where
  "kept_inv s \<longleftrightarrow>
     set (chan_buf (ackReceived s)) \<union> reporting (rpc (rd s)) \<subseteq> set (remote_acks (hIn s))
     \<and> (length (hDequeued s) < 2 ^ 63 \<longrightarrow>
         used (length (hDequeued s)) \<subseteq> kept (wrt s) \<union> set (remote_acks (hIn s)))"

lemma kept_inv_readerStep:
  assumes "kept_inv s" and "readerStep tp G e s = Some t"
  shows "kept_inv t"
  using assms(2)
proof (rule readerStepE)
  fix r out u
  assume step: "reader_step tp (rpc (rd s)) e (rd s) = Some (r, out)" "putOutputs out s = Some u"
    and t: "t = s\<lparr>outgoingControlMessages := outgoingControlMessages u, ackReceived := ackReceived u,
       incomingDataMessages := incomingDataMessages u, rd := r, hIn := hIn s @ decoded e,
       hOut := hOut s @ out\<rparr>"
  show "kept_inv t"
    using assms(1) reader_step_reports [OF step(1)] putOutputs_acks [OF step(2)]
    by (auto simp: kept_inv_def t)
qed

text \<open>A step of the sender forgets only the number it took from \<^verbatim>\<open>ackReceived\<close>.\<close>

fun event_acks :: "writer_event \<Rightarrow> int64 set" where
  "event_acks (WAck n) = {n}"
| "event_acks _ = {}"

lemma kept_onAck: "kept (onAck n w) = kept w - {n}"
  by (auto simp: kept_def onAck_def keys_AList_delete map_of_eq_None_iff simp del: map_of_eq_Some_iff)

lemma kept_update:
  "kept (w\<lparr>unacknowledgedMessages := AList.update n u (unacknowledgedMessages w), nextOutgoingSequenceNumber := k,
     writeThrottled := b\<rparr>) = insert n (kept w)"
  by (simp add: kept_def keys_AList_update)

lemma kept_resendLoop:
  "resendLoop now s order h (unacknowledgedMessages w) = (h', un, out, res) \<Longrightarrow> fst ` set un = kept w"
  unfolding kept_def by (drule resendLoop_keys) (metis list.set_map)

lemma writer_step_kept:
  assumes "writer_step e (h, w) = Some ((h', w'), out)"
  shows "kept w \<subseteq> kept w' \<union> event_acks e"
    and "event_message e \<noteq> [] \<Longrightarrow> nextOutgoingSequenceNumber w \<in> kept w'"
proof -
  have "kept w \<subseteq> kept w' \<union> event_acks e \<and> (event_message e \<noteq> [] \<longrightarrow> nextOutgoingSequenceNumber w \<in> kept w')"
  proof (cases e)
    case (WAck n)
    with assms kept_onAck [of n w] show ?thesis
      by (auto simp: writer_step_def split: if_splits)
  next
    case (WMessage a t1 t2 s)
    with assms show ?thesis
      by (auto simp: writer_step_def onMessage_eq kept_update split: if_splits)
  next
    case (WTick now order s)
    then obtain h1 un res where "resendLoop now s order h (unacknowledgedMessages w) = (h1, un, out, res)"
      and w': "w' = w\<lparr>unacknowledgedMessages := un, wreturned := res\<rparr>"
      using assms by (auto simp: writer_step_def onTick_def split: if_splits prod.splits)
    from kept_resendLoop [OF this(1)] WTick w' show ?thesis
      by (simp add: kept_def)
  qed (use assms in \<open>auto simp: writer_step_def kept_def split: if_splits\<close>)
  then show "kept w \<subseteq> kept w' \<union> event_acks e"
    and "event_message e \<noteq> [] \<Longrightarrow> nextOutgoingSequenceNumber w \<in> kept w'"
    by simp_all
qed

lemma writerTake_acks:
  assumes "writerTake G e s = Some t"
  shows "event_acks e \<union> set (chan_buf (ackReceived t)) \<subseteq> set (chan_buf (ackReceived s))"
proof (cases e)
  case (WAck n)
  with assms have "chan_recv (ackReceived s) = Some (n, ackReceived t)"
    by (auto split: option.splits if_splits)
  from ch.recv_contents [OF this] WAck show ?thesis
    by simp
qed (use assms in \<open>auto split: option.splits if_splits\<close>)

lemma kept_inv_writerStep:
  assumes inv: "kept_inv s" and sent: "write_inv s" and step: "writerStep G e s = Some t"
  shows "kept_inv t"
  using step
proof (rule writerStepE)
  fix h w out u
  assume step: "writer_step e (heap s, wrt s) = Some ((h, w), out)" "writerTake G e s = Some u"
    and t: "t = s\<lparr>outgoingControlMessages := outgoingControlMessages u, ackReceived := ackReceived u,
       outgoingMessages := outgoingMessages u, heap := h, wrt := w,
       hDequeued := hDequeued s @ event_message e, hSent := hSent s @ out\<rparr>"
  note keeps = writer_step_kept [OF step(1)] and takes = writerTake_acks [OF step(2)]
  have acks: "event_acks e \<subseteq> set (remote_acks (hIn s))"
    "set (chan_buf (ackReceived u)) \<union> reporting (rpc (rd s)) \<subseteq> set (remote_acks (hIn s))"
    using takes inv by (auto simp: kept_inv_def)
  have "used (length (hDequeued t)) \<subseteq> kept w \<union> set (remote_acks (hIn s))"
    if len: "length (hDequeued t) < 2 ^ 63"
  proof -
    have "length (hDequeued s) < 2 ^ 63"
      using len by (simp add: t)
    then have n: "nextOutgoingSequenceNumber (wrt s) = of_nat (length (hDequeued s))"
      and "used (length (hDequeued s)) \<subseteq> kept (wrt s) \<union> set (remote_acks (hIn s))"
      using sent inv by (simp_all add: write_inv_def window_inv_def kept_inv_def)
    then have old: "used (length (hDequeued s)) \<subseteq> kept w \<union> set (remote_acks (hIn s))"
      using keeps(1) acks(1) by blast
    show ?thesis
    proof (cases "event_message e = []")
      case True
      with old show ?thesis
        by (simp add: t)
    next
      case False
      then have "length (hDequeued t) = Suc (length (hDequeued s))"
        by (cases e) (simp_all add: t)
      with old keeps(2) [OF False] show ?thesis
        by (simp add: n)
    qed
  qed
  with acks(2) show "kept_inv t"
    by (simp add: kept_inv_def t)
qed

lemma kept_inv_step:
  assumes "kept_inv s" and "write_inv s" and "session_action tp G e s = Some t"
  shows "kept_inv t"
proof (cases e)
  case (EvReader re)
  with assms show ?thesis
    by (auto intro: kept_inv_readerStep)
next
  case (EvWriter we)
  with assms show ?thesis
    by (auto intro: kept_inv_writerStep)
next
  case (EvRead b ctx)
  with assms show ?thesis
    unfolding kept_inv_def by (auto simp: Read_def simp del: image_subset_iff split: select_case.splits)
next
  case (EvWrite b ctx a)
  with assms show ?thesis
    by (auto simp: Write_def kept_inv_def split: select_case.splits if_splits)
qed (use assms in \<open>auto simp: session_defs kept_inv_def split: step_splits\<close>)

interpretation sess_kept: inductive_invariant "session_start G" "session_trans tp G"
  "\<lambda>s. write_inv s \<and> kept_inv s" for tp G
proof unfold_locales
  fix s t assume inv: "write_inv s \<and> kept_inv s" and "session_trans tp G s t"
  then have "write_inv t"
    using sess_write.inv_step by blast
  with inv \<open>session_trans tp G s t\<close> show "write_inv t \<and> kept_inv t"
    by (auto simp: session_step_def elim!: session_transE intro: kept_inv_step split: if_splits)
next
  fix s :: "'a session" assume "session_start G s"
  with sess_write.inv_init show "write_inv s \<and> kept_inv s"
    by (auto simp: session_start_def session_init_def kept_inv_def reader_init_def)
qed

text \<open>So the sender is never further ahead of the acknowledgements than its window.\<close>

lemma card_used: "k < 2 ^ 63 \<Longrightarrow> card (used k) = k"
proof -
  assume "k < 2 ^ 63"
  then have "inj_on (\<lambda>i. of_nat i :: int64) {..<k}"
    by (intro inj_on_inverseI [where g = "\<lambda>n. nat (sint n)"]) simp
  then show ?thesis
    by (simp add: used_def card_image)
qed

lemma card_kept: "card (kept w) \<le> length (unacknowledgedMessages w)"
  unfolding kept_def by (metis card_length length_map list.set_map)

lemma sender_ahead:
  assumes "write_inv s" and "kept_inv s" and "chans_ok s" and "length (hWritten s) < 2 ^ 63"
  shows "length (hWritten s) \<le> card (set (remote_acks (hIn s))) + 30"
    and "length (unacknowledgedMessages (wrt s)) \<le> 10"
    and "used (length (hDequeued s)) \<subseteq> kept (wrt s) \<union> set (remote_acks (hIn s))"
proof -
  let ?k = "length (hDequeued s)" and ?acks = "set (remote_acks (hIn s))"
  have queue: "length (hWritten s) \<le> ?k + 20" "?k < 2 ^ 63"
    using assms(1,3,4) by (simp_all add: write_inv_def chans_ok_def chan_ok_def queueSize_def)
  then show window: "length (unacknowledgedMessages (wrt s)) \<le> 10"
    using assms(1) by (simp add: write_inv_def window_inv_def maxInflightMessages_def)
  show used: "used ?k \<subseteq> kept (wrt s) \<union> ?acks"
    using assms(2) queue(2) by (simp add: kept_inv_def)
  have "?k = card (used ?k)"
    by (simp add: card_used [OF queue(2)])
  also have "\<dots> \<le> card (kept (wrt s) \<union> ?acks)"
    by (rule card_mono [OF _ used]) (simp add: kept_def)
  also have "\<dots> \<le> card (kept (wrt s)) + card ?acks"
    by (rule card_Un_le)
  finally show "length (hWritten s) \<le> card ?acks + 30"
    using queue(1) card_kept [of "wrt s"] window by linarith
qed

section \<open>Acknowledged only with room\<close>

text \<open>The numbers of data messages that were acknowledged to the remote.\<close>

definition accepted :: "reader_output list \<Rightarrow> int64 list" where
  "accepted outs = filter (\<lambda>n. 0 \<le> sint n) (acked outs)"

lemma accepted_append [simp]: "accepted (xs @ ys) = accepted xs @ accepted ys"
  by (simp add: accepted_def)

lemma accepted_running:
  assumes "reader_inv ins outs r" and "ack_safe outs r" and "running (rpc r)"
  shows "card (set (accepted outs)) \<le> length (delivered outs) + 51"
proof -
  let ?k = "length (delivered outs)"
  have "n \<in> used ?k" if "n \<in> below ?k" "0 \<le> sint n" for n
  proof -
    have "n = of_nat (nat (sint n))"
      using that(2) by (intro int64_eq_of_nat) simp
    moreover have "nat (sint n) < ?k"
      using that by (simp add: below_def nat_less_iff)
    ultimately show ?thesis
      unfolding used_def by blast
  qed
  with assms(2,3) have sub: "set (accepted outs) \<subseteq> used ?k \<union> (queued r \<union> delivering (rpc r))"
    by (auto simp: accepted_def ack_safe_def)
  have "card (used ?k) \<le> ?k"
    unfolding used_def by (rule card_image_le [THEN le_trans]) simp_all
  moreover have "card (queued r) \<le> 50"
  proof -
    have "card (queued r) \<le> length (outOfOrderMessages r)"
      unfolding queued_def by (metis card_length length_map list.set_map)
    with assms(1) show ?thesis
      by (simp add: reader_inv_def Let_def queue_ok_def maxOutOfOrderMessages_def)
  qed
  moreover have "card (delivering (rpc r)) \<le> 1" "finite (delivering (rpc r))"
    by (cases "rpc r"; simp)+
  moreover have "card (set (accepted outs)) \<le> card (used ?k \<union> (queued r \<union> delivering (rpc r)))"
    using sub by (rule card_mono [rotated]) (simp add: used_def queued_def calculation)
  ultimately show ?thesis
    using card_Un_le [of "used ?k" "queued r \<union> delivering (rpc r)"]
      card_Un_le [of "queued r" "delivering (rpc r)"] by linarith
qed

text \<open>A step that ends the goroutine acknowledges nothing.\<close>

lemma reader_stops_silently:
  assumes "reader_step tp (rpc r) e r = Some (r', out)" and "\<not> running (rpc r')"
  shows "out = []"
  using assms(1)
proof (cases rule: reader_stepE)
  case (read res)
  then show ?thesis
    by simp
qed (use assms(2) in auto)

definition receive_inv :: "'g session \<Rightarrow> bool" where
  "receive_inv s \<longleftrightarrow>
     (length (delivered (hOut s)) < 2 ^ 63 \<longrightarrow>
       ack_safe (hOut s) (rd s) \<and> card (set (accepted (hOut s))) \<le> length (delivered (hOut s)) + 51)"

lemma receive_inv_readerStep:
  assumes inv: "receive_inv s" and read: "read_inv s" and step: "readerStep tp G e s = Some t"
  shows "receive_inv t"
  using step
proof (rule readerStepE)
  fix r out u
  assume step: "reader_step tp (rpc (rd s)) e (rd s) = Some (r, out)"
    and t: "t = s\<lparr>outgoingControlMessages := outgoingControlMessages u, ackReceived := ackReceived u,
       incomingDataMessages := incomingDataMessages u, rd := r, hIn := hIn s @ decoded e,
       hOut := hOut s @ out\<rparr>"
  have "ack_safe (hOut s @ out) r
      \<and> card (set (accepted (hOut s @ out))) \<le> length (delivered (hOut s @ out)) + 51"
    if len: "length (delivered (hOut s @ out)) < 2 ^ 63"
  proof -
    have k: "length (delivered (hOut s)) < 2 ^ 63"
      using len by simp
    then have old: "reader_inv (hIn s) (hOut s) (rd s)" "ack_safe (hOut s) (rd s)"
      "card (set (accepted (hOut s))) \<le> length (delivered (hOut s)) + 51"
      using inv read by (simp_all add: receive_inv_def read_inv_def)
    note safe = ack_safe_step [OF old(1,2) step len] and inv' = reader_inv_step [OF old(1) step len]
    show ?thesis
    proof (cases "running (rpc r)")
      case True
      with accepted_running [OF inv' safe] safe show ?thesis
        by simp
    next
      case False
      with reader_stops_silently [OF step] old(3) safe show ?thesis
        by simp
    qed
  qed
  then show "receive_inv t"
    by (simp add: receive_inv_def t)
qed

lemma receive_inv_step:
  assumes "receive_inv s" and "read_inv s" and "session_action tp G e s = Some t"
  shows "receive_inv t"
proof (cases e)
  case (EvReader re)
  with assms show ?thesis
    by (auto intro: receive_inv_readerStep)
next
  case (EvWriter we)
  with assms show ?thesis
    by (auto simp: receive_inv_def elim!: writerStepE)
qed (use assms in \<open>auto simp: session_defs receive_inv_def Read_def Write_def split: step_splits\<close>)

interpretation sess_receive: inductive_invariant "session_start G" "session_trans tp G"
  "\<lambda>s. read_inv s \<and> receive_inv s" for tp G
proof unfold_locales
  fix s t assume inv: "read_inv s \<and> receive_inv s" and "session_trans tp G s t"
  then have "read_inv t"
    using sess_read.inv_step by blast
  with inv \<open>session_trans tp G s t\<close> show "read_inv t \<and> receive_inv t"
    by (auto simp: session_step_def elim!: session_transE intro: receive_inv_step split: if_splits)
next
  fix s :: "'a session" assume "session_start G s"
  with sess_read.inv_init show "read_inv s \<and> receive_inv s"
    by (auto simp: session_start_def session_init_def receive_inv_def ack_safe_def accepted_def)
qed

text \<open>So the remote is never told to have delivered more than there is room for.\<close>

lemma receiver_ahead:
  assumes "read_inv s" and "receive_inv s" and "chans_ok s"
    and "length (hRead s @ chan_buf (incomingDataMessages s)) < 2 ^ 63"
  shows "card (set (accepted (hOut s))) \<le> length (hRead s) + 71"
    and "length (outOfOrderMessages (rd s)) \<le> 50"
proof -
  have len: "length (delivered (hOut s)) < 2 ^ 63" "length (delivered (hOut s)) \<le> length (hRead s) + 20"
    using assms by (simp_all add: read_inv_def chans_ok_def chan_ok_def queueSize_def)
  then show "card (set (accepted (hOut s))) \<le> length (hRead s) + 71"
    using assms(2) by (simp add: receive_inv_def)
  show "length (outOfOrderMessages (rd s)) \<le> 50"
    using assms(1) len(1)
    by (simp add: read_inv_def reader_inv_def Let_def queue_ok_def maxOutOfOrderMessages_def)
qed

end
