(* ===== verification/Session_Spec.thy ===== *)
theory Session_Spec
  imports Session_Shutdown Session_Flow
begin

text \<open>
  What a session promises to its user and its handler: data in order in both directions,
  flow control, an orderly end and what \<^verbatim>\<open>Wait\<close> and \<^verbatim>\<open>Start\<close> say about it; and the two
  places where it does not do what its comments say.
\<close>

section \<open>Sample runs\<close>

text \<open>A session that is started, and stopped at once by its user.\<close>

definition sample_up :: "session_event list" where
  "sample_up = [EvDial None, EvOpen None None, EvHandlerStart None]"

definition sample_down :: "session_event list" where
  "sample_down =
     [EvStop 0 [], EvStopReturn, EvStopListener, EvCleanup, EvCleanup, EvCleanup, EvCleanup,
      EvWriter (WDone errSessionStopRequested), EvWriterReturn,
      EvReader (CtxErr (Some context_Canceled)), EvReaderReturn, EvHandlerWait None]"

definition up_state :: "'g errgroup \<Rightarrow> 'g session" where
  "up_state G = (session_init G)\<lparr>startPc := StReturned None, cleanupPc := CWait, stopListener := Running,
     readerThread := Running, writerThread := Running, handlerWait := Running, wsOpen := True\<rparr>"

lemma sample_up_run: "session_run tp G sample_up (session_init G) = Some (up_state G)"
  by (simp add: sample_up_def session_step_def session_init_def reader_init_def startDial_def startable_def
      startOpen_def openDataChannel_def startHandler_def up_state_def)

definition down_state :: "'g errgroup \<Rightarrow> 'g session" where
  "down_state G = (up_state G)\<lparr>
     outgoingControlMessages := \<lparr>chan_buf = [NewTerminateSessionMessage 0 []], chan_cap = queueSize\<rparr>,
     stopped := True, cleanupPc := CFinished, stopListener := Finished, writerThread := Finished,
     readerThread := Finished, handlerWait := Finished, wsOpen := False, handlerStopped := True,
     wrt := writer_init\<lparr>wreturned := Some errSessionStopRequested\<rparr>,
     rd := reader_init\<lparr>rpc := RReturned context_Canceled\<rparr>,
     errgrp := eg_return G None (eg_return G (Some context_Canceled)
       (eg_return G (Some errSessionStopRequested) (eg_return G None
         (eg_return G (Some errSessionStopRequested) (eg_new G)))))\<rparr>"

lemma sample_down_run:
  assumes "errgroup_laws G"
  shows "session_run tp G sample_down (up_state G) = Some (down_state G)"
  by (simp add: sample_down_def session_step_def up_state_def session_init_def reader_init_def
      writer_init_def Stop_def stopReturn_def signalStop_def stopListenerStep_def goReturn_def
      cleanupStep_def errgroup_lawsD [OF assms] writerStep_def writer_step_def writer_enabled_def
      writerReturn_def readerStep_def readerReturn_def handlerWaitStep_def ctxErr_def down_state_def
      chan_send_def chan_make_def queueSize_def)

lemma down_reachable:
  assumes "errgroup_laws G"
  shows "sess_reachable tp G (down_state G)"
  using session_run_init [OF session_run_append [OF sample_up_run sample_down_run [OF assms]]] .

lemma up_reachable: "sess_reachable tp G (up_state G)"
  by (rule session_run_init [OF sample_up_run])

section \<open>Data in order\<close>

lemma session_read_numbers:
  assumes "sess_reachable tp G s"
    and "length (hRead s @ chan_buf (incomingDataMessages s)) < 2 ^ 63"
  shows "map (\<lambda>m. sint (SequenceNumber m)) (hRead s @ chan_buf (incomingDataMessages s))
      = map int [0..<length (hRead s @ chan_buf (incomingDataMessages s))]
    \<and> set (hRead s) \<subseteq> stream_data (hIn s)"
proof -
  let ?ds = "hRead s @ chan_buf (incomingDataMessages s)"
  have inv: "delivered (hOut s) = ?ds" "reader_inv (hIn s) (hOut s) (rd s)"
    using sess_read.reachable_inv [OF assms(1)] assms(2) by (simp_all add: read_inv_def)
  then have seqs: "map SequenceNumber ?ds = map of_nat [0..<length ?ds]"
    and sub: "set ?ds \<subseteq> stream_data (hIn s)"
    unfolding reader_inv_def Let_def by simp_all
  have "map sint (map SequenceNumber ?ds) = map int [0..<length ?ds]"
    unfolding seqs using assms(2) by simp
  then show ?thesis
    using sub by (simp add: comp_def)
qed

lemma session_write_frames:
  assumes "sess_reachable tp G s" and "distinct (hWritten s)" and "length (hWritten s) < 2 ^ 63"
  shows "hWritten s = hDequeued s @ chan_buf (outgoingMessages s)
    \<and> data_frames (hSent s) = concat (map (\<lambda>i. map (Pair (of_nat i))
          (frames (numbered (of_nat i) (hHeap s (hWritten s ! i))))) [0..<length (hDequeued s)])
    \<and> set (resent_frames (hSent s)) \<subseteq> set (data_frames (hSent s))"
proof -
  have w: "hWritten s = hDequeued s @ chan_buf (outgoingMessages s)"
    and inv: "content_inv (hHeap s) (hDequeued s) (hSent s) (heap s)"
    using sess_write.reachable_inv [OF assms(1)] assms(2,3) by (simp_all add: write_inv_def)
  have maps: "map (first_frames (hHeap s) (hDequeued s)) [0..<length (hDequeued s)]
      = map (\<lambda>i. map (Pair (of_nat i)) (frames (numbered (of_nat i) (hHeap s (hWritten s ! i)))))
          [0..<length (hDequeued s)]"
    by (simp add: first_frames_def w nth_append)
  have sent: "sent_ok (hHeap s) (hDequeued s) (hSent s)"
    using inv by (simp add: content_inv_def)
  then have "data_frames (hSent s) = concat (map (first_frames (hHeap s) (hDequeued s)) [0..<length (hDequeued s)])"
    and "set (resent_frames (hSent s)) \<subseteq> set (data_frames (hSent s))"
    by (simp_all add: sent_ok_def lessThan_atLeast0)
  with w show ?thesis
    unfolding maps by blast
qed

text \<open>If the remote sends \<open>f i\<close> under number \<open>i\<close>, then \<open>f 0, f 1, ...\<close> is what is read.\<close>

lemma read_as_sent:
  assumes "sess_reachable tp G s"
    and "length (hRead s @ chan_buf (incomingDataMessages s)) < 2 ^ 63"
    and "\<forall>m \<in> stream_data (hIn s). m = f (nat (sint (SequenceNumber m)))"
  shows "hRead s = map f [0..<length (hRead s)]"
proof (rule nth_equalityI)
  fix i assume i: "i < length (hRead s)"
  note R = session_read_numbers [OF assms(1,2)]
  have "map (\<lambda>m. sint (SequenceNumber m)) (hRead s @ chan_buf (incomingDataMessages s)) ! i = int i"
    using R i by simp
  then have "sint (SequenceNumber (hRead s ! i)) = int i"
    using i by (simp add: nth_append)
  moreover have "hRead s ! i \<in> stream_data (hIn s)"
    using R nth_mem [OF i] by blast
  ultimately show "hRead s ! i = map f [0..<length (hRead s)] ! i"
    using assms(3) i by fastforce
qed simp

section \<open>The messages taken in\<close>

definition typed_message :: "agent_message \<Rightarrow> bool" where
  "typed_message m \<longleftrightarrow> 112 \<le> unat (headerLength m) \<and> unat (headerLength m) \<le> 116
     \<and> length (MessageID m) = 16 \<and> length (PayloadDigest m) = 32
     \<and> length (Payload m) = unat (PayloadLength m)"

definition validated :: "agent_message \<Rightarrow> bool" where
  "validated m \<longleftrightarrow> typed_message m \<and> ValidateMessage m = None"

lemma decodes_typed: "decodes data m \<Longrightarrow> typed_message m"
  by (auto simp: decodes_def typed_message_def Let_def formatUUIDBytes_def slice_def)

lemma decoded_validated:
  assumes "m \<in> set (decoded e)"
  shows "validated m"
proof -
  obtain data where "UnmarshalBinary zeroMessage data = (Returns None, m)"
    using assms by (cases e rule: decoded.cases) (auto split: prod.splits outcome.splits option.splits)
  with UnmarshalBinary_decodes [OF this] show ?thesis
    by (simp add: validated_def decodes_typed)
qed

lemma validated_data:
  assumes "validated m" and "MessageType m = OutputStreamData"
  shows "1 \<le> SchemaVersion m" "\<not> IsZero (CreatedDate m)" "Payload m \<noteq> [] \<Longrightarrow> PayloadDigest m = computePayloadDigest m"
proof -
  have valid: "ValidateMessage m = None" "MessageType m \<noteq> StartPublication" "MessageType m \<noteq> PausePublication"
    using assms by (simp_all add: go_consts validated_def)
  then have "\<not> SchemaVersion m < 1"
    by (auto simp: ValidateMessage_def split: if_splits)
  then show "1 \<le> SchemaVersion m"
    by (simp only: not_less)
  from valid show "\<not> IsZero (CreatedDate m)" "Payload m \<noteq> [] \<Longrightarrow> PayloadDigest m = computePayloadDigest m"
    by (auto simp: ValidateMessage_def not_less word_gt_0 split: if_splits)
qed

interpretation sess_taken: inductive_invariant "session_start G" "session_trans tp G"
  "\<lambda>s. \<forall>m \<in> set (hIn s). validated m" for tp G
proof unfold_locales
  fix s t assume inv: "\<forall>m \<in> set (hIn s). validated m" and "session_trans tp G s t"
  then obtain e where step: "session_action tp G e s = Some t"
    by (auto simp: session_step_def elim!: session_transE split: if_splits)
  show "\<forall>m \<in> set (hIn t). validated m"
  proof (cases e)
    case (EvReader re)
    with step inv show ?thesis
      by (auto elim!: readerStepE dest: decoded_validated)
  next
    case (EvWriter we)
    with step inv show ?thesis
      by (auto elim!: writerStepE)
  qed (use step inv in \<open>auto simp: session_defs Read_def Write_def
      split: if_splits option.splits reader_pc.splits cleanup_pc.splits select_case.splits\<close>)
qed (simp add: session_start_def session_init_def)

section \<open>Properties\<close>

definition read_events :: "session_event list" where
  "read_events = sample_up @ [EvReader (CtxErr None), EvReader (SocketRead (Inr (remote_frame 0))),
     EvReader (AckQueued 0 []), EvReader Accepted, EvRead OnChannel None]"

lemma read_events_run:
  "\<exists>s. session_run sample_tp first_error_group read_events (session_init first_error_group) = Some s
    \<and> hRead s = [remote_received 0] \<and> chan_buf (incomingDataMessages s) = []"
proof -
  have "\<exists>s. session_run sample_tp first_error_group
      [EvReader (CtxErr None), EvReader (SocketRead (Inr (remote_frame 0))),
       EvReader (AckQueued 0 []), EvReader Accepted, EvRead OnChannel None] (up_state first_error_group) = Some s
    \<and> hRead s = [remote_received 0] \<and> chan_buf (incomingDataMessages s) = []"
    by (simp add: session_step_def up_state_def session_init_def reader_init_def readerStep_def
        ctxErr_def first_error_group_def handleMessage_data afterAck_def drainHead_def delivered_one_def chan_send_def queueSize_def
        Read_def chan_recv_def)
  then show ?thesis
    unfolding read_events_def using session_run_append [OF sample_up_run] by blast
qed

text \<open>C22: What a session takes in is well formed. In every reachable state of a session, every
  message that was decoded from the socket has an identifier of 16 bytes, a digest of 32, a
  header of 112 or 116 bytes or in between and a payload of the length it names; and every message in the session's buffers or
  returned by \<^verbatim>\<open>Read\<close> is moreover an output message of schema version 1 or later, with a creation date, whose
  digest is that of its payload, if it has one.\<close>

theorem session_messages_well_formed:
  assumes "sess_reachable tp G s"
    and "length (hRead s @ chan_buf (incomingDataMessages s)) < 2 ^ 63"
  shows "(\<forall>m \<in> set (hIn s). typed_message m)
    \<and> (\<forall>m \<in> set (hRead s @ chan_buf (incomingDataMessages s)) \<union> snd ` set (outOfOrderMessages (rd s)).
        typed_message m \<and> MessageType m = OutputStreamData \<and> 1 \<le> SchemaVersion m \<and> \<not> IsZero (CreatedDate m)
        \<and> (Payload m \<noteq> [] \<longrightarrow> PayloadDigest m = computePayloadDigest m))"
proof -
  let ?ds = "hRead s @ chan_buf (incomingDataMessages s)"
  have taken: "\<forall>m \<in> set (hIn s). validated m"
    by (rule sess_taken.reachable_inv [OF assms(1)])
  have inv: "delivered (hOut s) = ?ds" "reader_inv (hIn s) (hOut s) (rd s)"
    using sess_read.reachable_inv [OF assms(1)] assms(2) by (simp_all add: read_inv_def)
  then have "set ?ds \<union> snd ` set (outOfOrderMessages (rd s)) \<subseteq> stream_data (hIn s)"
    unfolding reader_inv_def Let_def queue_ok_def by force
  then have "\<forall>m \<in> set ?ds \<union> snd ` set (outOfOrderMessages (rd s)). validated m \<and> MessageType m = OutputStreamData"
    using taken by (auto simp: stream_data_def)
  with taken show ?thesis
    using validated_data by (auto simp: validated_def)
qed

theorem session_messages_well_formed_witness:
  "\<exists>s. sess_reachable sample_tp first_error_group s \<and> hRead s \<noteq> []
    \<and> (\<forall>m \<in> set (hRead s). typed_message m \<and> MessageType m = OutputStreamData)"
proof -
  obtain s where s: "session_run sample_tp first_error_group read_events (session_init first_error_group) = Some s"
    "hRead s = [remote_received 0]" "chan_buf (incomingDataMessages s) = []"
    using read_events_run by blast
  note reach = session_run_init [OF s(1)]
  have "length (hRead s @ chan_buf (incomingDataMessages s)) < 2 ^ 63"
    using s by simp
  from session_messages_well_formed [OF reach this] reach s(2) show ?thesis
    by (intro exI [of _ s]) simp
qed

text \<open>C18: A session sends what was written, in the order of the calls of \<^verbatim>\<open>Write\<close>, each message
  under its position as sequence number. In every reachable state, if no message has been
  written twice, the first transmissions are the encodings of the messages accepted so far and
  taken by the sender, in order; what \<^verbatim>\<open>Write\<close> has accepted beyond them is buffered, in order;
  and every retransmission repeats a first transmission byte for byte.\<close>

theorem session_write_in_order:
  assumes "sess_reachable tp G s" and "distinct (hWritten s)" and "length (hWritten s) < 2 ^ 63"
  shows "hWritten s = hDequeued s @ chan_buf (outgoingMessages s)
    \<and> data_frames (hSent s) = concat (map (\<lambda>i. map (Pair (of_nat i))
          (frames (numbered (of_nat i) (hHeap s (hWritten s ! i))))) [0..<length (hDequeued s)])
    \<and> set (resent_frames (hSent s)) \<subseteq> set (data_frames (hSent s))"
  by (rule session_write_frames [OF assms])

definition write_message :: agent_message where
  "write_message = NewStreamMessage 0 (replicate 16 0) [104, 105]"

definition write_events :: "session_event list" where
  "write_events = sample_up @ [EvNew write_message, EvWrite OnChannel None 0,
     EvWriter (WMessage 0 0 0 quiet)]"

lemma write_events_run:
  "\<exists>s. session_run sample_tp first_error_group write_events (session_init first_error_group) = Some s
    \<and> hWritten s = [0] \<and> hDequeued s = [0] \<and> hHeap s 0 = write_message
    \<and> hIn s = [] \<and> hRead s = [] \<and> chan_buf (incomingDataMessages s) = []"
proof -
  have "\<exists>s. session_run sample_tp first_error_group
      [EvNew write_message, EvWrite OnChannel None 0, EvWriter (WMessage 0 0 0 quiet)]
      (up_state first_error_group) = Some s
    \<and> hWritten s = [0] \<and> hDequeued s = [0] \<and> hHeap s 0 = write_message
    \<and> hIn s = [] \<and> hRead s = [] \<and> chan_buf (incomingDataMessages s) = []"
    by (simp add: session_step_def up_state_def session_init_def reader_init_def writer_init_def
        newMessage_def Write_def chan_send_def chan_recv_def queueSize_def writerStep_def writer_step_def
        writer_enabled_def maxInflightMessages_def onMessage_eq)
  then show ?thesis
    unfolding write_events_def using session_run_append [OF sample_up_run] by blast
qed

theorem session_write_in_order_witness:
  "\<exists>s. sess_reachable sample_tp first_error_group s
    \<and> data_frames (hSent s) = map (Pair 0) (frames (numbered 0 write_message))"
proof -
  obtain s where s: "session_run sample_tp first_error_group write_events (session_init first_error_group) = Some s"
    "hWritten s = [0]" "hDequeued s = [0]" "hHeap s 0 = write_message"
    using write_events_run by blast
  note reach = session_run_init [OF s(1)]
  have "distinct (hWritten s)" "length (hWritten s) < 2 ^ 63"
    using s by simp_all
  from session_write_in_order [OF reach this] reach s show ?thesis
    by auto
qed

text \<open>C26: A session holds back its user and its remote, so what it stores stays bounded however fast
  they are. In every reachable state \<^verbatim>\<open>Write\<close> has accepted at most thirty messages more than the
  remote has acknowledged by number (acknowledging a number again gives no room): every number
  the sender has used belongs to one of at most ten messages kept for retransmission, or the
  remote has acknowledged it. And at most seventy-one different data messages (those with a
  negative number aside, which are never delivered) have been acknowledged to the remote beyond
  those returned by \<^verbatim>\<open>Read\<close>, of which at most fifty wait out of order.\<close>

theorem session_backpressure:
  assumes "sess_reachable tp G s" and "length (hWritten s) < 2 ^ 63"
    and "length (hRead s @ chan_buf (incomingDataMessages s)) < 2 ^ 63"
  shows "length (hWritten s) \<le> card (set (remote_acks (hIn s))) + 30
    \<and> length (unacknowledgedMessages (wrt s)) \<le> 10
    \<and> of_nat ` {..<length (hDequeued s)}
        \<subseteq> fst ` set (unacknowledgedMessages (wrt s)) \<union> set (remote_acks (hIn s))
    \<and> card (set (filter (\<lambda>n. 0 \<le> sint n) (acked (hOut s)))) \<le> length (hRead s) + 71
    \<and> length (outOfOrderMessages (rd s)) \<le> 50"
proof -
  have inv: "write_inv s" "kept_inv s" "read_inv s" "receive_inv s" "chans_ok s"
    using sess_kept.reachable_inv [OF assms(1)] sess_receive.reachable_inv [OF assms(1)]
      sess_chans.reachable_inv [OF assms(1)] by simp_all
  show ?thesis
    using sender_ahead [OF inv(1,2,5) assms(2)] receiver_ahead [OF inv(3-5) assms(3)]
    unfolding used_def kept_def accepted_def by blast
qed

theorem session_backpressure_witness:
  "\<exists>s. sess_reachable sample_tp first_error_group s \<and> hWritten s = [0] \<and> hIn s = []
    \<and> fst ` set (unacknowledgedMessages (wrt s)) \<supseteq> {0} \<and> length (hWritten s) \<le> 30"
proof -
  obtain s where s: "session_run sample_tp first_error_group write_events (session_init first_error_group) = Some s"
    "hWritten s = [0]" "hDequeued s = [0]" "hIn s = []" "hRead s = []" "chan_buf (incomingDataMessages s) = []"
    using write_events_run by blast
  note reach = session_run_init [OF s(1)]
  have "length (hWritten s) < 2 ^ 63" "length (hRead s @ chan_buf (incomingDataMessages s)) < 2 ^ 63"
    using s by simp_all
  from session_backpressure [OF reach this] reach s(2-4) show ?thesis
    by (intro exI [of _ s]) (simp add: lessThan_Suc)
qed

text \<open>C10: When \<^verbatim>\<open>Wait\<close> returns because the session has ended, everything is torn down: all
  goroutines have returned, the websocket is closed, the handler has been told to stop, and the
  session is stopped. The result is nil exactly if the first error was the one of a requested
  stop, and that first error otherwise, whatever errors follow it during the shutdown.\<close>

theorem session_wait_after_teardown:
  assumes "sess_reachable tp G s" and "errgroup_laws G" and "Wait G OnGroup ctx s = Some res"
  shows "allReturned s \<and> \<not> wsOpen s \<and> handlerStopped s \<and> stopped s
    \<and> (\<exists>first. cause G s = Some first
        \<and> res = (if first = errSessionStopRequested then None else Some first))"
proof -
  have inv: "life_inv G s"
    by (rule reachable_life [OF assms(1,2)])
  have w: "cause G s \<noteq> None" "allReturned s" "res = waitResult errSessionStopRequested (eg_error G (errgrp s))"
    using assms(3) by (auto simp: Wait_def split: if_splits)
  have quiet: "quiet_inv G s" and causes: "cause_inv G s" and cleanup: "cleanup_inv s"
    using inv by (simp_all add: life_inv_def)
  have "spawned s"
    using quiet w(1) unfolding quiet_inv_def by blast
  with w(2) have "cleanupPc s = CFinished"
    by (simp add: allReturned_def spawned_def)
  with cleanup have "\<not> wsOpen s" "handlerStopped s" "stopped s"
    by (simp_all add: cleanup_inv_def)
  moreover obtain first where "cause G s = Some first"
    using w(1) by blast
  ultimately show ?thesis
    using w(2,3) causes by (simp add: cause_inv_def waitResult_def)
qed

theorem session_wait_after_teardown_witness:
  "\<not> wsOpen (down_state first_error_group) \<and> handlerStopped (down_state first_error_group)
    \<and> Wait first_error_group OnGroup None (down_state first_error_group) = Some None"
proof -
  have "Wait first_error_group OnGroup None (down_state first_error_group) = Some None"
    by (simp add: Wait_def down_state_def up_state_def session_init_def first_error_group_def
        allReturned_def waitResult_def)
  with session_wait_after_teardown [OF down_reachable [OF first_error_group_laws, of sample_tp] first_error_group_laws this]
  show ?thesis
    by blast
qed

text \<open>C19: A cancelled session can always end. In every reachable state in which the group has been
  cancelled (and the process has not panicked), at most fourteen steps lead to a state in which
  all goroutines have returned and \<^verbatim>\<open>Wait\<close> returns: no goroutine can be stuck on a full or empty
  channel or on another goroutine. The steps need nothing from outside except that the
  handler's methods and a read of the closed websocket return.\<close>

theorem session_can_end:
  assumes "sess_reachable tp G s" and "errgroup_laws G" and "cause G s \<noteq> None"
    and "rpc (rd s) \<noteq> RPanicked"
  shows "\<exists>es t. length es \<le> 14 \<and> session_run tp G es s = Some t \<and> allReturned t
    \<and> (\<exists>res. Wait G OnGroup ctx t = Some res)"
proof -
  have "closing G s"
    using reachable_life [OF assms(1,2)] assms(3,4) by (simp add: closing_def)
  from closing_ends [OF assms(2) this, of tp] obtain es t where
    t: "length es \<le> work s" "session_run tp G es s = Some t" "closing G t" "allReturned t"
    by blast
  moreover have "length es \<le> 14"
    using t(1) work_bound [of s] by simp
  ultimately show ?thesis
    by (auto simp: Wait_def closing_def)
qed

theorem session_can_end_witness:
  "\<exists>es t. length es \<le> 14 \<and> session_run sample_tp first_error_group es (down_state first_error_group) = Some t
    \<and> allReturned t"
proof -
  have "cause first_error_group (down_state first_error_group) \<noteq> None"
    "rpc (rd (down_state first_error_group)) \<noteq> RPanicked"
    by (simp_all add: down_state_def first_error_group_def)
  from session_can_end [OF down_reachable [OF first_error_group_laws] first_error_group_laws this]
  show ?thesis
    by blast
qed

text \<open>C25: \<^verbatim>\<open>Start\<close> does not report success for a handler that failed to start, and it leaves
  nothing behind. If the goroutines were spawned and \<^verbatim>\<open>Start\<close> has returned an error, then the
  handler had failed to start, all goroutines have returned, the websocket is closed and the
  handler was told to stop; if it has returned nil, the handler's start did not fail.\<close>

theorem session_start_cleans_up:
  assumes "sess_reachable tp G s" and "errgroup_laws G" and "spawned s" and "startPc s = StReturned res"
  shows "if res = None then failThread s = NotStarted \<and> handlerWait s \<noteq> NotStarted
    else failThread s = Finished \<and> allReturned s \<and> \<not> wsOpen s \<and> handlerStopped s"
proof -
  have inv: "life_inv G s"
    by (rule reachable_life [OF assms(1,2)])
  show ?thesis
  proof (cases res)
    case None
    with inv assms(4) show ?thesis
      by (simp add: life_inv_def start_inv_def)
  next
    case (Some e)
    with inv assms(3,4) have fail: "failThread s \<noteq> NotStarted" "allReturned s"
      by (auto simp: life_inv_def start_inv_def)
    then have "cleanupPc s = CFinished" "failThread s = Finished"
      using assms(3) by (cases "failThread s"; auto simp: allReturned_def spawned_def)+
    with inv fail Some show ?thesis
      by (simp add: life_inv_def cleanup_inv_def)
  qed
qed
theorem session_start_cleans_up_witness:
  "\<exists>s. sess_reachable sample_tp first_error_group s \<and> (\<exists>e. startPc s = StReturned (Some e))
    \<and> failThread s = Finished \<and> allReturned s \<and> \<not> wsOpen s"
proof -
  let ?es = "[EvDial None, EvOpen None None, EvHandlerStart (Some io_EOF), EvFail, EvCleanup, EvCleanup,
      EvCleanup, EvCleanup, EvStopListener,
      EvWriter (WDone (Errorf ''handler failed to start: %w'' [io_EOF])), EvWriterReturn,
      EvReader (CtxErr (Some context_Canceled)), EvReaderReturn, EvStartFailed]"
  obtain s where run: "session_run sample_tp first_error_group ?es (session_init first_error_group) = Some s"
    and s: "spawned s" "startPc s = StReturned (Some (Errorf ''handler failed to start: %w'' [io_EOF]))"
    by (simp add: session_step_def session_init_def reader_init_def startDial_def startable_def first_error_group_def
      writer_init_def startOpen_def openDataChannel_def startHandler_def failStep_def goReturn_def
      signalStop_def stopListenerStep_def cleanupStep_def writerStep_def writer_step_def writer_enabled_def
      writerReturn_def readerStep_def readerReturn_def ctxErr_def startFailed_def allReturned_def spawned_def)
  from session_start_cleans_up [OF session_run_init [OF run] first_error_group_laws s]
    session_run_init [OF run] s(2)
  show ?thesis
    by auto
qed

lemma unspawned_stays:
  assumes unspawned: "\<not> spawned s" "startPc s = StReturned (Some e)" "cause G s = None"
    and step: "session_step tp G ev s = Some t" and no_start: "\<forall>err. ev \<noteq> EvDial err"
    and inv: "errgroup_laws G" "life_inv G s"
  shows "\<not> spawned t \<and> startPc t = StReturned (Some e) \<and> cause G t = None"
proof -
  have action: "session_action tp G ev s = Some t"
    using step by (auto simp: session_step_def split: if_splits)
  show ?thesis
  proof (cases "moves_messages ev")
    case True
    with same_life_step [OF action] unspawned show ?thesis
      by (simp add: same_life_def spawned_def)
  next
    case False
    have quiet: "stopListener s = NotStarted" "readerThread s = NotStarted" "writerThread s = NotStarted"
      "handlerWait s = NotStarted" "failThread s = NotStarted" "cleanupPc s = CNotStarted"
      using unspawned(1) inv(2) by (simp_all add: life_inv_def quiet_inv_def spawned_def)
    with False action unspawned no_start show ?thesis
      by (cases ev) (auto simp: session_defs spawned_def split: if_splits option.splits reader_pc.splits)
  qed
qed

lemma unspawned_run:
  assumes "errgroup_laws G"
  shows "session_run tp G es s = Some t \<Longrightarrow> sess_reachable tp G s \<Longrightarrow> \<not> spawned s \<Longrightarrow>
    startPc s = StReturned (Some e) \<Longrightarrow> \<forall>err. EvDial err \<notin> set es \<Longrightarrow>
    \<not> spawned t \<and> startPc t = StReturned (Some e) \<and> cause G t = None"
proof (induction es arbitrary: s)
  case Nil
  with reachable_life [OF Nil.prems(2) assms] show ?case
    by (simp add: life_inv_def quiet_inv_def)
next
  case (Cons ev es)
  then obtain u where u: "session_step tp G ev s = Some u" "session_run tp G es u = Some t"
    by (auto split: option.splits)
  have "cause G s = None"
    using reachable_life [OF Cons.prems(2) assms] Cons.prems(3) by (simp add: life_inv_def quiet_inv_def)
  moreover have "\<forall>err. ev \<noteq> EvDial err" "\<forall>err. EvDial err \<notin> set es"
    using Cons.prems(5) by auto
  ultimately have "\<not> spawned u \<and> startPc u = StReturned (Some e)"
    using unspawned_stays [OF Cons.prems(3,4) _ u(1) _ assms reachable_life [OF Cons.prems(2) assms]] by blast
  moreover have "sess_reachable tp G u"
    using reach_step [OF Cons.prems(2)] session_trans.intros [OF u(1)] by blast
  ultimately show ?case
    using Cons.IH [OF u(2)] \<open>\<forall>err. EvDial err \<notin> set es\<close> by blast
qed

text \<open>C38: A session whose \<^verbatim>\<open>Start\<close> failed to dial or to open the data channel does not end for those
  who wait for it. Until \<^verbatim>\<open>Start\<close> is called again nothing can cancel its group, not even \<^verbatim>\<open>Stop\<close>:
  after any steps other than a new dial, \<^verbatim>\<open>Wait\<close> returns only what the caller's context gives, and
  \<^verbatim>\<open>Read\<close> and \<^verbatim>\<open>Write\<close> do not report \<^verbatim>\<open>ErrSessionStopped\<close>.\<close>

theorem session_dead_after_failed_start:
  assumes "sess_reachable tp G s" and "errgroup_laws G"
    and "startPc s = StReturned (Some e)" and "\<not> spawned s"
    and "session_run tp G es s = Some t" and "\<forall>err. EvDial err \<notin> set es"
    and "Wait G branch ctx t = Some res"
  shows "branch = OnCtx \<and> res = ctx \<and> Read G OnGroup ctx t = None \<and> Write G OnGroup ctx a t = None"
proof -
  have "cause G t = None"
    using unspawned_run [OF assms(2,5,1,4,3,6)] by blast
  with assms(7) show ?thesis
    by (auto simp: Wait_def Read_def Write_def split: select_case.splits if_splits)
qed

text \<open>Dialing failed, and the user gives up and calls \<^verbatim>\<open>Stop\<close>: \<^verbatim>\<open>Wait\<close> does not return.\<close>

theorem session_dead_after_failed_start_witness:
  "\<exists>s t. sess_reachable sample_tp first_error_group s
    \<and> startPc s = StReturned (Some (wrap2 ErrWebsocketDialFailed io_EOF))
    \<and> session_run sample_tp first_error_group [EvStop 0 [], EvStopReturn] s = Some t \<and> stopped t
    \<and> (\<forall>branch res. Wait first_error_group branch None t \<noteq> Some res)"
proof -
  obtain s where run: "session_run sample_tp first_error_group [EvDial (Some io_EOF)] (session_init first_error_group) = Some s"
    and s: "startPc s = StReturned (Some (wrap2 ErrWebsocketDialFailed io_EOF))" "\<not> spawned s" "rpc (rd s) \<noteq> RPanicked"
    by (simp add: session_step_def session_init_def reader_init_def startDial_def startable_def spawned_def)
  obtain t where t: "session_run sample_tp first_error_group [EvStop 0 [], EvStopReturn] s = Some t" "stopped t"
    using s(3) by (cases "chan_send (NewTerminateSessionMessage 0 []) (outgoingControlMessages s)")
      (simp_all add: session_step_def Stop_def stopReturn_def signalStop_def)
  note reach = session_run_init [OF run]
  have "Wait first_error_group branch None t \<noteq> Some res" for branch res
  proof
    assume w: "Wait first_error_group branch None t = Some res"
    have "\<forall>err. EvDial err \<notin> set [EvStop 0 [], EvStopReturn]"
      by simp
    from session_dead_after_failed_start [OF reach first_error_group_laws s(1,2) t(1) this w, of 0]
    have "branch = OnCtx"
      by simp
    with w show False
      by (simp add: Wait_def)
  qed
  with reach s(1) t show ?thesis
    by blast
qed

text \<open>Calling \<^verbatim>\<open>Start\<close> again helps: if the new dial succeeds, the goroutines are there.\<close>

lemma start_again:
  assumes "rpc (rd s) \<noteq> RPanicked" and "startPc s = StReturned (Some e)" and "\<not> spawned s"
  shows "\<exists>t. session_run tp G [EvDial None, EvOpen None None] s = Some t \<and> spawned t
    \<and> startPc t = StStarting \<and> wsOpen t \<and> readerThread t = Running \<and> writerThread t = Running"
  using assms
  by (simp add: session_step_def startDial_def startable_def startOpen_def openDataChannel_def spawned_def)

text \<open>C39: A handler that ends without an error does not end the session, although the comment at
  line 203 says that everything else exits when the handler stops. When \<^verbatim>\<open>Handler.Wait\<close> returns
  nil in a running session, the group is not cancelled: the goroutines go on, the websocket
  stays open, \<^verbatim>\<open>Wait\<close> does not return, and \<^verbatim>\<open>Write\<close> accepts messages as before.\<close>

theorem session_survives_handler:
  assumes "sess_reachable tp G s" and "errgroup_laws G" and "cause G s = None"
    and "session_step tp G (EvHandlerWait None) s = Some t"
  shows "handlerWait t = Finished \<and> cause G t = None
    \<and> Wait G OnGroup ctx t = None
    \<and> readerThread t = Running \<and> writerThread t = Running \<and> wsOpen t = wsOpen s
    \<and> stopped t = stopped s
    \<and> map_option fst (Write G OnChannel ctx a t) = map_option fst (Write G OnChannel ctx a s)"
proof -
  have t: "t = goReturn G None (s\<lparr>handlerWait := Finished\<rparr>)" and run: "handlerWait s = Running"
    using assms(4) by (auto simp: session_step_def handlerWaitStep_def split: if_splits)
  have cause: "cause G t = None"
    using assms(3) by (simp add: t goReturn_def errgroup_lawsD [OF assms(2)])
  have inv: "quiet_inv G s" "cause_inv G s"
    using reachable_life [OF assms(1,2)] by (simp_all add: life_inv_def)
  have "spawned s"
    using inv(1) run by (auto simp: quiet_inv_def)
  then have "readerThread s = Running" "writerThread s = Running"
    using inv assms(3) by (cases "readerThread s"; cases "writerThread s"; simp add: quiet_inv_def cause_inv_def)+
  then show ?thesis
    using cause by (simp add: t goReturn_def Wait_def Write_def option.map_comp comp_def)
qed

theorem session_survives_handler_witness:
  "\<exists>t. session_step sample_tp first_error_group (EvHandlerWait None) (up_state first_error_group) = Some t
    \<and> handlerWait t = Finished \<and> readerThread t = Running \<and> Wait first_error_group OnGroup None t = None"
proof -
  obtain t where t: "session_step sample_tp first_error_group (EvHandlerWait None) (up_state first_error_group) = Some t"
    by (simp add: session_step_def up_state_def session_init_def reader_init_def handlerWaitStep_def)
  have "cause first_error_group (up_state first_error_group) = None"
    by (simp add: up_state_def session_init_def first_error_group_def)
  from session_survives_handler [OF up_reachable first_error_group_laws this t] t show ?thesis
    by blast
qed

text \<open>\<^verbatim>\<open>Stop\<close> does not always send a terminate message, although its comment says that it
  shuts the session down by sending one. With any errgroup that keeps its promises, a session
  that was started, is healthy and is stopped by its user can end gracefully (\<^verbatim>\<open>Wait\<close> returns
  nil) with no frame ever given to the socket and the terminate message still in its queue.\<close>

theorem session_stop_without_terminate:
  assumes "errgroup_laws G"
  shows "\<exists>s. session_run tp G (sample_up @ sample_down) (session_init G) = Some s
    \<and> Wait G OnGroup ctx s = Some None \<and> hSent s = []
    \<and> chan_buf (outgoingControlMessages s) = [NewTerminateSessionMessage 0 []]"
proof -
  have "Wait G OnGroup ctx (down_state G) = Some None"
    by (simp add: Wait_def down_state_def up_state_def session_init_def errgroup_lawsD [OF assms]
        allReturned_def waitResult_def)
  moreover have "session_run tp G (sample_up @ sample_down) (session_init G) = Some (down_state G)"
    by (rule session_run_append [OF sample_up_run sample_down_run [OF assms]])
  ultimately show ?thesis
    by (simp add: down_state_def up_state_def session_init_def)
qed

theorem session_stop_without_terminate_witness:
  "\<exists>s. session_run sample_tp first_error_group (sample_up @ sample_down) (session_init first_error_group) = Some s
    \<and> hSent s = []"
  using session_stop_without_terminate [OF first_error_group_laws] by blast

end
