(* ===== verification/Handshake_Spec.thy ===== *)
theory Handshake_Spec
  imports Handshake Session_Spec
begin

text \<open>
  What \<^verbatim>\<open>PerformHandshake\<close> does on a session: the exchange with the remote when it succeeds, how
  it fails, and that it returns once the remote has sent its two messages.
\<close>

section \<open>A sample exchange\<close>

definition agent_msg :: "int64 \<Rightarrow> u32 \<Rightarrow> string \<Rightarrow> agent_message" where
  "agent_msg n pt text = (remote_msg n)\<lparr>PayloadType := pt, Payload := bytes_of text\<rparr>"

definition agent_received :: "int64 \<Rightarrow> u32 \<Rightarrow> string \<Rightarrow> agent_message" where
  "agent_received n pt text = received (sealed (agent_msg n pt text))"

definition agent_frame :: "int64 \<Rightarrow> u32 \<Rightarrow> string \<Rightarrow> bytes" where
  "agent_frame n pt text = wireBytes (sealed (agent_msg n pt text))"

lemma agent_received_simps [simp]:
  "SequenceNumber (agent_received n pt text) = n" "MessageType (agent_received n pt text) = OutputStreamData"
  "PayloadType (agent_received n pt text) = pt" "Payload (agent_received n pt text) = bytes_of text"
  by (simp_all add: agent_received_def received_def sealed_def agent_msg_def remote_msg_def)

lemma Unmarshal_agent_frame:
  assumes "length text < 2 ^ 32 - 120"
  shows "UnmarshalBinary zeroMessage (agent_frame n pt text) = (Returns None, agent_received n pt text)"
proof -
  let ?m = "agent_msg n pt text"
  have "ValidateMessage (sealed ?m) = None"
    using assms
    by (simp add: ValidateMessage_def agent_msg_def remote_msg_def go_consts IsZero_def NewAgentMessage_def
        zeroMessage_def sealed_def computePayloadDigest_def unat_of_nat)
  then have "UnmarshalBinary zeroMessage (wireBytes (sealed ?m) @ []) = (Returns None, received (sealed ?m))"
    using assms by (intro UnmarshalBinary_wireBytes)
      (simp_all add: agent_msg_def remote_msg_def wireType_OutputStreamData wireDate_def truncateMilli_def
        NewAgentMessage_def zeroMessage_def)
  then show ?thesis
    by (simp add: agent_frame_def agent_received_def)
qed

lemma handleRead_agent_frame:
  "length text < 2 ^ 32 - 120 \<Longrightarrow>
     handleRead tp r (Inr (agent_frame n pt text)) = handleMessage r (agent_received n pt text)"
  by (simp add: handleRead_def readMessage_def Unmarshal_agent_frame)

definition request_text :: string where
  "request_text = ''{\"AgentVersion\":\"3.1.0.0\",\"RequestedClientActions\":[]}''"

definition request_msg :: agent_message where
  "request_msg = agent_received 0 HandshakeRequest request_text"

definition complete_msg :: agent_message where
  "complete_msg = agent_received 1 HandshakeComplete ''{}''"

lemma request_decoded:
  "UnmarshalHandshakeRequest (Payload request_msg) = Inr \<lparr>AgentVersion = ''3.1.0.0'', RequestedClientActions = []\<rparr>"
  unfolding request_msg_def request_text_def agent_received_simps by code_simp

definition agent_events :: "session_event list" where
  "agent_events =
     [EvReader (CtxErr None), EvReader (SocketRead (Inr (agent_frame 0 HandshakeRequest request_text))),
      EvReader (AckQueued 0 []), EvReader Accepted,
      EvReader (CtxErr None), EvReader (SocketRead (Inr (agent_frame 1 HandshakeComplete ''{}''))),
      EvReader (AckQueued 0 []), EvReader Accepted]"

lemma agent_events_run:
  "\<exists>s. session_run sample_tp first_error_group agent_events (up_state first_error_group) = Some s
    \<and> chan_buf (incomingDataMessages s) = [request_msg, complete_msg] \<and> hRead s = []
    \<and> hWritten s = [] \<and> outgoingMessages s = chan_make queueSize \<and> alive s"
proof -
  have len: "length request_text < 2 ^ 32 - 120" "length ''{}'' < (2::nat) ^ 32 - 120"
    by (simp_all add: request_text_def)
  show ?thesis
    by (simp add: agent_events_def session_step_def up_state_def session_init_def reader_init_def
        readerStep_def ctxErr_def first_error_group_def handleRead_agent_frame [OF len(1)]
        handleRead_agent_frame [OF len(2)] handleMessage_data afterAck_def drainHead_def
        delivered_one_def drained_one_def chan_send_def queueSize_def maxOutOfOrderMessages_def
        request_msg_def complete_msg_def alive_def)
qed

text \<open>The calls of the sample handler: nothing happens in between, and no context is cancelled.\<close>

abbreviation quiet_read :: "go_error option session read_fun" where
  "quiet_read \<equiv> sessionRead sample_tp first_error_group (\<lambda>_. []) (\<lambda>_. OnChannel) (\<lambda>_. None)"

abbreviation quiet_write :: "go_error option session write_fun" where
  "quiet_write \<equiv> sessionWrite sample_tp first_error_group (\<lambda>_. []) (\<lambda>_. OnChannel) (\<lambda>_. None)"

lemma quiet_read_buffered:
  "chan_buf (incomingDataMessages s) = m # ms \<Longrightarrow> alive s \<Longrightarrow>
     \<exists>t. quiet_read s = Some (Inr m, t) \<and> chan_buf (incomingDataMessages t) = ms
       \<and> outgoingMessages t = outgoingMessages s \<and> alive t \<and> startPc t = startPc s"
  by (simp add: sessionRead_def runBackground_def Read_def chan_recv_def alive_def)

lemma quiet_write_room:
  "length (chan_buf (outgoingMessages s)) < chan_cap (outgoingMessages s) \<Longrightarrow> alive s \<Longrightarrow>
     \<exists>t. quiet_write m s = Some (None, t) \<and> incomingDataMessages t = incomingDataMessages s \<and> alive t
       \<and> startPc t = startPc s"
  by (simp add: sessionWrite_def runBackground_def Write_def chan_send_def newMessage_def alive_def)

lemma sample_state:
  obtains s where "sess_reachable sample_tp first_error_group s"
    and "chan_buf (incomingDataMessages s) = [request_msg, complete_msg]" and "hRead s = []"
    and "hWritten s = []" and "outgoingMessages s = chan_make queueSize" and "alive s"
  using agent_events_run session_run_init [OF session_run_append [OF sample_up_run]] by blast

definition response_to :: "RequestedClientAction list \<Rightarrow> agent_message" where
  "response_to actions =
     (case NewHandshakeResponse 0 (replicate 16 0) clientVersion actions of Inr m \<Rightarrow> m)"

lemma handshake_reads:
  assumes "chan_buf (incomingDataMessages s) = request_msg # complete_msg # ms"
    and "outgoingMessages s = chan_make queueSize" and "alive s"
  obtains s1 s2 s3 where "reads quiet_read (Suc 0) s = Some ([] @ [request_msg], s1)"
    and "quiet_write (response_to []) s1 = Some (None, s2)"
    and "reads quiet_read (Suc 0) s2 = Some ([] @ [complete_msg], s3)" and "chan_buf (incomingDataMessages s3) = ms"
    and "alive s3" and "startPc s3 = startPc s"
proof -
  obtain s1 where 1: "quiet_read s = Some (Inr request_msg, s1)"
    "chan_buf (incomingDataMessages s1) = complete_msg # ms" "outgoingMessages s1 = chan_make queueSize" "alive s1" "startPc s1 = startPc s"
    using quiet_read_buffered [OF assms(1,3)] assms(2) by auto
  obtain s2 where 2: "quiet_write (response_to []) s1 = Some (None, s2)"
    "chan_buf (incomingDataMessages s2) = complete_msg # ms" "alive s2" "startPc s2 = startPc s1"
    using quiet_write_room [of s1 "response_to []"] 1 by (auto simp: queueSize_def)
  obtain s3 where 3: "quiet_read s2 = Some (Inr complete_msg, s3)" "chan_buf (incomingDataMessages s3) = ms" "alive s3"
    "startPc s3 = startPc s2"
    using quiet_read_buffered [OF 2(2,3)] by auto
  show thesis
    using that [of s1 s2 s3] 1 2 3 by simp
qed

section \<open>Properties\<close>

text \<open>C24: A successful handshake is the exchange the agent expects. If \<^verbatim>\<open>PerformHandshake\<close> on a
  session returns a version, with anything happening in the session between its calls and any
  choice of its \<^verbatim>\<open>select\<close>s, then it has read messages up to the first handshake request, written
  exactly one message, the response to the actions of that request, and then read up to the
  first handshake-complete message; the version is the one in the request.\<close>

theorem handshake_exchange:
  assumes "sess_reachable tp G s"
    and "PerformHandshake (sessionRead tp G sched pick ctx) (sessionWrite tp G sched pick ctx) now uid s
      = Some (Inr v, s')"
  shows "\<exists>junk1 request junk2 complete req resp.
    hRead s' = hRead s @ junk1 @ [request] @ junk2 @ [complete]
    \<and> (\<forall>x \<in> set junk1. PayloadType x \<noteq> HandshakeRequest) \<and> PayloadType request = HandshakeRequest
    \<and> (\<forall>x \<in> set junk2. PayloadType x \<noteq> HandshakeComplete) \<and> PayloadType complete = HandshakeComplete
    \<and> UnmarshalHandshakeRequest (Payload request) = Inr req
    \<and> NewHandshakeResponse now uid clientVersion (RequestedClientActions req) = Inr resp
    \<and> givenMessages s' = givenMessages s @ [resp] \<and> v = AgentVersion req"
  by (rule sess.handshake_success_laws [OF assms(2) sess_write.reachable_inv [OF assms(1)]])

text \<open>A handshake completes as soon as the remote has sent its part. Over any session, if the
  reads reach a well-formed handshake request after any messages of other types, the response
  can be written, and further reads reach a handshake-complete message, then
  \<^verbatim>\<open>PerformHandshake\<close> returns the version of the request, in the state after exactly those calls.\<close>

lemma handshake_completes:
  assumes "reads sread (Suc n) s = Some (junk1 @ [request], s1)"
    and "\<forall>x \<in> set junk1. PayloadType x \<noteq> HandshakeRequest" and "PayloadType request = HandshakeRequest"
    and "UnmarshalHandshakeRequest (Payload request) = Inr req"
    and "NewHandshakeResponse now uid clientVersion (RequestedClientActions req) = Inr resp"
    and "swrite resp s1 = Some (None, s2)"
    and "reads sread (Suc k) s2 = Some (junk2 @ [complete], s3)"
    and "\<forall>x \<in> set junk2. PayloadType x \<noteq> HandshakeComplete" and "PayloadType complete = HandshakeComplete"
  shows "PerformHandshake sread swrite now uid s = Some (Inr (AgentVersion req), s3)"
  using awaitMessage_returns [OF assms(1-3)] awaitMessage_returns [OF assms(7-9)] assms(4-6)
  by (simp add: PerformHandshake_def)

text \<open>A failed handshake has written nothing, or just the response. If \<^verbatim>\<open>PerformHandshake\<close> on a
  session returns an error, then it wraps one of the three errors the function names; and
  either no message was written, or one was, the response to a well-formed request that had
  been read, and the handshake failed waiting for its completion.\<close>

theorem handshake_failure:
  assumes "sess_reachable tp G s"
    and "PerformHandshake (sessionRead tp G sched pick ctx) (sessionWrite tp G sched pick ctx) now uid s
      = Some (Inl e, s')"
  shows "(errors_Is e ErrSessionHandshake \<or> errors_Is e ErrUnmarshalHandshake \<or> errors_Is e ErrSendHandshakeResp)
    \<and> (givenMessages s' = givenMessages s \<or>
      (\<exists>request \<in> set (hRead s'). PayloadType request = HandshakeRequest
        \<and> (\<exists>req resp. UnmarshalHandshakeRequest (Payload request) = Inr req
          \<and> NewHandshakeResponse now uid clientVersion (RequestedClientActions req) = Inr resp
          \<and> givenMessages s' = givenMessages s @ [resp] \<and> errors_Is e ErrSessionHandshake)))"
  by (intro conjI PerformHandshake_errors [OF assms(2)]
      sess.handshake_failure_laws [OF assms(2) sess_write.reachable_inv [OF assms(1)]])

section \<open>Witnesses\<close>

lemma sample_handshake:
  assumes "chan_buf (incomingDataMessages s) = request_msg # complete_msg # ms"
    and "outgoingMessages s = chan_make queueSize" and "alive s"
  shows "\<exists>s'. PerformHandshake quiet_read quiet_write 0 (replicate 16 0) s = Some (Inr ''3.1.0.0'', s')
    \<and> chan_buf (incomingDataMessages s') = ms \<and> alive s' \<and> startPc s' = startPc s"
proof -
  obtain s1 s2 s3 where r: "reads quiet_read (Suc 0) s = Some ([] @ [request_msg], s1)"
    "quiet_write (response_to []) s1 = Some (None, s2)" "reads quiet_read (Suc 0) s2 = Some ([] @ [complete_msg], s3)"
    "chan_buf (incomingDataMessages s3) = ms" "alive s3" "startPc s3 = startPc s"
    using handshake_reads [OF assms] by blast
  have "awaitMessage quiet_read HandshakeRequest s = Some (Inr request_msg, s1)"
    by (rule awaitMessage_returns [OF r(1)]) (simp_all add: request_msg_def)
  moreover have "awaitMessage quiet_read HandshakeComplete s2 = Some (Inr complete_msg, s3)"
    by (rule awaitMessage_returns [OF r(3)]) (simp_all add: complete_msg_def)
  moreover have "NewHandshakeResponse 0 (replicate 16 0) clientVersion [] = Inr (response_to [])"
    by (simp add: response_to_def NewHandshakeResponse_def)
  ultimately show ?thesis
    using r(2,4,5,6) by (simp add: PerformHandshake_def request_decoded)
qed

theorem handshake_exchange_witness:
  "\<exists>s s'. sess_reachable sample_tp first_error_group s
    \<and> PerformHandshake quiet_read quiet_write 0 (replicate 16 0) s = Some (Inr ''3.1.0.0'', s')
    \<and> length (givenMessages s') = Suc (length (givenMessages s))"
proof -
  obtain s where s: "sess_reachable sample_tp first_error_group s"
    "chan_buf (incomingDataMessages s) = [request_msg, complete_msg]" "outgoingMessages s = chan_make queueSize" "alive s"
    using sample_state by blast
  obtain s' where s': "PerformHandshake quiet_read quiet_write 0 (replicate 16 0) s = Some (Inr ''3.1.0.0'', s')"
    using sample_handshake [OF s(2-4)] by blast
  from handshake_exchange [OF s(1) s'] obtain resp where "givenMessages s' = givenMessages s @ [resp]"
    by blast
  with s(1) s' show ?thesis
    by auto
qed

text \<open>A handler context that is cancelled from the start.\<close>

theorem handshake_failure_witness:
  "\<exists>s'. PerformHandshake
      (sessionRead sample_tp first_error_group (\<lambda>_. []) (\<lambda>_. OnCtx) (\<lambda>_. Some context_Canceled))
      (sessionWrite sample_tp first_error_group (\<lambda>_. []) (\<lambda>_. OnCtx) (\<lambda>_. Some context_Canceled))
      0 (replicate 16 0) (up_state first_error_group) = Some (Inl (wrap2 ErrSessionHandshake context_Canceled), s')
    \<and> givenMessages s' = []"
proof -
  let ?r = "sessionRead sample_tp first_error_group (\<lambda>_. []) (\<lambda>_. OnCtx) (\<lambda>_. Some context_Canceled)"
  let ?w = "sessionWrite sample_tp first_error_group (\<lambda>_. []) (\<lambda>_. OnCtx) (\<lambda>_. Some context_Canceled)"
  let ?u = "up_state first_error_group"
  have "?r ?u = Some (Inl context_Canceled, ?u)"
    by (simp add: sessionRead_def runBackground_def Read_def alive_def up_state_def session_init_def reader_init_def)
  then have run: "PerformHandshake ?r ?w 0 (replicate 16 0) ?u
      = Some (Inl (wrap2 ErrSessionHandshake context_Canceled), ?u)"
    by (simp add: PerformHandshake_def awaitMessage.simps)
  have "hRead ?u = []" "givenMessages ?u = []"
    by (simp_all add: up_state_def session_init_def givenMessages_def)
  with handshake_failure [OF up_reachable run] run show ?thesis
    by simp
qed

end
