(* ===== verification/Session_Handler.thy ===== *)
theory Session_Handler
  imports Session_Shutdown Handler_Interface
begin

text \<open>
  What a session needs of its handler (the interface \<^verbatim>\<open>Handler\<close> of \<^verbatim>\<open>handler.go\<close>) to come to its
  end: after \<^verbatim>\<open>Stop()\<close>, a bounded number of the handler's own steps let its \<^verbatim>\<open>Wait\<close> return, and
  none of them disturbs the session. The locale states this of a system that contains a session
  and a handler, and shows that the whole system then shuts down. It is interpreted for each
  handler of the library.
\<close>

section \<open>Runs\<close>

fun run_steps :: "('e \<Rightarrow> 'p \<Rightarrow> 'p option) \<Rightarrow> 'e list \<Rightarrow> 'p \<Rightarrow> 'p option" where
  "run_steps step [] p = Some p"
| "run_steps step (e # es) p = (case step e p of None \<Rightarrow> None | Some p \<Rightarrow> run_steps step es p)"

lemma run_steps_append:
  "run_steps step es p = Some q \<Longrightarrow> run_steps step es' q = Some r \<Longrightarrow> run_steps step (es @ es') p = Some r"
  by (induction es arbitrary: p) (auto split: option.splits)

section \<open>The session's part\<close>

text \<open>A stopped session is cancelled by its stop listener, and then goes down but for its handler.\<close>

lemma stopped_session_closes:
  assumes "errgroup_laws G" and "life_inv G s" and "alive s" and "handlerWait s \<noteq> NotStarted"
    and "stopped s \<or> cause G s \<noteq> None"
  shows "\<exists>es t. length es \<le> 1 \<and> list_all closing_event es \<and> session_run tp G es s = Some t \<and> closing G t"
proof (cases "cause G s = None")
  case True
  then have "stopped s" "stopListener s = Running"
    using assms(2,4,5) by (cases "stopListener s"; auto simp: life_inv_def quiet_inv_def cause_inv_def)+
  define t where "t = goReturn G (Some errSessionStopRequested) (s\<lparr>stopListener := Finished\<rparr>)"
  have step: "session_action tp G EvStopListener s = Some t"
    using \<open>stopped s\<close> \<open>stopListener s = Running\<close> by (simp add: stopListenerStep_def t_def)
  have "cause G t \<noteq> None" "rd t = rd s"
    by (simp_all add: t_def goReturn_def errgroup_lawsD [OF assms(1)])
  with life_inv_step [OF assms(1,2) step] step assms(3) show ?thesis
    by (intro exI [of _ "[EvStopListener]"] exI [of _ t]) (simp add: session_step_def closing_def alive_def)
next
  case False
  with assms(2,3) show ?thesis
    by (intro exI [of _ "[]"] exI [of _ s]) (simp add: closing_def alive_def)
qed

lemma stopped_session_quiesces:
  assumes "errgroup_laws G" and "life_inv G s" and "alive s" and "handlerWait s \<noteq> NotStarted"
    and "stopped s \<or> cause G s \<noteq> None"
  shows "\<exists>es t. length es \<le> 15 \<and> list_all closing_event es \<and> session_run tp G es s = Some t
    \<and> closing G t \<and> quiesced t \<and> handlerStopped t \<and> handlerWait t = handlerWait s"
proof -
  from stopped_session_closes [OF assms] obtain es1 u where
    1: "length es1 \<le> 1" "list_all closing_event es1" "session_run tp G es1 s = Some u" "closing G u"
    by blast
  have "spawned u"
    using closing_run_keeps [OF 1(3,2)] assms(2,4) by (auto simp: life_inv_def quiet_inv_def spawned_def)
  from closing_session_quiesces [OF assms(1) 1(4) this] obtain es2 t where
    2: "length es2 \<le> 14" "list_all closing_event es2" "session_run tp G es2 u = Some t"
      "closing G t" "quiesced t" "handlerStopped t" "handlerWait t = handlerWait u"
    by blast
  have "length (es1 @ es2) \<le> 15" "list_all closing_event (es1 @ es2)"
    using 1(1,2) 2(1,2) by simp_all
  with session_run_append [OF 1(3) 2(3)] 2(4-7) closing_run_keeps [OF 1(3,2)] show ?thesis
    by (intro exI [of _ "es1 @ es2"] exI [of _ t]) simp
qed

section \<open>The contract\<close>

locale session_handler =
  fixes tp :: third_party
    and G :: "'g errgroup"
    and step :: "'e \<Rightarrow> 'p \<Rightarrow> 'p option" \<comment> \<open>the steps of session and handler\<close>
    and session :: "'p \<Rightarrow> 'g session"
    and valid :: "'p \<Rightarrow> bool"
    and lifted :: "session_event \<Rightarrow> 'e"
    and own :: "'e set"                  \<comment> \<open>the handler's own ways out\<close>
    and waited :: 'e                     \<comment> \<open>\<^verbatim>\<open>Handler.Wait\<close> returns to the session\<close>
    and halted :: "'p \<Rightarrow> bool"           \<comment> \<open>\<^verbatim>\<open>Handler.Stop\<close> was called, or it has failed\<close>
    and result :: "'p \<Rightarrow> go_error option option" \<comment> \<open>what \<^verbatim>\<open>Handler.Wait\<close> can return\<close>
    and bound :: nat
  assumes session_life: "valid p \<Longrightarrow> life_inv G (session p)"
    and step_valid: "valid p \<Longrightarrow> step e p = Some q \<Longrightarrow> valid q"
    and lift_step: "valid p \<Longrightarrow> closing_event se \<Longrightarrow> session_step tp G se (session p) = Some s \<Longrightarrow>
      \<exists>q. step (lifted se) p = Some q \<and> session q = s"
    and stop_halts: "valid p \<Longrightarrow> handlerStopped (session p) \<Longrightarrow> halted p"
    and own_keeps: "e \<in> own \<Longrightarrow> step e p = Some q \<Longrightarrow>
      same_life (session p) (session q) \<and> rd (session q) = rd (session p)"
    and halted_ends: "valid p \<Longrightarrow> halted p \<Longrightarrow> handlerWait (session p) \<noteq> NotStarted \<Longrightarrow> alive (session p) \<Longrightarrow>
      \<exists>es q. length es \<le> bound \<and> set es \<subseteq> own \<and> run_steps step es p = Some q \<and> result q \<noteq> None"
    and result_waited: "valid p \<Longrightarrow> result p = Some res \<Longrightarrow> handlerWait (session p) = Running \<Longrightarrow> alive (session p) \<Longrightarrow>
      \<exists>q. step waited p = Some q \<and> result q = Some res
        \<and> session q = goReturn G res ((session p)\<lparr>handlerWait := Finished\<rparr>)"
begin

lemma run_valid: "run_steps step es p = Some q \<Longrightarrow> valid p \<Longrightarrow> valid q"
  by (induction es arbitrary: p) (auto split: option.splits intro: step_valid)

lemma run_lifted:
  "session_run tp G es (session p) = Some s \<Longrightarrow> list_all closing_event es \<Longrightarrow> valid p \<Longrightarrow>
     \<exists>q. run_steps step (map lifted es) p = Some q \<and> session q = s"
proof (induction es arbitrary: p)
  case (Cons e es)
  then obtain u where u: "session_step tp G e (session p) = Some u" "session_run tp G es u = Some s"
    by (auto split: option.splits)
  with Cons.prems lift_step [of p e u] obtain q where q: "step (lifted e) p = Some q" "session q = u"
    by auto
  with Cons.IH [of q] u(2) Cons.prems step_valid [OF _ q(1)] show ?case
    by auto
qed simp

lemma run_own:
  "run_steps step es p = Some q \<Longrightarrow> set es \<subseteq> own \<Longrightarrow>
     same_life (session p) (session q) \<and> rd (session q) = rd (session p)"
proof (induction es arbitrary: p)
  case (Cons e es)
  then obtain u where u: "step e p = Some u" "run_steps step es u = Some q"
    by (auto split: option.splits)
  with Cons.IH [OF u(2)] Cons.prems(2) own_keeps [OF _ u(1)] show ?case
    by (simp add: same_life_def)
qed (simp add: same_life_def)

text \<open>The last step: the handler's \<^verbatim>\<open>Wait\<close> returns, unless it has before.\<close>

lemma last_wait:
  assumes "errgroup_laws G" and "valid p" and "result p \<noteq> None" and "closing G (session p)" and "quiesced (session p)"
  shows "\<exists>es q. length es \<le> 1 \<and> set es \<subseteq> {waited} \<and> run_steps step es p = Some q \<and> result q \<noteq> None
    \<and> allReturned (session q) \<and> cause G (session q) \<noteq> None"
proof (cases "handlerWait (session p) = Running")
  case True
  have "alive (session p)"
    using assms(4) by (simp add: closing_def alive_def)
  from assms(3) obtain res where "result p = Some res"
    by blast
  from result_waited [OF assms(2) this True \<open>alive (session p)\<close>] obtain q where q: "step waited p = Some q" "result q \<noteq> None"
    "session q = goReturn G res ((session p)\<lparr>handlerWait := Finished\<rparr>)"
    by blast
  have "allReturned (session q)" "cause G (session q) \<noteq> None"
    using assms(4,5) by (simp_all add: q(3) allReturned_def quiesced_def goReturn_def closing_def
        errgroup_lawsD [OF assms(1)])
  with q(1,2) show ?thesis
    by (intro exI [of _ "[waited]"] exI [of _ q]) simp
next
  case False
  with assms show ?thesis
    by (intro exI [of _ "[]"] exI [of _ p]) (simp add: allReturned_quiesced closing_def)
qed

lemma system_ends:
  assumes laws: "errgroup_laws G" and valid: "valid p" and "alive (session p)"
    and "handlerWait (session p) \<noteq> NotStarted" and "stopped (session p) \<or> cause G (session p) \<noteq> None"
  shows "\<exists>es q res. length es \<le> bound + 16 \<and> set es \<subseteq> lifted ` {e. closing_event e} \<union> own \<union> {waited}
    \<and> run_steps step es p = Some q \<and> result q \<noteq> None \<and> Wait G OnGroup ctx (session q) = Some res"
proof -
  from stopped_session_quiesces [OF laws session_life [OF valid] assms(3-5)] obtain es1 s where
    1: "length es1 \<le> 15" "list_all closing_event es1" "session_run tp G es1 (session p) = Some s"
      "closing G s" "quiesced s" "handlerStopped s" "handlerWait s = handlerWait (session p)"
    by blast
  from run_lifted [OF 1(3,2) valid] obtain p1 where
    p1: "run_steps step (map lifted es1) p = Some p1" "session p1 = s"
    by blast
  note valid1 = run_valid [OF p1(1) valid]
  have "halted p1" "handlerWait (session p1) \<noteq> NotStarted" "alive (session p1)"
    using stop_halts [OF valid1] 1 assms(4) by (simp_all add: p1(2) closing_def alive_def)
  from halted_ends [OF valid1 this] obtain es2 p2 where
    2: "length es2 \<le> bound" "set es2 \<subseteq> own" "run_steps step es2 p1 = Some p2" "result p2 \<noteq> None"
    by blast
  note valid2 = run_valid [OF 2(3) valid1]
  have "closing G (session p2)" "quiesced (session p2)"
    using run_own [OF 2(3,2)] 1(4,5) session_life [OF valid2]
    by (auto simp: p1(2) closing_def quiesced_def same_life_def)
  from last_wait [OF laws valid2 2(4) this] obtain es3 q where
    3: "length es3 \<le> 1" "set es3 \<subseteq> {waited}" "run_steps step es3 p2 = Some q" "result q \<noteq> None"
      "allReturned (session q)" "cause G (session q) \<noteq> None"
    by blast
  have "\<exists>res. Wait G OnGroup ctx (session q) = Some res"
    using 3(5,6) by (simp add: Wait_def)
  moreover have "set (map lifted es1) \<subseteq> lifted ` {e. closing_event e}"
    using 1(2) by (auto simp: list_all_iff)
  then have "set (map lifted es1 @ es2 @ es3) \<subseteq> lifted ` {e. closing_event e} \<union> own \<union> {waited}"
    using 2(2) 3(2) by auto
  moreover have "length (map lifted es1 @ es2 @ es3) \<le> bound + 16"
    using 1(1) 2(1) 3(1) by simp
  moreover have "run_steps step (map lifted es1 @ es2 @ es3) p = Some q"
    by (rule run_steps_append [OF p1(1) run_steps_append [OF 2(3) 3(3)]])
  ultimately show ?thesis
    using 3(4) by blast
qed

end

section \<open>What the session reports\<close>

text \<open>A step of the session in which its handler's \<^verbatim>\<open>Start\<close> and \<^verbatim>\<open>Wait\<close> have no part.\<close>

inductive session_own :: "third_party \<Rightarrow> 'g errgroup \<Rightarrow> 'g session \<Rightarrow> 'g session \<Rightarrow> bool" for tp G where
  session_ownI: "session_step tp G e s = Some t \<Longrightarrow> \<not> handler_returns e \<Longrightarrow> session_own tp G s t"

inductive_cases session_ownE [consumes 1, case_names step]: "session_own tp G s t"

definition told :: "'g errgroup \<Rightarrow> (go_error \<Rightarrow> bool) \<Rightarrow> 'g session \<Rightarrow> bool" where
  "told G R s \<longleftrightarrow>
     (\<forall>x. cause G s = Some x \<longrightarrow> x = errSessionStopRequested \<or> own_error x s \<or> R x)"

lemma told_mono: "told G R s \<Longrightarrow> (\<And>x. R x \<Longrightarrow> R' x) \<Longrightarrow> told G R' s"
  unfolding told_def by blast

lemma told_step:
  assumes "errgroup_laws G" and "life_inv G s" and "told G R s" and "session_step tp G e s = Some t"
    and "\<And>x. e = EvHandlerWait (Some x) \<Longrightarrow> R x"
  shows "told G R t"
  unfolding told_def
proof (intro allI impI)
  fix x assume t: "cause G t = Some x"
  show "x = errSessionStopRequested \<or> own_error x t \<or> R x"
  proof (cases "cause G s")
    case None
    with session_step_cause(2) [OF assms(1,4,2) None t] assms(5) show ?thesis
      by blast
  next
    case (Some y)
    with session_step_cause(1) [OF assms(1,4,2)] t have "cause G s = Some x"
      by simp
    moreover have "start_inv s"
      using assms(2) by (simp add: life_inv_def)
    ultimately show ?thesis
      using assms(3) own_error_stays [OF assms(4)] unfolding told_def by blast
  qed
qed

lemma told_own:
  assumes "errgroup_laws G"
  shows "(session_own tp G)\<^sup>*\<^sup>* s t \<Longrightarrow> life_inv G s \<Longrightarrow> told G R s \<Longrightarrow> life_inv G t \<and> told G R t"
proof (induction rule: rtranclp_induct)
  case (step t u)
  then obtain e where e: "session_step tp G e t = Some u" "\<not> handler_returns e"
    by (auto elim: session_ownE)
  moreover have "told G R u"
    by (rule told_step [OF assms _ _ e(1)]) (use step e(2) in auto)
  ultimately show ?case
    using step life_inv_step [OF assms _ session_step_action [OF e(1)]] by blast
qed simp

text \<open>
  Every step of the system moves the session by steps of its own, or is the return of the
  handler's \<^verbatim>\<open>Start\<close> or \<^verbatim>\<open>Wait\<close>; an error of the latter has a reason, and reasons stay.
\<close>

locale session_outcome = session_handler +
  fixes initial :: "'b \<Rightarrow> bool"
    and reason :: "go_error \<Rightarrow> 'b \<Rightarrow> bool"
  assumes laws: "valid p \<Longrightarrow> errgroup_laws G"
    and initial_valid: "initial p \<Longrightarrow> valid p"
    and initial_cause: "initial p \<Longrightarrow> cause G (session p) = None"
    and reason_stays: "valid p \<Longrightarrow> step e p = Some q \<Longrightarrow> reason x p \<Longrightarrow> reason x q"
    and moves: "valid p \<Longrightarrow> step e p = Some q \<Longrightarrow>
      (session_own tp G)\<^sup>*\<^sup>* (session p) (session q)
      \<or> (\<exists>res. session_step tp G (EvHandlerStart res) (session p) = Some (session q))
      \<or> (\<exists>res. session_step tp G (EvHandlerWait res) (session p) = Some (session q)
          \<and> (\<forall>x. res = Some x \<longrightarrow> reason x q))"
    and reason_halts: "reason x p \<Longrightarrow> halted p"
    and reason_result: "valid p \<Longrightarrow> reason x p \<Longrightarrow> result p = Some res \<Longrightarrow> res = Some x"
begin

definition why :: "'b \<Rightarrow> bool" where
  "why p \<longleftrightarrow> told G (\<lambda>x. reason x p) (session p)"

lemma why_step:
  assumes "valid p" and "why p" and "step e p = Some q"
  shows "why q"
proof -
  note G = laws [OF assms(1)] and life = session_life [OF assms(1)]
  have told: "told G (\<lambda>x. reason x q) (session p)"
    using assms(2) unfolding why_def by (rule told_mono) (rule reason_stays [OF assms(1,3)])
  from moves [OF assms(1,3)] consider "(session_own tp G)\<^sup>*\<^sup>* (session p) (session q)"
    | res where "session_step tp G (EvHandlerStart res) (session p) = Some (session q)"
    | res where "session_step tp G (EvHandlerWait res) (session p) = Some (session q)"
        "\<forall>x. res = Some x \<longrightarrow> reason x q"
    by blast
  then show ?thesis
  proof cases
    case 1
    from told_own [OF G this life told] show ?thesis
      by (simp add: why_def)
  next
    case 2
    show ?thesis
      unfolding why_def by (rule told_step [OF G life told 2]) simp
  next
    case 3
    show ?thesis
      unfolding why_def by (rule told_step [OF G life told 3(1)]) (use 3(2) in simp)
  qed
qed

sublocale outcome: inductive_invariant initial "\<lambda>p q. \<exists>e. step e p = Some q" "\<lambda>p. valid p \<and> why p"
proof unfold_locales
  fix p q
  show "initial p \<Longrightarrow> valid p \<and> why p"
    using initial_valid initial_cause by (simp add: why_def told_def)
  assume "valid p \<and> why p" and "\<exists>e. step e p = Some q"
  then show "valid q \<and> why q"
    using step_valid why_step by blast
qed

lemma reported:
  assumes "reachable initial (\<lambda>p q. \<exists>e. step e p = Some q) p"
    and "Wait G OnGroup ctx (session p) = Some res"
  shows "(res = None \<longleftrightarrow> cause G (session p) = Some errSessionStopRequested)
    \<and> (\<forall>x. res = Some x \<longrightarrow> own_error x (session p) \<or> reason x p)"
proof -
  have p: "valid p" "why p"
    using outcome.reachable_inv [OF assms(1)] by simp_all
  have "eg_error G (errgrp (session p)) = cause G (session p)"
    using session_life [OF p(1)] by (simp add: life_inv_def cause_inv_def)
  then obtain c where "cause G (session p) = Some c" "res = (if c = errSessionStopRequested then None else Some c)"
    using assms(2) by (auto simp: Wait_def waitResult_def split: if_splits)
  with p(2) show ?thesis
    by (auto simp: why_def told_def)
qed

text \<open>A handler that fails while the session waits for it takes the session down.\<close>

lemma run_reason: "run_steps step es p = Some q \<Longrightarrow> valid p \<Longrightarrow> reason x p \<Longrightarrow> reason x q"
  by (induction es arbitrary: p) (auto split: option.splits intro: step_valid reason_stays)

lemma failure_ends:
  assumes valid: "valid p" and "alive (session p)" and wait: "handlerWait (session p) = Running" and "reason x p"
  shows "\<exists>es q res. length es \<le> 2 * bound + 17 \<and> set es \<subseteq> lifted ` {e. closing_event e} \<union> own \<union> {waited}
    \<and> run_steps step es p = Some q \<and> result q \<noteq> None \<and> Wait G OnGroup ctx (session q) = Some res"
proof -
  have "handlerWait (session p) \<noteq> NotStarted"
    using wait by simp
  from halted_ends [OF valid reason_halts [OF assms(4)] this assms(2)] obtain es1 p1 where
    1: "length es1 \<le> bound" "set es1 \<subseteq> own" "run_steps step es1 p = Some p1" "result p1 \<noteq> None"
    by blast
  note valid1 = run_valid [OF 1(3) valid]
  from 1(4) reason_result [OF valid1 run_reason [OF 1(3) valid assms(4)]] have result: "result p1 = Some (Some x)"
    by blast
  have "handlerWait (session p1) = Running" "alive (session p1)"
    using run_own [OF 1(3,2)] assms(2) wait by (simp_all add: same_life_def alive_def)
  from result_waited [OF valid1 result this] obtain p2 where 2: "step waited p1 = Some p2"
    "session p2 = goReturn G (Some x) ((session p1)\<lparr>handlerWait := Finished\<rparr>)"
    by blast
  have "alive (session p2)" "handlerWait (session p2) \<noteq> NotStarted" "cause G (session p2) \<noteq> None"
    using \<open>alive (session p1)\<close> by (simp_all add: 2(2) alive_def goReturn_def errgroup_lawsD [OF laws [OF valid]])
  with system_ends [OF laws [OF valid] step_valid [OF valid1 2(1)]] obtain es3 q res where
    3: "length es3 \<le> bound + 16" "set es3 \<subseteq> lifted ` {e. closing_event e} \<union> own \<union> {waited}"
      "run_steps step es3 p2 = Some q" "result q \<noteq> None" "Wait G OnGroup ctx (session q) = Some res"
    by blast
  have "run_steps step (es1 @ waited # es3) p = Some q"
    by (rule run_steps_append [OF 1(3)]) (simp add: 2(1) 3(3))
  moreover have "length (es1 @ waited # es3) \<le> 2 * bound + 17"
    using 1(1) 3(1) by simp
  moreover have "set (es1 @ waited # es3) \<subseteq> lifted ` {e. closing_event e} \<union> own \<union> {waited}"
    using 1(2) 3(2) by auto
  ultimately show ?thesis
    using 3(4,5) by blast
qed

text \<open>So a session ends once it was stopped or cancelled, or its handler has failed.\<close>

definition going :: "'b \<Rightarrow> bool" where
  "going p \<longleftrightarrow> stopped (session p) \<or> cause G (session p) \<noteq> None
     \<or> handlerWait (session p) = Running \<and> (\<exists>x. reason x p)"

lemma going_ends:
  assumes "valid p" and "alive (session p)" and "handlerWait (session p) \<noteq> NotStarted" and "going p"
  shows "\<exists>es q res. length es \<le> 2 * bound + 17 \<and> set es \<subseteq> lifted ` {e. closing_event e} \<union> own \<union> {waited}
    \<and> run_steps step es p = Some q \<and> result q \<noteq> None \<and> Wait G OnGroup ctx (session q) = Some res"
proof (cases "stopped (session p) \<or> cause G (session p) \<noteq> None")
  case True
  from system_ends [OF laws [OF assms(1)] assms(1-3) True, of ctx] obtain es q res where
    q: "length es \<le> bound + 16" "set es \<subseteq> lifted ` {e. closing_event e} \<union> own \<union> {waited}"
      "run_steps step es p = Some q" "result q \<noteq> None" "Wait G OnGroup ctx (session q) = Some res"
    by blast
  then have "length es \<le> 2 * bound + 17"
    by simp
  with q show ?thesis
    by blast
next
  case False
  with assms(4) obtain x where "handlerWait (session p) = Running" "reason x p"
    by (auto simp: going_def)
  from failure_ends [OF assms(1,2) this] show ?thesis .
qed

end

end
