(* ===== verification/Nop_Session.thy ===== *)
theory Nop_Session
  imports Session_Handler Session_Spec
begin

text \<open>
  A session without a handler of its own. \<^verbatim>\<open>Session.init\<close> gives it a \<^verbatim>\<open>NopHandler\<close>
  (\<^verbatim>\<open>handler.go\<close>), whose \<^verbatim>\<open>Wait\<close> returns nil once the session has called its \<^verbatim>\<open>Stop\<close>; data is then
  read and written by the user through \<^verbatim>\<open>Session.Read\<close> and \<^verbatim>\<open>Session.Write\<close>.
\<close>

section \<open>State and steps\<close>

record 'g nop_session =
  nssn :: "'g session"
  nstopped :: bool                    \<comment> \<open>the channel \<^verbatim>\<open>stopped\<close> of the handler is closed\<close>

definition nop_init :: "'g errgroup \<Rightarrow> 'g nop_session" where
  "nop_init G = \<lparr>nssn = session_init G, nstopped = False\<rparr>"

text \<open>A step of the session; its cleanup goroutine calls \<^verbatim>\<open>NopHandler.Stop\<close>.\<close>

definition nopSession ::
    "third_party \<Rightarrow> 'g errgroup \<Rightarrow> session_event \<Rightarrow> 'g nop_session \<Rightarrow> 'g nop_session option" where
  "nopSession tp G e p =
     map_option (\<lambda>s. p\<lparr>nssn := s,
         nstopped := (if handlerStopped s then NopHandler_Stop (nstopped p) else nstopped p)\<rparr>)
       (session_step tp G e (nssn p))"

definition nopStarted :: "third_party \<Rightarrow> 'g errgroup \<Rightarrow> 'g nop_session \<Rightarrow> 'g nop_session option" where
  "nopStarted tp G p =
     (case NopHandler_Start (nstopped p) of
        (res, n) \<Rightarrow> nopSession tp G (EvHandlerStart res) (p\<lparr>nstopped := n\<rparr>))"

text \<open>The session waits with \<^verbatim>\<open>context.Background()\<close>, which is never done.\<close>

definition nopWaited ::
    "third_party \<Rightarrow> 'g errgroup \<Rightarrow> select_case \<Rightarrow> 'g nop_session \<Rightarrow> 'g nop_session option" where
  "nopWaited tp G branch p =
     (case NopHandler_Wait branch None (nstopped p) of
        None \<Rightarrow> None
      | Some res \<Rightarrow> nopSession tp G (EvHandlerWait res) p)"

datatype nop_event = NsSession session_event | NsStarted | NsWaited select_case

fun nop_step :: "third_party \<Rightarrow> 'g errgroup \<Rightarrow> nop_event \<Rightarrow> 'g nop_session \<Rightarrow> 'g nop_session option" where
  "nop_step tp G (NsSession e) p = (if handler_returns e then None else nopSession tp G e p)"
| "nop_step tp G NsStarted p = nopStarted tp G p"
| "nop_step tp G (NsWaited branch) p = nopWaited tp G branch p"

inductive nop_trans :: "third_party \<Rightarrow> 'g errgroup \<Rightarrow> 'g nop_session \<Rightarrow> 'g nop_session \<Rightarrow> bool" for tp G where
  nop_transI: "nop_step tp G e p = Some q \<Longrightarrow> nop_trans tp G p q"

inductive_cases nop_transE [consumes 1, case_names step]: "nop_trans tp G p q"

definition nop_start :: "'g errgroup \<Rightarrow> 'g nop_session \<Rightarrow> bool" where
  "nop_start G p \<longleftrightarrow> p = nop_init G"

abbreviation nop_reachable :: "third_party \<Rightarrow> 'g errgroup \<Rightarrow> 'g nop_session \<Rightarrow> bool" where
  "nop_reachable tp G \<equiv> reachable (nop_start G) (nop_trans tp G)"

lemma nop_run_reachable:
  "nop_reachable tp G p \<Longrightarrow> run_steps (nop_step tp G) es p = Some q \<Longrightarrow> nop_reachable tp G q"
  by (induction es arbitrary: p)
    (auto split: option.splits intro: reach_step [of "nop_start G" "nop_trans tp G", OF _ nop_transI])

lemmas nop_defs = nopSession_def nopStarted_def nopWaited_def NopHandler_Start_def NopHandler_Stop_def

text \<open>Every step is one of the session.\<close>

lemma nop_stepE:
  assumes "nop_step tp G e p = Some q"
  obtains se where "session_step tp G se (nssn p) = Some (nssn q)"
    "nstopped q = (handlerStopped (nssn q) \<or> nstopped p)" "\<forall>res. se = EvHandlerWait res \<longrightarrow> nstopped p \<and> res = None"
    "\<forall>res. se = EvHandlerStart res \<longrightarrow> res = None"
proof (cases e)
  case (NsSession se)
  with assms that [of se] show ?thesis
    by (cases se) (auto simp: nop_defs)
next
  case NsStarted
  with assms that [of "EvHandlerStart None"] show ?thesis
    by (auto simp: nop_defs)
next
  case (NsWaited b)
  with assms that [of "EvHandlerWait None"] show ?thesis
    by (auto simp: nop_defs NopHandler_Wait_def split: option.splits select_case.splits if_splits)
qed

section \<open>Invariant\<close>

text \<open>The handler is stopped by the session, and only after the session was cancelled.\<close>

definition nop_inv :: "third_party \<Rightarrow> 'g errgroup \<Rightarrow> 'g nop_session \<Rightarrow> bool" where
  "nop_inv tp G p \<longleftrightarrow> sess_reachable tp G (nssn p) \<and> (nstopped p \<longleftrightarrow> handlerStopped (nssn p))
     \<and> (handlerWait (nssn p) = Finished \<longrightarrow> handlerStopped (nssn p)) \<and> failThread (nssn p) = NotStarted
     \<and> (handlerStopped (nssn p) \<longrightarrow> cause G (nssn p) \<noteq> None)"

lemma nop_inv_step:
  assumes "errgroup_laws G" and "nop_inv tp G p" and "nop_step tp G e p = Some q"
  shows "nop_inv tp G q"
proof -
  obtain se where se: "session_step tp G se (nssn p) = Some (nssn q)"
    "nstopped q = (handlerStopped (nssn q) \<or> nstopped p)" "\<forall>res. se = EvHandlerWait res \<longrightarrow> nstopped p \<and> res = None"
    "\<forall>res. se = EvHandlerStart res \<longrightarrow> res = None"
    by (rule nop_stepE [OF assms(3)])
  note latch = session_step_latches [OF se(1)]
  have "sess_reachable tp G (nssn q)"
    using assms(2) se(1) by (auto simp: nop_inv_def intro: reach_step session_trans.intros)
  moreover have "life_inv G (nssn p)"
    using assms(1,2) by (auto simp: nop_inv_def intro: reachable_life)
  from handlerStopped_step [OF assms(1) this se(1)] assms(2)
  have "handlerStopped (nssn q) \<longrightarrow> cause G (nssn q) \<noteq> None"
    by (simp add: nop_inv_def)
  ultimately show ?thesis
    using assms(2) se(2-4) latch unfolding nop_inv_def by (metis option.distinct(1) thread.distinct(5))
qed

lemma nop_inv_init: "nop_inv tp G (nop_init G)"
  by (simp add: nop_inv_def nop_init_def reach_init session_start_def) (simp add: session_init_def)

interpretation nop: inductive_invariant "nop_start G" "nop_trans tp G"
  "\<lambda>p. errgroup_laws G \<longrightarrow> nop_inv tp G p" for tp G
proof unfold_locales
  fix p q
  show "nop_start G p \<Longrightarrow> errgroup_laws G \<longrightarrow> nop_inv tp G p"
    by (simp add: nop_start_def nop_inv_init)
  assume "errgroup_laws G \<longrightarrow> nop_inv tp G p" and "nop_trans tp G p q"
  then show "errgroup_laws G \<longrightarrow> nop_inv tp G q"
    by (auto elim!: nop_transE intro: nop_inv_step)
qed

section \<open>The contract of a handler\<close>

definition nop_result :: "'g nop_session \<Rightarrow> go_error option option" where
  "nop_result p = NopHandler_Wait OnChannel None (nstopped p)"

interpretation nopsys: session_handler tp G "nop_step tp G" nssn
  "\<lambda>p. nop_reachable tp G p \<and> errgroup_laws G" NsSession "{}" "NsWaited OnChannel" nstopped nop_result 0
  for tp G
proof unfold_locales
  fix p q e se s
  assume valid: "nop_reachable tp G p \<and> errgroup_laws G"
  then have inv: "nop_inv tp G p"
    using nop.reachable_inv by blast
  show "life_inv G (nssn p)"
    using inv valid by (auto simp: nop_inv_def intro: reachable_life)
  show "nop_step tp G e p = Some q \<Longrightarrow> nop_reachable tp G q \<and> errgroup_laws G"
    using valid by (auto intro: reach_step [of "nop_start G"] nop_transI)
  show "closing_event se \<Longrightarrow> session_step tp G se (nssn p) = Some s \<Longrightarrow>
      \<exists>q. nop_step tp G (NsSession se) p = Some q \<and> nssn q = s"
    by (cases se) (auto simp: nop_defs)
  show "handlerStopped (nssn p) \<Longrightarrow> nstopped p"
    using inv by (simp add: nop_inv_def)
  show "nstopped p \<Longrightarrow> handlerWait (nssn p) \<noteq> NotStarted \<Longrightarrow> alive (nssn p) \<Longrightarrow>
      \<exists>es q. length es \<le> 0 \<and> set es \<subseteq> {} \<and> run_steps (nop_step tp G) es p = Some q \<and> nop_result q \<noteq> None"
    by (intro exI [of _ "[]"] exI [of _ p]) (simp add: nop_result_def NopHandler_Wait_def)
  fix res
  show "nop_result p = Some res \<Longrightarrow> handlerWait (nssn p) = Running \<Longrightarrow> alive (nssn p) \<Longrightarrow>
      \<exists>q. nop_step tp G (NsWaited OnChannel) p = Some q \<and> nop_result q = Some res
        \<and> nssn q = goReturn G res ((nssn p)\<lparr>handlerWait := Finished\<rparr>)"
    by (auto simp: nop_result_def NopHandler_Wait_def nop_defs session_step_def alive_def handlerWaitStep_def
        split: if_splits)
qed simp

lemma nop_trans_eq: "nop_trans tp G = (\<lambda>p q. \<exists>e. nop_step tp G e p = Some q)"
  by (intro ext) (simp add: nop_trans.simps)

interpretation nopsys: session_outcome tp G "nop_step tp G" nssn
  "\<lambda>p. nop_reachable tp G p \<and> errgroup_laws G" NsSession "{}" "NsWaited OnChannel" nstopped nop_result 0
  "\<lambda>p. nop_start G p \<and> errgroup_laws G" "\<lambda>x p. False"
  for tp G
proof unfold_locales
  fix p q e
  show "nop_start G p \<and> errgroup_laws G \<Longrightarrow> nop_reachable tp G p \<and> errgroup_laws G"
    by (simp add: reach_init)
  show "nop_start G p \<and> errgroup_laws G \<Longrightarrow> cause G (nssn p) = None"
    by (simp add: nop_start_def nop_init_def session_init_def errgroup_lawsD)
  assume step: "nop_step tp G e p = Some q"
  obtain se where "session_step tp G se (nssn p) = Some (nssn q)" "\<forall>res. se = EvHandlerWait res \<longrightarrow> res = None"
    by (rule nop_stepE [OF step]) blast
  then show "(session_own tp G)\<^sup>*\<^sup>* (nssn p) (nssn q)
      \<or> (\<exists>res. session_step tp G (EvHandlerStart res) (nssn p) = Some (nssn q))
      \<or> (\<exists>res. session_step tp G (EvHandlerWait res) (nssn p) = Some (nssn q) \<and> (\<forall>x. res = Some x \<longrightarrow> False))"
    by (cases "handler_returns se") (auto elim: handler_returns.elims intro: session_ownI)
qed simp_all

section \<open>Sample run\<close>

text \<open>Started, and stopped at once by its user.\<close>

definition nop_up :: "nop_event list" where
  "nop_up = [NsSession (EvDial None), NsSession (EvOpen None None), NsStarted]"

definition nop_down :: "nop_event list" where
  "nop_down = map NsSession (butlast sample_down) @ [NsWaited OnChannel]"

lemma nop_up_run:
  "run_steps (nop_step tp G) nop_up (nop_init G) = Some \<lparr>nssn = up_state G, nstopped = False\<rparr>"
  by (simp add: nop_up_def nop_defs nop_init_def session_step_def session_init_def reader_init_def startDial_def startable_def
      startOpen_def openDataChannel_def startHandler_def up_state_def)

lemma nop_down_run:
  assumes "errgroup_laws G"
  shows "run_steps (nop_step tp G) nop_down \<lparr>nssn = up_state G, nstopped = False\<rparr>
    = Some \<lparr>nssn = down_state G, nstopped = True\<rparr>"
  by (simp add: nop_down_def sample_down_def nop_defs session_step_def up_state_def session_init_def reader_init_def
      writer_init_def Stop_def stopReturn_def signalStop_def stopListenerStep_def goReturn_def
      cleanupStep_def errgroup_lawsD [OF assms] writerStep_def writer_step_def writer_enabled_def
      writerReturn_def readerStep_def readerReturn_def handlerWaitStep_def ctxErr_def down_state_def
      chan_send_def chan_make_def queueSize_def NopHandler_Wait_def)

lemma nop_samples:
  assumes "errgroup_laws G"
  shows "nop_reachable tp G \<lparr>nssn = up_state G, nstopped = False\<rparr>"
    "nop_reachable tp G \<lparr>nssn = down_state G, nstopped = True\<rparr>"
proof -
  have "nop_reachable tp G (nop_init G)"
    by (simp add: reach_init nop_start_def)
  then show up: "nop_reachable tp G \<lparr>nssn = up_state G, nstopped = False\<rparr>"
    by (rule nop_run_reachable [OF _ nop_up_run])
  then show "nop_reachable tp G \<lparr>nssn = down_state G, nstopped = True\<rparr>"
    by (rule nop_run_reachable [OF _ nop_down_run [OF assms]])
qed

section \<open>Properties\<close>

lemma nop_reachable_outcome:
  assumes "nop_reachable tp G p" and "errgroup_laws G"
  shows "reachable (\<lambda>p. nop_start G p \<and> errgroup_laws G) (\<lambda>p q. \<exists>e. nop_step tp G e p = Some q) p"
  using assms by (simp add: nop_trans_eq)

text \<open>C23: A session without a handler ends when it is stopped or fails, and not before. In every
  reachable state in which \<^verbatim>\<open>Start\<close> has returned nil, once \<^verbatim>\<open>Stop\<close> has taken effect or anything has
  failed (and the process has not panicked), at most sixteen steps of the session and of its
  \<^verbatim>\<open>NopHandler\<close> lead to a state in which \<^verbatim>\<open>Wait\<close> returns; and as long as neither has happened, the
  handler's \<^verbatim>\<open>Wait\<close> does not return.\<close>

theorem nop_session_ends:
  assumes "nop_reachable tp G p" and "errgroup_laws G" and "startPc (nssn p) = StReturned None"
    and "rpc (rd (nssn p)) \<noteq> RPanicked"
  shows "if stopped (nssn p) \<or> cause G (nssn p) \<noteq> None
    then \<exists>es q res. length es \<le> 16 \<and> run_steps (nop_step tp G) es p = Some q \<and> Wait G OnGroup ctx (nssn q) = Some res
    else NopHandler_Wait branch None (nstopped p) = None \<and> handlerWait (nssn p) = Running"
proof -
  have inv: "nop_inv tp G p" "life_inv G (nssn p)"
    using nop.reachable_inv [OF assms(1)] assms(2) by (auto simp: nop_inv_def intro: reachable_life)
  then have wait: "handlerWait (nssn p) \<noteq> NotStarted"
    using assms(3) by (simp add: life_inv_def start_inv_def)
  show ?thesis
  proof (cases "stopped (nssn p) \<or> cause G (nssn p) \<noteq> None")
    case True
    have "alive (nssn p)"
      using assms(4) by (simp add: alive_def)
    from nopsys.system_ends [OF assms(2) conjI [OF assms(1,2)] this wait True] True show ?thesis
      by fastforce
  next
    case False
    then have "\<not> handlerStopped (nssn p)"
      using inv(1) by (simp add: nop_inv_def)
    with inv(1) wait False show ?thesis
      by (cases "handlerWait (nssn p)") (auto simp: nop_inv_def NopHandler_Wait_def split: select_case.split)
  qed
qed

theorem nop_session_ends_witness:
  "\<exists>p es q res. run_steps (nop_step sample_tp first_error_group) [NsSession (EvStop 0 []), NsSession EvStopReturn]
      \<lparr>nssn = up_state first_error_group, nstopped = False\<rparr> = Some p \<and> stopped (nssn p)
    \<and> length es \<le> 16 \<and> run_steps (nop_step sample_tp first_error_group) es p = Some q
    \<and> Wait first_error_group OnGroup None (nssn q) = Some res"
proof -
  obtain p where p: "run_steps (nop_step sample_tp first_error_group) [NsSession (EvStop 0 []), NsSession EvStopReturn]
      \<lparr>nssn = up_state first_error_group, nstopped = False\<rparr> = Some p"
    "startPc (nssn p) = StReturned None" "rpc (rd (nssn p)) \<noteq> RPanicked" "stopped (nssn p)"
    by (simp add: nop_defs session_step_def up_state_def session_init_def reader_init_def Stop_def stopReturn_def
        signalStop_def chan_send_def chan_make_def queueSize_def)
  from nop_session_ends [OF nop_run_reachable [OF nop_samples(1) p(1)] _ p(2,3), of None] p(1,4) first_error_group_laws
  show ?thesis
    by auto
qed

text \<open>What \<^verbatim>\<open>Wait\<close> of a session without a handler says is what happened. When it returns because
  the session has ended, the result is nil exactly if the first error was that of a requested
  stop; any other result is the error with which the receiver or the sender returned.\<close>

lemma nop_session_tells_why:
  assumes "nop_reachable tp G p" and "errgroup_laws G" and "Wait G OnGroup ctx (nssn p) = Some res"
  shows "(res = None \<longleftrightarrow> cause G (nssn p) = Some errSessionStopRequested)
    \<and> (\<forall>x. res = Some x \<longrightarrow> rpc (rd (nssn p)) = RReturned x \<or> wreturned (wrt (nssn p)) = Some x)"
proof -
  have "nop_inv tp G p"
    using nop.reachable_inv [OF assms(1)] assms(2) by blast
  with nopsys.reported [OF nop_reachable_outcome [OF assms(1,2)] assms(3)] show ?thesis
    by (auto simp: own_error_def nop_inv_def)
qed

end
