(* ===== verification/Session_Defaults.thy ===== *)
theory Session_Defaults
  imports Nop_Session
begin

text \<open>
  The fields of a \<^verbatim>\<open>Session\<close> that its user may leave out, and what \<^verbatim>\<open>Session.init\<close> puts there: a
  \<^verbatim>\<open>NopHandler\<close>, the dialer of the websocket package, and a logger that discards everything
  (\<^verbatim>\<open>handler/discardLogger.go\<close>). Every method of a session calls \<^verbatim>\<open>init\<close> first, so that it must
  not do anything when it is called again.
\<close>

section \<open>The discarding log handler\<close>

datatype discardHandler = DiscardHandler

definition discard_Enabled :: "discardHandler \<Rightarrow> 'level \<Rightarrow> bool" where
  "discard_Enabled dh level = False"

definition discard_Handle :: "discardHandler \<Rightarrow> 'record \<Rightarrow> go_error option" where
  "discard_Handle dh r = None"

definition discard_WithAttrs :: "discardHandler \<Rightarrow> 'attr list \<Rightarrow> discardHandler" where
  "discard_WithAttrs dh attrs = dh"

definition discard_WithGroup :: "discardHandler \<Rightarrow> string \<Rightarrow> discardHandler" where
  "discard_WithGroup dh name = dh"

text \<open>Derived loggers discard as well.\<close>

lemma discards:
  "\<not> discard_Enabled (discard_WithAttrs dh attrs) level" "\<not> discard_Enabled (discard_WithGroup dh name) level"
  "discard_Handle (discard_WithAttrs dh attrs) r = None" "discard_Handle (discard_WithGroup dh name) r = None"
  by (simp_all add: discard_Enabled_def discard_Handle_def)

section \<open>Dialers\<close>

text \<open>
  A \<^verbatim>\<open>WebsocketDialer\<close> is its method \<^verbatim>\<open>Dial\<close>, which returns a connection and an error. The
  default one calls \<^verbatim>\<open>websocket.DefaultDialer.Dial\<close>, of a third-party package and a parameter here,
  and drops the HTTP response.
\<close>

type_synonym 'conn dialer = "string \<Rightarrow> 'conn option \<times> go_error option"

definition WebsocketDialerFunc :: "'conn dialer \<Rightarrow> 'conn dialer" where
  "WebsocketDialerFunc wdf = (\<lambda>url. wdf url)"

definition defaultDialer :: "(string \<Rightarrow> 'conn option \<times> 'resp \<times> go_error option) \<Rightarrow> 'conn dialer" where
  "defaultDialer DefaultDialer_Dial =
     WebsocketDialerFunc (\<lambda>url. case DefaultDialer_Dial url of (ws, resp, err) \<Rightarrow> (ws, err))"

section \<open>Initialisation\<close>

text \<open>A handler of the user's, or \<^verbatim>\<open>NopHandler\<close>; a logger of the user's, or the discarding one.\<close>

datatype 'h chosen_handler = UserHandler 'h | DefaultNopHandler
datatype 'l chosen_log = UserLog 'l | DiscardLog discardHandler

record ('g, 'h, 'conn, 'l) session_object =
  initOnce :: bool                    \<comment> \<open>the \<^verbatim>\<open>sync.Once\<close> has run\<close>
  cHandler :: "'h chosen_handler option" \<comment> \<open>\<^term>\<open>None\<close> is nil\<close>
  cDialer :: "'conn dialer option"
  cLog :: "'l chosen_log option"
  inner :: "'g session"               \<comment> \<open>the other fields\<close>

definition Session_init ::
    "(string \<Rightarrow> 'conn option \<times> 'resp \<times> go_error option) \<Rightarrow> 'g errgroup
      \<Rightarrow> ('g, 'h, 'conn, 'l) session_object \<Rightarrow> ('g, 'h, 'conn, 'l) session_object" where
  "Session_init dial G s =
     (if initOnce s then s
      else s\<lparr>initOnce := True, inner := session_init G,
        cHandler := (if cHandler s = None then Some DefaultNopHandler else cHandler s),
        cDialer := (case cDialer s of None \<Rightarrow> Some (defaultDialer dial) | Some d \<Rightarrow> Some d),
        cLog := (if cLog s = None then Some (DiscardLog DiscardHandler) else cLog s)\<rparr>)"

lemma Session_init_fields:
  "cHandler (Session_init dial G s) = (case cHandler s of Some h \<Rightarrow> Some h | None \<Rightarrow>
     if initOnce s then None else Some DefaultNopHandler)"
  "cLog (Session_init dial G s) = (case cLog s of Some l \<Rightarrow> Some l | None \<Rightarrow>
     if initOnce s then None else Some (DiscardLog DiscardHandler))"
  by (auto simp: Session_init_def split: option.split)

text \<open>
  The first call makes the initial state of the session; after it nothing is nil, and whatever
  the session does, a further call leaves it as it is.
\<close>

lemma Session_init_once:
  assumes "s' = (Session_init dial G s)\<lparr>inner := t\<rparr>"
  shows "Session_init dial' G s' = s'"
  by (simp add: assms Session_init_def)

lemma Session_init_first:
  assumes "\<not> initOnce s"
  shows "inner (Session_init dial G s) = session_init G" "cHandler (Session_init dial G s) \<noteq> None"
    "cDialer (Session_init dial G s) \<noteq> None" "cLog (Session_init dial G s) \<noteq> None"
    "sess_reachable tp G (inner (Session_init dial G s))"
  using assms by (auto simp: Session_init_def reach_init session_start_def split: option.split)

end
