(* ===== verification/Message_Text.thy ===== *)
theory Message_Text
  imports Message_Payloads Go_Strconv
begin

text \<open>
  What the library says of messages beside the codec: \<^verbatim>\<open>AgentMessage.String\<close> of
  \<^verbatim>\<open>messages/message.go\<close>, for logs, and three payload structs of \<^verbatim>\<open>messages/types.go\<close> that no code
  of the library encodes or decodes.
\<close>

section \<open>Payload structs\<close>

record SessionTypeRequest =
  requestSessionType :: string
  requestProperties :: json

record HandshakeCompletePayload =
  HandshakeTimeToComplete :: int64    \<comment> \<open>a \<^verbatim>\<open>time.Duration\<close>\<close>
  CustomerMessage :: string

record ChannelClosedPayload =
  closedMessageType :: string
  closedMessageID :: string
  closedDestinationID :: string
  closedSessionID :: string
  closedSchemaVersion :: int
  closedCreatedDate :: string
  closedOutput :: string

section \<open>String\<close>

text \<open>\<^verbatim>\<open>%s\<close> of a \<^verbatim>\<open>uuid.UUID\<close> is its \<^verbatim>\<open>String\<close>, of a third-party package.\<close>

definition AgentMessage_String :: "(bytes \<Rightarrow> string) \<Rightarrow> agent_message \<Rightarrow> string" where
  "AgentMessage_String uuid_String m =
     ''AgentMessage{''
     @ ''TYPE: '' @ MessageType m @ '', ''
     @ ''SCHEMA VERSION: '' @ Itoa (uint (SchemaVersion m)) @ '', ''
     @ ''SEQUENCE: '' @ Itoa (sint (SequenceNumber m)) @ '', ''
     @ ''MESSAGE ID: '' @ uuid_String (MessageID m) @ '', ''
     @ ''PAYLOAD TYPE: '' @ Itoa (uint (PayloadType m)) @ '', ''
     @ ''PAYLOAD LENGTH: '' @ Itoa (uint (PayloadLength m))
     @ ''}'' @ [CHR 0x0A]"

text \<open>A log line shows nothing of the payload but its type and length, and no digest of it.\<close>

lemma AgentMessage_String_hides:
  "AgentMessage_String u (m\<lparr>Payload := p, PayloadDigest := d, CreatedDate := t, Flags := f\<rparr>) = AgentMessage_String u m"
  by (simp add: AgentMessage_String_def)

lemma AgentMessage_String_sample:
  "AgentMessage_String (\<lambda>_. ''id'') (zeroMessage\<lparr>MessageType := Acknowledge, SequenceNumber := -1, PayloadLength := 7\<rparr>)
    = ''AgentMessage{TYPE: acknowledge, SCHEMA VERSION: 0, SEQUENCE: -1, MESSAGE ID: id, PAYLOAD TYPE: 0, PAYLOAD LENGTH: 7}'' @ [CHR 0x0A]"
  by code_simp

end
