(* ===== verification/Handler_Copy.thy ===== *)
theory Handler_Copy
  imports Message_Payloads Go_Chan "HOL-Library.Sublist"
begin

text \<open>
  The two copy loops of \<^verbatim>\<open>handler/misc.go\<close>, each a pair of goroutines: the caller's, and a helper
  that does the blocking call of the \<^verbatim>\<open>io.Writer\<close> or \<^verbatim>\<open>io.Reader\<close>, so that a cancelled context
  stops the caller even if that call never returns. An unbuffered channel hands the work to the
  helper (one step for both sides), a channel of capacity one brings the result back. One step
  is one action of one goroutine; an event carries what the environment answered (the session,
  the \<^verbatim>\<open>io.Writer\<close>, the \<^verbatim>\<open>io.Reader\<close>, the context).

  \<^verbatim>\<open>SetTerminalSize\<close> is the third function of the file.
\<close>

text \<open>What \<^verbatim>\<open>ctx.Err()\<close> returns when \<^verbatim>\<open>ctx.Done()\<close> is closed, by its documentation.\<close>

definition ctx_error :: "go_error \<Rightarrow> bool" where
  "ctx_error err \<longleftrightarrow> err = context_Canceled \<or> err = context_DeadlineExceeded"

section \<open>CopySessionReaderToWriter\<close>

datatype out_pc =
    ORead                           \<comment> \<open>in \<^verbatim>\<open>reader.Read(ctx)\<close>\<close>
  | OSend bytes                     \<comment> \<open>in the first \<^verbatim>\<open>select\<close>, sending the payload\<close>
  | OAwait                          \<comment> \<open>in the second \<^verbatim>\<open>select\<close>\<close>
  | OReturned "go_error"

datatype out_helper_pc =
    OIdle                           \<comment> \<open>receiving from \<^verbatim>\<open>writeC\<close>\<close>
  | OWrite bytes                    \<comment> \<open>in \<^verbatim>\<open>writer.Write\<close>\<close>
  | OReport "go_error option"       \<comment> \<open>sending to \<^verbatim>\<open>writeErrC\<close>\<close>
  | OExited

record out_copy =
  opc :: out_pc
  ohelper :: out_helper_pc
  writeErrC :: "go_error option chan"
  writeC_closed :: bool
  \<comment> \<open>history\<close>
  oGot :: "agent_message list"      \<comment> \<open>messages the session returned\<close>
  oWrites :: "(bytes \<times> go_error option) list" \<comment> \<open>calls of \<^verbatim>\<open>writer.Write\<close> and their results\<close>

definition out_init :: out_copy where
  "out_init = \<lparr>opc = ORead, ohelper = OIdle, writeErrC = chan_make 1, writeC_closed = False,
     oGot = [], oWrites = []\<rparr>"

text \<open>A return runs the deferred \<^verbatim>\<open>close(writeC)\<close>.\<close>

definition out_return :: "go_error \<Rightarrow> out_copy \<Rightarrow> out_copy" where
  "out_return err c = c\<lparr>opc := OReturned err, writeC_closed := True\<rparr>"

datatype out_event =
    OGot "go_error + agent_message" | OHand | OCtx go_error | OResult
  | OWritten "go_error option" | OReported | OExit

definition out_got :: "go_error + agent_message \<Rightarrow> out_copy \<Rightarrow> out_copy" where
  "out_got r c =
     (case r of
        Inl err \<Rightarrow> out_return (wrap2 ErrGetSessionMessage err) c
      | Inr message \<Rightarrow>
          (let c = c\<lparr>oGot := oGot c @ [message]\<rparr> in
           if PayloadType message \<noteq> Output then c else c\<lparr>opc := OSend (Payload message)\<rparr>))"

fun out_step :: "out_event \<Rightarrow> out_copy \<Rightarrow> out_copy option" where
  "out_step (OGot r) c = (if opc c = ORead then Some (out_got r c) else None)"
| "out_step OHand c =
     (case (opc c, ohelper c) of
        (OSend payload, OIdle) \<Rightarrow> Some (c\<lparr>opc := OAwait, ohelper := OWrite payload\<rparr>)
      | _ \<Rightarrow> None)"
| "out_step (OCtx err) c =
     (if ctx_error err then
        (case opc c of
           OSend _ \<Rightarrow> Some (out_return err c)
         | OAwait \<Rightarrow> Some (out_return err c)
         | _ \<Rightarrow> None)
      else None)"
| "out_step OResult c =
     (if opc c = OAwait then
        (case chan_recv (writeErrC c) of
           None \<Rightarrow> None
         | Some (res, ch) \<Rightarrow>
             (let c = c\<lparr>writeErrC := ch\<rparr> in
              case res of
                Some err \<Rightarrow> Some (out_return (wrap2 ErrWriteData err) c)
              | None \<Rightarrow> Some (c\<lparr>opc := ORead\<rparr>)))
      else None)"
| "out_step (OWritten res) c =
     (case ohelper c of
        OWrite payload \<Rightarrow> Some (c\<lparr>ohelper := OReport res, oWrites := oWrites c @ [(payload, res)]\<rparr>)
      | _ \<Rightarrow> None)"
| "out_step OReported c =
     (case ohelper c of
        OReport res \<Rightarrow> map_option (\<lambda>ch. c\<lparr>ohelper := OIdle, writeErrC := ch\<rparr>) (chan_send res (writeErrC c))
      | _ \<Rightarrow> None)"
| "out_step OExit c =
     (if ohelper c = OIdle \<and> writeC_closed c then Some (c\<lparr>ohelper := OExited\<rparr>) else None)"

text \<open>What the session has sent for the user.\<close>

definition output_payloads :: "agent_message list \<Rightarrow> bytes list" where
  "output_payloads ms = map Payload (filter (\<lambda>m. PayloadType m = Output) ms)"

text \<open>
  The payloads written so far, by where the two goroutines are: the results on their way are
  all of successful writes, or of one failed last write.
\<close>

definition writes_ok :: "(bytes \<times> go_error option) list \<Rightarrow> bool" where
  "writes_ok ws \<longleftrightarrow> (\<forall>w \<in> set ws. snd w = None)"

definition out_error :: "go_error \<Rightarrow> bool" where
  "out_error e \<longleftrightarrow> ctx_error e \<or> (\<exists>err. e = wrap2 ErrGetSessionMessage err \<or> e = wrap2 ErrWriteData err)"

lemma out_error_simps [simp]:
  "out_error (wrap2 ErrGetSessionMessage err)" "out_error (wrap2 ErrWriteData err)" "ctx_error e \<Longrightarrow> out_error e"
  by (simp_all add: out_error_def)

lemma ctx_error_wrap [simp]: "\<not> ctx_error (wrap2 a b)"
  by (simp add: ctx_error_def)

fun out_inv_at :: "out_pc \<Rightarrow> out_helper_pc \<Rightarrow> go_error option list \<Rightarrow> bytes list \<Rightarrow> (bytes \<times> go_error option) list \<Rightarrow> bool" where
  "out_inv_at ORead h q ps ws \<longleftrightarrow> h = OIdle \<and> q = [] \<and> map fst ws = ps \<and> writes_ok ws"
| "out_inv_at (OSend p) h q ps ws \<longleftrightarrow> h = OIdle \<and> q = [] \<and> map fst ws @ [p] = ps \<and> writes_ok ws"
| "out_inv_at OAwait h q ps ws \<longleftrightarrow>
     (case h of
        OWrite p \<Rightarrow> q = [] \<and> map fst ws @ [p] = ps \<and> writes_ok ws
      | OReport r \<Rightarrow> q = [] \<and> map fst ws = ps \<and> ws \<noteq> [] \<and> snd (last ws) = r \<and> writes_ok (butlast ws)
      | OIdle \<Rightarrow> map fst ws = ps \<and> ws \<noteq> [] \<and> q = [snd (last ws)] \<and> writes_ok (butlast ws)
      | OExited \<Rightarrow> False)"
| "out_inv_at (OReturned e) h q ps ws \<longleftrightarrow>
     out_error e
     \<and> (\<forall>err. e = wrap2 ErrWriteData err \<longrightarrow> ws \<noteq> [] \<and> snd (last ws) = Some err \<and> (h = OIdle \<or> h = OExited))
     \<and> (case h of
        OWrite p \<Rightarrow> q = [] \<and> map fst ws @ [p] = ps \<and> writes_ok ws
      | OReport r \<Rightarrow> q = [] \<and> map fst ws = ps \<and> writes_ok (butlast ws)
      | _ \<Rightarrow> length q \<le> 1 \<and> (map fst ws = ps \<or> (\<exists>p. map fst ws @ [p] = ps)) \<and> writes_ok (butlast ws))"

definition out_inv :: "out_copy \<Rightarrow> bool" where
  "out_inv c \<longleftrightarrow> chan_cap (writeErrC c) = 1 \<and> (writeC_closed c \<longleftrightarrow> (\<exists>e. opc c = OReturned e))
     \<and> out_inv_at (opc c) (ohelper c) (chan_buf (writeErrC c)) (output_payloads (oGot c)) (oWrites c)"

lemma writes_ok_simps [simp]:
  "writes_ok []" "writes_ok (ws @ [w]) \<longleftrightarrow> writes_ok ws \<and> snd w = None"
  by (auto simp: writes_ok_def)

lemma writes_ok_butlast: "writes_ok ws \<Longrightarrow> writes_ok (butlast ws)"
  by (auto simp: writes_ok_def dest: in_set_butlastD)

lemma writes_ok_last: "writes_ok (butlast ws) \<Longrightarrow> ws \<noteq> [] \<Longrightarrow> snd (last ws) = None \<Longrightarrow> writes_ok ws"
  by (metis append_butlast_last_id writes_ok_simps(2))

lemma output_payloads_snoc:
  "output_payloads (ms @ [m]) = output_payloads ms @ (if PayloadType m = Output then [Payload m] else [])"
  by (simp add: output_payloads_def)

lemma out_inv_init: "out_inv out_init"
  by (simp add: out_inv_def out_init_def output_payloads_def)

lemmas out_step_defs = out_inv_def out_got_def out_return_def output_payloads_snoc chan_send_def chan_recv_def

lemma out_inv_step:
  assumes "out_inv c" and "out_step e c = Some d"
  shows "out_inv d"
proof (cases e)
  case (OGot r)
  with assms show ?thesis
    by (auto simp: out_step_defs writes_ok_butlast Let_def split: sum.splits if_splits)
next
  case OHand
  with assms show ?thesis
    by (auto simp: out_step_defs split: out_pc.splits out_helper_pc.splits)
next
  case (OCtx err)
  with assms show ?thesis
    by (auto simp: out_step_defs writes_ok_butlast split: if_splits out_pc.splits out_helper_pc.splits)
next
  case OResult
  with assms show ?thesis
    by (auto simp: out_step_defs writes_ok_last Let_def split: if_splits list.splits option.splits out_helper_pc.splits)
next
  case (OWritten res)
  with assms show ?thesis
    by (cases "opc c") (auto simp: out_step_defs split: out_helper_pc.splits)
next
  case OReported
  with assms show ?thesis
    by (cases "opc c") (auto simp: out_step_defs split: out_helper_pc.splits if_splits)
next
  case OExit
  with assms show ?thesis
    by (cases "opc c") (auto simp: out_step_defs split: if_splits)
qed

fun out_run :: "out_event list \<Rightarrow> out_copy \<Rightarrow> out_copy option" where
  "out_run [] c = Some c"
| "out_run (e # es) c = (case out_step e c of None \<Rightarrow> None | Some c \<Rightarrow> out_run es c)"

inductive out_trans :: "out_copy \<Rightarrow> out_copy \<Rightarrow> bool" where
  out_transI: "out_step e c = Some d \<Longrightarrow> out_trans c d"

inductive_cases out_transE [consumes 1, case_names step]: "out_trans c d"

definition out_start :: "out_copy \<Rightarrow> bool" where
  "out_start c \<longleftrightarrow> c = out_init"

interpretation ocopy: inductive_invariant out_start out_trans out_inv
proof unfold_locales
  fix c d
  show "out_start c \<Longrightarrow> out_inv c"
    by (simp add: out_start_def out_inv_init)
  assume "out_inv c" and "out_trans c d"
  then show "out_inv d"
    by (elim out_transE) (rule out_inv_step)
qed

lemma out_run_inv: "out_inv c \<Longrightarrow> out_run es c = Some d \<Longrightarrow> out_inv d"
  by (induction es arbitrary: c) (auto split: option.splits intro: out_inv_step)

text \<open>What is written is a prefix of what the session returned, short of at most one payload.\<close>

lemma out_inv_writes:
  assumes "out_inv c"
  shows "\<exists>rest. output_payloads (oGot c) = map fst (oWrites c) @ rest \<and> length rest \<le> 1"
    "writes_ok (butlast (oWrites c))"
proof -
  have *: "(map fst (oWrites c) = output_payloads (oGot c) \<or> (\<exists>p. map fst (oWrites c) @ [p] = output_payloads (oGot c)))
    \<and> writes_ok (butlast (oWrites c))"
    using assms by (cases "opc c"; cases "ohelper c") (auto simp: out_inv_def writes_ok_butlast)
  from * consider "map fst (oWrites c) = output_payloads (oGot c)"
    | p where "map fst (oWrites c) @ [p] = output_payloads (oGot c)"
    by blast
  then show "\<exists>rest. output_payloads (oGot c) = map fst (oWrites c) @ rest \<and> length rest \<le> 1"
  proof cases
    case (2 p)
    then show ?thesis
      by (intro exI [of _ "[p]"]) simp
  qed simp
  show "writes_ok (butlast (oWrites c))"
    using * by blast
qed

text \<open>The helper never waits for somebody to take its result.\<close>

lemma out_report_enabled:
  assumes "out_inv c" and "ohelper c = OReport res"
  shows "\<exists>d. out_step OReported c = Some d \<and> ohelper d = OIdle \<and> opc d = opc c \<and> writeC_closed d = writeC_closed c"
  using assms by (cases "opc c") (auto simp: out_inv_def chan_send_def)

text \<open>Once the caller has returned, the helper ends, given that its \<^verbatim>\<open>writer.Write\<close> does.\<close>

lemma out_helper_ends:
  assumes "out_inv c" and "opc c = OReturned e" and "ohelper c \<noteq> OExited"
  shows "\<exists>es d. out_run es c = Some d \<and> ohelper d = OExited \<and> length es \<le> 3
    \<and> ((\<forall>p. ohelper c \<noteq> OWrite p) \<longrightarrow> set es \<subseteq> {OReported, OExit})"
proof -
  have closed: "writeC_closed c"
    using assms by (auto simp: out_inv_def)
  have report: "\<exists>d. out_run [OReported, OExit] c = Some d \<and> ohelper d = OExited"
    if inv: "out_inv c" and "ohelper c = OReport r" "writeC_closed c" for c r
    using out_report_enabled [OF inv that(2)] that(3) by auto
  show ?thesis
  proof (cases "ohelper c")
    case OIdle
    with closed show ?thesis
      by (intro exI [of _ "[OExit]"]) simp
  next
    case (OWrite p)
    let ?d = "c\<lparr>ohelper := OReport None, oWrites := oWrites c @ [(p, None)]\<rparr>"
    have step: "out_step (OWritten None) c = Some ?d"
      using OWrite by simp
    with out_inv_step [OF assms(1)] have inv: "out_inv ?d"
      by blast
    obtain d where "out_run [OReported, OExit] ?d = Some d" "ohelper d = OExited"
      using report [OF inv] closed by auto
    with step OWrite show ?thesis
      by (intro exI [of _ "[OWritten None, OReported, OExit]"]) simp
  next
    case (OReport r)
    with report [OF assms(1) this closed] show ?thesis
      by (intro exI [of _ "[OReported, OExit]"]) auto
  qed (use assms in simp)
qed

section \<open>CopyReaderToSessionWriter\<close>

definition copyBufferSize :: nat where "copyBufferSize = 1024"

datatype in_pc =
    ISend                           \<comment> \<open>in the first \<^verbatim>\<open>select\<close>, sending a fresh buffer\<close>
  | IAwait                          \<comment> \<open>in the second \<^verbatim>\<open>select\<close>\<close>
  | IWrite bytes "go_error option"  \<comment> \<open>in \<^verbatim>\<open>writer.Write\<close>; the reader's error is kept\<close>
  | IReturned "go_error"

datatype in_helper_pc =
    IIdle                           \<comment> \<open>receiving from \<^verbatim>\<open>readC\<close>\<close>
  | IRead                           \<comment> \<open>in \<^verbatim>\<open>reader.Read\<close>\<close>
  | IReport bytes "go_error option" \<comment> \<open>sending to \<^verbatim>\<open>readResultC\<close>\<close>
  | IExited

text \<open>A result is the data in the buffer, \<^verbatim>\<open>buffer[:n]\<close>, and the error.\<close>

record in_copy =
  ipc :: in_pc
  ihelper :: in_helper_pc
  readResultC :: "(bytes \<times> go_error option) chan"
  readC_closed :: bool
  \<comment> \<open>history\<close>
  iData :: "bytes list"             \<comment> \<open>what the calls of \<^verbatim>\<open>reader.Read\<close> returned\<close>
  iSent :: "agent_message list"     \<comment> \<open>messages the session accepted\<close>

definition in_init :: in_copy where
  "in_init = \<lparr>ipc = ISend, ihelper = IIdle, readResultC = chan_make 1, readC_closed = False,
     iData = [], iSent = []\<rparr>"

definition in_return :: "go_error \<Rightarrow> in_copy \<Rightarrow> in_copy" where
  "in_return err c = c\<lparr>ipc := IReturned err, readC_closed := True\<rparr>"

datatype in_event =
    IHand | ICtx go_error | IResult | IWritten time bytes "go_error option"
  | IReadDone bytes "go_error option" | IReported | IExit

text \<open>The end of an iteration: the error of the reader, after its data.\<close>

definition in_readerErr :: "go_error option \<Rightarrow> in_copy \<Rightarrow> in_copy" where
  "in_readerErr readerErr c =
     (case readerErr of
        Some err \<Rightarrow> in_return (wrap2 ErrReadData err) c
      | None \<Rightarrow> c\<lparr>ipc := ISend\<rparr>)"

text \<open>
  The step \<open>IReadDone\<close> is limited to what an \<^verbatim>\<open>io.Reader\<close> may return: at most as many bytes as
  the buffer is long.
\<close>

fun in_step :: "in_event \<Rightarrow> in_copy \<Rightarrow> in_copy option" where
  "in_step IHand c =
     (if ipc c = ISend \<and> ihelper c = IIdle then Some (c\<lparr>ipc := IAwait, ihelper := IRead\<rparr>) else None)"
| "in_step (ICtx err) c =
     (if ctx_error err \<and> (ipc c = ISend \<or> ipc c = IAwait) then Some (in_return err c) else None)"
| "in_step IResult c =
     (if ipc c = IAwait then
        (case chan_recv (readResultC c) of
           None \<Rightarrow> None
         | Some ((data, readerErr), ch) \<Rightarrow>
             (let c = c\<lparr>readResultC := ch\<rparr> in
              if length data > 0 then Some (c\<lparr>ipc := IWrite data readerErr\<rparr>)
              else Some (in_readerErr readerErr c)))
      else None)"
| "in_step (IWritten now uid writerErr) c =
     (case ipc c of
        IWrite data readerErr \<Rightarrow>
          (let message = NewStreamMessage now uid data in
           case writerErr of
             Some err \<Rightarrow> Some (in_return (wrap2 ErrWriteSessionMessage err) c)
           | None \<Rightarrow> Some (in_readerErr readerErr (c\<lparr>iSent := iSent c @ [message]\<rparr>)))
      | _ \<Rightarrow> None)"
| "in_step (IReadDone data err) c =
     (if ihelper c = IRead \<and> length data \<le> copyBufferSize then
        Some (c\<lparr>ihelper := IReport data err, iData := iData c @ [data]\<rparr>)
      else None)"
| "in_step IReported c =
     (case ihelper c of
        IReport data err \<Rightarrow>
          map_option (\<lambda>ch. c\<lparr>ihelper := IIdle, readResultC := ch\<rparr>) (chan_send (data, err) (readResultC c))
      | _ \<Rightarrow> None)"
| "in_step IExit c =
     (if ihelper c = IIdle \<and> readC_closed c then Some (c\<lparr>ihelper := IExited\<rparr>) else None)"

text \<open>Where the data is: sent, or with the helper, in the channel or in the message being written.\<close>

abbreviation chunks :: "bytes list \<Rightarrow> bytes list" where
  "chunks ds \<equiv> filter (\<lambda>d. d \<noteq> []) ds"

definition in_error :: "go_error \<Rightarrow> bool" where
  "in_error e \<longleftrightarrow> ctx_error e \<or> (\<exists>err. e = wrap2 ErrWriteSessionMessage err \<or> e = wrap2 ErrReadData err)"

lemma in_error_simps [simp]:
  "in_error (wrap2 ErrWriteSessionMessage err)" "in_error (wrap2 ErrReadData err)" "ctx_error e \<Longrightarrow> in_error e"
  by (simp_all add: in_error_def)

fun in_inv_at ::
    "in_pc \<Rightarrow> in_helper_pc \<Rightarrow> (bytes \<times> go_error option) list \<Rightarrow> bytes list \<Rightarrow> bytes list \<Rightarrow> bool" where
  "in_inv_at ISend h q ds sent \<longleftrightarrow> h = IIdle \<and> q = [] \<and> chunks ds = sent"
| "in_inv_at IAwait h q ds sent \<longleftrightarrow>
     (case h of
        IRead \<Rightarrow> q = [] \<and> chunks ds = sent
      | IReport d r \<Rightarrow> q = [] \<and> chunks ds = sent @ chunks [d]
      | IIdle \<Rightarrow> (\<exists>d r. q = [(d, r)] \<and> chunks ds = sent @ chunks [d])
      | IExited \<Rightarrow> False)"
| "in_inv_at (IWrite d r) h q ds sent \<longleftrightarrow> h = IIdle \<and> q = [] \<and> d \<noteq> [] \<and> chunks ds = sent @ [d]"
| "in_inv_at (IReturned e) h q ds sent \<longleftrightarrow>
     in_error e
     \<and> (\<forall>err. e = wrap2 ErrReadData err \<longrightarrow> chunks ds = sent \<and> (h = IIdle \<or> h = IExited))
     \<and> (case h of
          IRead \<Rightarrow> q = [] \<and> chunks ds = sent
        | IReport d r \<Rightarrow> q = [] \<and> chunks ds = sent @ chunks [d]
        | _ \<Rightarrow> length q \<le> 1 \<and> (\<exists>rest. chunks ds = sent @ rest \<and> length rest \<le> 1))"

definition in_inv :: "in_copy \<Rightarrow> bool" where
  "in_inv c \<longleftrightarrow> chan_cap (readResultC c) = 1 \<and> (readC_closed c \<longleftrightarrow> (\<exists>e. ipc c = IReturned e))
     \<and> (\<forall>d \<in> set (iData c). length d \<le> copyBufferSize)
     \<and> (\<forall>m \<in> set (iSent c). PayloadType m = Output)
     \<and> in_inv_at (ipc c) (ihelper c) (chan_buf (readResultC c)) (iData c) (map Payload (iSent c))"

lemmas in_step_defs = in_inv_def in_return_def in_readerErr_def chan_send_def chan_recv_def

lemma in_inv_init: "in_inv in_init"
  by (simp add: in_inv_def in_init_def)

lemma Payload_NewStreamMessage [simp]:
  "Payload (NewStreamMessage now uid d) = d" "PayloadType (NewStreamMessage now uid d) = Output"
  by (simp_all add: NewStreamMessage_def)

lemma in_inv_step:
  assumes "in_inv c" and "in_step e c = Some d"
  shows "in_inv d"
proof (cases e)
  case IHand
  with assms show ?thesis
    by (auto simp: in_step_defs split: if_splits)
next
  case (ICtx err)
  with assms show ?thesis
    by (auto simp: in_step_defs split: if_splits in_helper_pc.splits)
next
  case IResult
  with assms show ?thesis
    by (auto simp: in_step_defs Let_def split: if_splits list.splits option.splits in_helper_pc.splits)
next
  case (IWritten now uid res)
  with assms show ?thesis
    by (auto simp: in_step_defs Let_def split: in_pc.splits option.splits)
next
  case (IReadDone data err)
  with assms show ?thesis
    by (cases "ipc c") (auto simp: in_step_defs split: if_splits)
next
  case IReported
  with assms show ?thesis
    by (cases "ipc c") (auto simp: in_step_defs split: in_helper_pc.splits if_splits)
next
  case IExit
  with assms show ?thesis
    by (cases "ipc c") (auto simp: in_step_defs split: if_splits)
qed

fun in_run :: "in_event list \<Rightarrow> in_copy \<Rightarrow> in_copy option" where
  "in_run [] c = Some c"
| "in_run (e # es) c = (case in_step e c of None \<Rightarrow> None | Some c \<Rightarrow> in_run es c)"

inductive in_trans :: "in_copy \<Rightarrow> in_copy \<Rightarrow> bool" where
  in_transI: "in_step e c = Some d \<Longrightarrow> in_trans c d"

inductive_cases in_transE [consumes 1, case_names step]: "in_trans c d"

definition in_start :: "in_copy \<Rightarrow> bool" where
  "in_start c \<longleftrightarrow> c = in_init"

interpretation icopy: inductive_invariant in_start in_trans in_inv
proof unfold_locales
  fix c d
  show "in_start c \<Longrightarrow> in_inv c"
    by (simp add: in_start_def in_inv_init)
  assume "in_inv c" and "in_trans c d"
  then show "in_inv d"
    by (elim in_transE) (rule in_inv_step)
qed

lemma out_run_reachable:
  assumes "out_run es out_init = Some c"
  shows "reachable out_start out_trans c"
proof -
  have "reachable out_start out_trans a \<Longrightarrow> out_run es a = Some c \<Longrightarrow> reachable out_start out_trans c" for a
    by (induction es arbitrary: a)
      (auto split: option.splits intro: reach_step [of out_start out_trans, OF _ out_transI])
  from this [of out_init] assms show ?thesis
    by (simp add: reach_init out_start_def)
qed

lemma in_run_reachable:
  assumes "in_run es in_init = Some c"
  shows "reachable in_start in_trans c"
proof -
  have "reachable in_start in_trans a \<Longrightarrow> in_run es a = Some c \<Longrightarrow> reachable in_start in_trans c" for a
    by (induction es arbitrary: a)
      (auto split: option.splits intro: reach_step [of in_start in_trans, OF _ in_transI])
  from this [of in_init] assms show ?thesis
    by (simp add: reach_init in_start_def)
qed

lemma concat_chunks [simp]: "concat (chunks ds) = concat ds"
  by (induction ds) auto

text \<open>
  The non-empty results of the reader are the messages sent and at most one more, and none more
  at the loop head and at the end with an error of the reader.
\<close>

lemma in_inv_data:
  assumes "in_inv c"
  shows "\<exists>rest. chunks (iData c) = map Payload (iSent c) @ rest \<and> length rest \<le> 1
    \<and> (ipc c = ISend \<longrightarrow> rest = []) \<and> (\<forall>err. ipc c = IReturned (wrap2 ErrReadData err) \<longrightarrow> rest = [])"
proof (cases "ipc c")
  case (IReturned e)
  with assms show ?thesis
    by (cases "ihelper c") (auto simp: in_inv_def)
qed (use assms in \<open>auto simp: in_inv_def split: in_helper_pc.splits\<close>)

lemma in_helper_ends:
  assumes "in_inv c" and "ipc c = IReturned e" and "ihelper c \<noteq> IExited"
  shows "\<exists>es d. in_run es c = Some d \<and> ihelper d = IExited \<and> length es \<le> 3
    \<and> (ihelper c \<noteq> IRead \<longrightarrow> set es \<subseteq> {IReported, IExit})"
proof -
  have closed: "readC_closed c"
    using assms by (auto simp: in_inv_def)
  show ?thesis
  proof (cases "ihelper c")
    case IIdle
    with closed show ?thesis
      by (intro exI [of _ "[IExit]"]) simp
  next
    case IRead
    with assms closed show ?thesis
      by (intro exI [of _ "[IReadDone [] None, IReported, IExit]"]) (simp add: in_inv_def chan_send_def)
  next
    case (IReport d r)
    with assms closed show ?thesis
      by (intro exI [of _ "[IReported, IExit]"]) (simp add: in_inv_def chan_send_def)
  qed (use assms in simp)
qed

section \<open>SetTerminalSize\<close>

definition SetTerminalSize ::
    "(agent_message \<Rightarrow> 's \<Rightarrow> (go_error option \<times> 's) option) \<Rightarrow> time \<Rightarrow> bytes \<Rightarrow> int \<Rightarrow> int \<Rightarrow> 's
      \<Rightarrow> (go_error option \<times> 's) option" where
  "SetTerminalSize swrite now uid width height s =
     (case NewSizeMessage now uid width height of
        Inl err \<Rightarrow> Some (Some (wrap2 ErrCreateSizeMessage err), s)
      | Inr msg \<Rightarrow>
          (case swrite msg s of
             None \<Rightarrow> None
           | Some (Some err, s) \<Rightarrow> Some (Some (wrap2 ErrWriteSizeMessage err), s)
           | Some (None, s) \<Rightarrow> Some (None, s)))"

section \<open>Properties\<close>

text \<open>C16: Output is written in order and without loss. In every state of
  \<^verbatim>\<open>CopySessionReaderToWriter\<close>, however its two goroutines are scheduled and whatever the session,
  the writer and the context do, the calls of \<^verbatim>\<open>Write\<close> so far had the payloads of the output
  messages read so far, in order, except at most the last one, and nothing else was written. At
  the loop head none is missing; every call but the last succeeded; a failed call stops the
  loop with its error; and the function returns only errors of the context, of the session or
  of a failed write.\<close>

theorem copy_output_in_order:
  assumes "reachable out_start out_trans c"
  shows "\<exists>rest. output_payloads (oGot c) = map fst (oWrites c) @ rest \<and> length rest \<le> 1
    \<and> (opc c = ORead \<longrightarrow> rest = [] \<and> writes_ok (oWrites c)) \<and> writes_ok (butlast (oWrites c))
    \<and> (\<forall>err. opc c = OReturned (wrap2 ErrWriteData err) \<longrightarrow> snd (last (oWrites c)) = Some err)
    \<and> (\<forall>e. opc c = OReturned e \<longrightarrow> out_error e)"
proof -
  have inv: "out_inv c"
    by (rule ocopy.reachable_inv [OF assms])
  obtain rest where "output_payloads (oGot c) = map fst (oWrites c) @ rest" "length rest \<le> 1"
    using out_inv_writes [OF inv] by blast
  moreover have "writes_ok (butlast (oWrites c))"
    by (rule out_inv_writes [OF inv])
  ultimately show ?thesis
    using inv by (intro exI [of _ rest]) (auto simp: out_inv_def)
qed

theorem copy_output_in_order_witness:
  "\<exists>c. out_run [OGot (Inr (NewStreamMessage 0 [] [1])), OHand, OWritten None, OReported, OResult,
      OGot (Inr (NewStreamMessage 0 [] [2])), OHand, OWritten (Some io_ErrClosedPipe), OReported, OResult] out_init
      = Some c
    \<and> opc c = OReturned (wrap2 ErrWriteData io_ErrClosedPipe)
    \<and> writes_ok (butlast (oWrites c)) \<and> oWrites c = [([1], None), ([2], Some io_ErrClosedPipe)]"
proof -
  obtain c where c: "out_run [OGot (Inr (NewStreamMessage 0 [] [1])), OHand, OWritten None, OReported, OResult,
      OGot (Inr (NewStreamMessage 0 [] [2])), OHand, OWritten (Some io_ErrClosedPipe), OReported, OResult] out_init
      = Some c"
    and "opc c = OReturned (wrap2 ErrWriteData io_ErrClosedPipe)"
    "oWrites c = [([1], None), ([2], Some io_ErrClosedPipe)]"
    by (simp add: out_init_def out_got_def out_return_def chan_send_def chan_recv_def chan_make_def)
  with copy_output_in_order [OF out_run_reachable [OF c]] show ?thesis
    by auto
qed

text \<open>C15: Input is sent in order, in messages of 1 to 1024 bytes, and data is never lost to an error.
  In every state of \<^verbatim>\<open>CopyReaderToSessionWriter\<close>, however its two goroutines are scheduled, the
  payloads the session accepted are the non-empty results of the reader, each as one message and
  in order, except at most the last one. At the loop head none is missing; and if the loop ended
  with an error of the reader, also \<^verbatim>\<open>io.EOF\<close>, everything read was sent before, including data
  that came with the error.\<close>

theorem copy_input_in_order:
  assumes "reachable in_start in_trans c"
  shows "\<exists>rest. chunks (iData c) = map Payload (iSent c) @ rest \<and> length rest \<le> 1
    \<and> concat (iData c) = concat (map Payload (iSent c)) @ concat rest
    \<and> (\<forall>m \<in> set (iSent c). PayloadType m = Output \<and> 0 < length (Payload m) \<and> length (Payload m) \<le> 1024)
    \<and> (ipc c = ISend \<longrightarrow> rest = [])
    \<and> (\<forall>err. ipc c = IReturned (wrap2 ErrReadData err) \<longrightarrow> rest = [])
    \<and> (\<forall>e. ipc c = IReturned e \<longrightarrow> in_error e)"
proof -
  have inv: "in_inv c"
    by (rule icopy.reachable_inv [OF assms])
  obtain rest where rest: "chunks (iData c) = map Payload (iSent c) @ rest" "length rest \<le> 1"
    and none: "ipc c = ISend \<Longrightarrow> rest = []" "\<And>err. ipc c = IReturned (wrap2 ErrReadData err) \<Longrightarrow> rest = []"
    using in_inv_data [OF inv] by blast
  have "concat (iData c) = concat (map Payload (iSent c)) @ concat rest"
    using concat_chunks [of "iData c"] unfolding rest(1) by simp
  moreover have "0 < length (Payload m) \<and> length (Payload m) \<le> 1024" if "m \<in> set (iSent c)" for m
  proof -
    have "Payload m \<in> set (chunks (iData c))"
      unfolding rest(1) using that by simp
    with inv show ?thesis
      by (auto simp: in_inv_def copyBufferSize_def)
  qed
  moreover have "PayloadType m = Output" if "m \<in> set (iSent c)" for m
    using inv that by (simp add: in_inv_def)
  moreover have "in_error e" if "ipc c = IReturned e" for e
    using inv that by (simp add: in_inv_def)
  ultimately show ?thesis
    using rest none by (intro exI [of _ rest]) blast
qed

theorem copy_input_in_order_witness:
  "\<exists>c. in_run [IHand, IReadDone [104, 105] (Some io_EOF), IReported, IResult, IWritten 0 [] None] in_init = Some c
    \<and> ipc c = IReturned (wrap2 ErrReadData io_EOF) \<and> concat (map Payload (iSent c)) = [104, 105]"
proof -
  obtain c where c: "in_run [IHand, IReadDone [104, 105] (Some io_EOF), IReported, IResult, IWritten 0 [] None] in_init
      = Some c"
    and "ipc c = IReturned (wrap2 ErrReadData io_EOF)" "iData c = [[104, 105]]"
    by (simp add: in_init_def in_return_def in_readerErr_def chan_send_def chan_recv_def chan_make_def
        copyBufferSize_def)
  with copy_input_in_order [OF in_run_reachable [OF c]] show ?thesis
    by auto
qed

text \<open>The helper goroutines of both loops end. Once the function has returned, at most three
  more steps take its helper to its end, and none of them needs anything but the pending call
  of the user's \<^verbatim>\<open>io.Writer\<close> or \<^verbatim>\<open>io.Reader\<close> to return; the results they leave behind never
  block them.\<close>

theorem copy_helpers_end:
  assumes "reachable out_start out_trans c" and "opc c = OReturned e" and "ohelper c \<noteq> OExited"
    and "reachable in_start in_trans d" and "ipc d = IReturned e'" and "ihelper d \<noteq> IExited"
  shows "(\<exists>es c'. out_run es c = Some c' \<and> ohelper c' = OExited \<and> length es \<le> 3
        \<and> ((\<forall>p. ohelper c \<noteq> OWrite p) \<longrightarrow> set es \<subseteq> {OReported, OExit}))
    \<and> (\<exists>es d'. in_run es d = Some d' \<and> ihelper d' = IExited \<and> length es \<le> 3
        \<and> (ihelper d \<noteq> IRead \<longrightarrow> set es \<subseteq> {IReported, IExit}))"
  using out_helper_ends [OF ocopy.reachable_inv [OF assms(1)] assms(2,3)]
    in_helper_ends [OF icopy.reachable_inv [OF assms(4)] assms(5,6)] by blast

theorem copy_helpers_end_witness:
  "\<exists>c d es es' c' d'. opc c = OReturned context_Canceled \<and> ohelper c = OWrite [1]
    \<and> out_run es c = Some c' \<and> ohelper c' = OExited
    \<and> ipc d = IReturned context_Canceled \<and> ihelper d = IRead
    \<and> in_run es' d = Some d' \<and> ihelper d' = IExited"
proof -
  obtain c where c: "out_run [OGot (Inr (NewStreamMessage 0 [] [1])), OHand, OCtx context_Canceled] out_init = Some c"
    "opc c = OReturned context_Canceled" "ohelper c = OWrite [1]"
    by (simp add: out_init_def out_got_def out_return_def ctx_error_def)
  obtain d where d: "in_run [IHand, ICtx context_Canceled] in_init = Some d"
    "ipc d = IReturned context_Canceled" "ihelper d = IRead"
    by (simp add: in_init_def in_return_def ctx_error_def)
  have "ohelper c \<noteq> OExited" "ihelper d \<noteq> IExited"
    using c d by simp_all
  from copy_helpers_end [OF out_run_reachable [OF c(1)] c(2) this(1) in_run_reachable [OF d(1)] d(2) this(2)]
    c d show ?thesis
    by blast
qed

end
