(* ===== verification/Handler_Pumps.thy ===== *)
theory Handler_Pumps
  imports Handler_Copy Session_Spec Handshake
begin

text \<open>
  What the two data handlers (\<^verbatim>\<open>handler/stream.go\<close>, \<^verbatim>\<open>handler/muxPortForward.go\<close>) have in common: they run
  both copy loops of \<^verbatim>\<open>misc.go\<close> against a session in one errgroup, together with a goroutine
  that waits for \<^verbatim>\<open>Stop()\<close>, one that cleans up, and one of their own. The state holds the session
  with all its goroutines, and the copy loops read from it and write to it.
\<close>

section \<open>State and steps\<close>

record ('g, 'h) pumps =
  ssn :: "'g session"
  hgrp :: 'h                          \<comment> \<open>\<^verbatim>\<open>errgrp\<close> and \<^verbatim>\<open>errctx\<close> of the handler\<close>
  hstopped :: bool                    \<comment> \<open>its channel \<^verbatim>\<open>stopped\<close> is closed\<close>
  tCleanup :: thread
  tListener :: thread
  tOut :: thread
  tIn :: thread
  tAux :: thread
  outc :: out_copy
  inc :: in_copy
  \<comment> \<open>history: what the handler had read and written before it started the loops\<close>
  preRead :: "agent_message list"
  preGiven :: "agent_message list"

definition pumps_init :: "'g errgroup \<Rightarrow> 'h errgroup \<Rightarrow> ('g, 'h) pumps" where
  "pumps_init G H =
     \<lparr>ssn = session_init G, hgrp = eg_new H, hstopped = False, tCleanup = NotStarted,
      tListener = NotStarted, tOut = NotStarted, tIn = NotStarted, tAux = NotStarted,
      outc = out_init, inc = in_init, preRead = [], preGiven = []\<rparr>"

abbreviation hcause :: "'h errgroup \<Rightarrow> ('g, 'h, 'x) pumps_scheme \<Rightarrow> go_error option" where
  "hcause H p \<equiv> eg_cause H (hgrp p)"

definition hReturn :: "'h errgroup \<Rightarrow> go_error option \<Rightarrow> ('g, 'h, 'x) pumps_scheme \<Rightarrow> ('g, 'h, 'x) pumps_scheme" where
  "hReturn H err p = p\<lparr>hgrp := eg_return H err (hgrp p)\<rparr>"

text \<open>The five \<^verbatim>\<open>errgrp.Go\<close> calls of \<^verbatim>\<open>Start\<close>.\<close>

definition startPumps :: "('g, 'h, 'x) pumps_scheme \<Rightarrow> ('g, 'h, 'x) pumps_scheme" where
  "startPumps p =
     p\<lparr>tCleanup := Running, tListener := Running, tOut := Running, tIn := Running, tAux := Running,
       preRead := hRead (ssn p), preGiven := givenMessages (ssn p)\<rparr>"

definition pumpsReturned :: "('g, 'h, 'x) pumps_scheme \<Rightarrow> bool" where
  "pumpsReturned p \<longleftrightarrow> tCleanup p \<noteq> Running \<and> tListener p \<noteq> Running \<and> tOut p \<noteq> Running
     \<and> tIn p \<noteq> Running \<and> tAux p \<noteq> Running"

definition handlerStop :: "('g, 'h, 'x) pumps_scheme \<Rightarrow> ('g, 'h, 'x) pumps_scheme" where
  "handlerStop p = p\<lparr>hstopped := True\<rparr>"

definition handlerWait ::
    "'h errgroup \<Rightarrow> go_error \<Rightarrow> select_case \<Rightarrow> go_error option \<Rightarrow> ('g, 'h, 'x) pumps_scheme \<Rightarrow> go_error option option" where
  "handlerWait H stopErr branch ctx p =
     (case branch of
        OnCtx \<Rightarrow> if ctx \<noteq> None then Some ctx else None
      | OnGroup \<Rightarrow>
          if hcause H p \<noteq> None \<and> pumpsReturned p then Some (waitResult stopErr (eg_error H (hgrp p))) else None
      | OnChannel \<Rightarrow> None)"

text \<open>A step of the session; when its cleanup goroutine calls \<^verbatim>\<open>Handler.Stop()\<close>, that is \<open>handlerStop\<close>.\<close>

fun handler_event :: "session_event \<Rightarrow> bool" where
  "handler_event (EvHandlerStart res) = True"
| "handler_event (EvHandlerWait res) = True"
| "handler_event e = (\<not> background e)"

definition sessionStep ::
    "third_party \<Rightarrow> 'g errgroup \<Rightarrow> session_event \<Rightarrow> ('g, 'h, 'x) pumps_scheme \<Rightarrow> ('g, 'h, 'x) pumps_scheme option" where
  "sessionStep tp G e p =
     map_option (\<lambda>s. let p = p\<lparr>ssn := s\<rparr> in if handlerStopped s then handlerStop p else p)
       (session_step tp G e (ssn p))"

definition listenerStep ::
    "'h errgroup \<Rightarrow> go_error \<Rightarrow> ('g, 'h, 'x) pumps_scheme \<Rightarrow> ('g, 'h, 'x) pumps_scheme option" where
  "listenerStep H stopErr p =
     (if tListener p = Running \<and> hstopped p then Some (hReturn H (Some stopErr) (p\<lparr>tListener := Finished\<rparr>))
      else None)"

text \<open>\<^verbatim>\<open>reader.Read(s.errctx)\<close> in the first loop, and its other steps.\<close>

definition outRead ::
    "'g errgroup \<Rightarrow> 'h errgroup \<Rightarrow> select_case \<Rightarrow> ('g, 'h, 'x) pumps_scheme \<Rightarrow> ('g, 'h, 'x) pumps_scheme option" where
  "outRead G H branch p =
     (if tOut p = Running \<and> opc (outc p) = ORead then
        (case Read G branch (ctxErr (hcause H p)) (ssn p) of
           None \<Rightarrow> None
         | Some (r, s) \<Rightarrow> Some (p\<lparr>ssn := s, outc := out_got r (outc p)\<rparr>))
      else None)"

fun out_gate :: "go_error option \<Rightarrow> out_event \<Rightarrow> bool" where
  "out_gate cs (OGot r) = False"
| "out_gate cs (OCtx err) = (ctxErr cs = Some err)"
| "out_gate cs e = True"

definition outStep :: "'h errgroup \<Rightarrow> out_event \<Rightarrow> ('g, 'h, 'x) pumps_scheme \<Rightarrow> ('g, 'h, 'x) pumps_scheme option" where
  "outStep H e p =
     (if tOut p \<noteq> NotStarted \<and> out_gate (hcause H p) e then
        map_option (\<lambda>c. p\<lparr>outc := c\<rparr>) (out_step e (outc p))
      else None)"

definition outReturn :: "'h errgroup \<Rightarrow> ('g, 'h, 'x) pumps_scheme \<Rightarrow> ('g, 'h, 'x) pumps_scheme option" where
  "outReturn H p =
     (case opc (outc p) of
        OReturned err \<Rightarrow>
          if tOut p = Running then Some (hReturn H (Some err) (p\<lparr>tOut := Finished\<rparr>)) else None
      | _ \<Rightarrow> None)"

lemma out_gate_got: "out_gate cs e \<Longrightarrow> \<forall>r. e \<noteq> OGot r"
  by (cases e) auto

text \<open>\<^verbatim>\<open>writer.Write(s.errctx, message)\<close> of a new message, by any of the handler's goroutines.\<close>

definition handlerWrite ::
    "'g errgroup \<Rightarrow> select_case \<Rightarrow> go_error option \<Rightarrow> 'g session write_fun" where
  "handlerWrite G branch ctx message s = Write G branch ctx (allocated s) (newMessage message s)"

definition inWrite ::
    "'g errgroup \<Rightarrow> 'h errgroup \<Rightarrow> select_case \<Rightarrow> time \<Rightarrow> bytes \<Rightarrow> ('g, 'h, 'x) pumps_scheme
      \<Rightarrow> ('g, 'h, 'x) pumps_scheme option" where
  "inWrite G H branch now uid p =
     (case ipc (inc p) of
        IWrite data readerErr \<Rightarrow>
          if tIn p = Running then
            (case handlerWrite G branch (ctxErr (hcause H p)) (NewStreamMessage now uid data) (ssn p) of
               None \<Rightarrow> None
             | Some (err, s) \<Rightarrow> map_option (\<lambda>c. p\<lparr>ssn := s, inc := c\<rparr>) (in_step (IWritten now uid err) (inc p)))
          else None
      | _ \<Rightarrow> None)"

fun in_gate :: "go_error option \<Rightarrow> in_event \<Rightarrow> bool" where
  "in_gate cs (IWritten now uid err) = False"
| "in_gate cs (ICtx err) = (ctxErr cs = Some err)"
| "in_gate cs e = True"

lemma in_gate_written: "in_gate cs e \<Longrightarrow> \<forall>now uid err. e \<noteq> IWritten now uid err"
  by (cases e) auto

definition inStep :: "'h errgroup \<Rightarrow> in_event \<Rightarrow> ('g, 'h, 'x) pumps_scheme \<Rightarrow> ('g, 'h, 'x) pumps_scheme option" where
  "inStep H e p =
     (if tIn p \<noteq> NotStarted \<and> in_gate (hcause H p) e then
        map_option (\<lambda>c. p\<lparr>inc := c\<rparr>) (in_step e (inc p))
      else None)"

definition inReturn :: "'h errgroup \<Rightarrow> ('g, 'h, 'x) pumps_scheme \<Rightarrow> ('g, 'h, 'x) pumps_scheme option" where
  "inReturn H p =
     (case ipc (inc p) of
        IReturned err \<Rightarrow>
          if tIn p = Running then Some (hReturn H (Some err) (p\<lparr>tIn := Finished\<rparr>)) else None
      | _ \<Rightarrow> None)"

datatype pump_event =
    PuSession session_event | PuStop | PuListener
  | PuRead select_case | PuOut out_event | PuOutReturn
  | PuWrite select_case time bytes | PuIn in_event | PuInReturn

fun pump_step ::
    "third_party \<Rightarrow> 'g errgroup \<Rightarrow> 'h errgroup \<Rightarrow> go_error \<Rightarrow> pump_event
      \<Rightarrow> ('g, 'h, 'x) pumps_scheme \<Rightarrow> ('g, 'h, 'x) pumps_scheme option" where
  "pump_step tp G H stopErr (PuSession e) p = (if handler_event e then None else sessionStep tp G e p)"
| "pump_step tp G H stopErr PuStop p = Some (handlerStop p)"
| "pump_step tp G H stopErr PuListener p = listenerStep H stopErr p"
| "pump_step tp G H stopErr (PuRead b) p = outRead G H b p"
| "pump_step tp G H stopErr (PuOut e) p = outStep H e p"
| "pump_step tp G H stopErr PuOutReturn p = outReturn H p"
| "pump_step tp G H stopErr (PuWrite b now uid) p = inWrite G H b now uid p"
| "pump_step tp G H stopErr (PuIn e) p = inStep H e p"
| "pump_step tp G H stopErr PuInReturn p = inReturn H p"

lemmas pump_defs = hReturn_def handlerStop_def sessionStep_def listenerStep_def outRead_def outStep_def
  outReturn_def inWrite_def inStep_def inReturn_def

section \<open>The flow of data\<close>

lemma session_step_reachable:
  "sess_reachable tp G s \<Longrightarrow> session_step tp G e s = Some t \<Longrightarrow> sess_reachable tp G t"
  by (blast intro: reach_step session_trans.intros)

lemma Read_reachable:
  assumes "sess_reachable tp G s" and "alive s" and "Read G b ctx s = Some (r, t)"
  shows "sess_reachable tp G t" "hWritten t = hWritten s" "alive t"
proof -
  have "session_step tp G (EvRead b ctx) s = Some t"
    using assms(2,3) by (simp add: session_step_def alive_def)
  with assms(1) show "sess_reachable tp G t"
    by (rule session_step_reachable)
  show "hWritten t = hWritten s" "alive t"
    using assms(2,3) by (auto simp: Read_def alive_def split: select_case.splits)
qed

lemma handlerWrite_reachable:
  assumes "sess_reachable tp G s" and "alive s" and "handlerWrite G b ctx m s = Some (e, t)"
  shows "sess_reachable tp G t" "distinct (hWritten s) \<Longrightarrow> distinct (hWritten t)" "hRead t = hRead s"
    "givenMessages t = givenMessages s @ (if e = None then [m] else [])" "alive t"
proof -
  note inv = sess_write.reachable_inv [OF assms(1)]
  note w = assms(3) [unfolded handlerWrite_def]
  have 1: "session_step tp G (EvNew m) s = Some (newMessage m s)"
    using assms(2) by (simp add: session_step_def alive_def)
  have "session_step tp G (EvWrite b ctx (allocated s)) (newMessage m s) = Some t"
    using assms(2) w by (simp add: session_step_def alive_def newMessage_def)
  with session_step_reachable [OF assms(1) 1] show "sess_reachable tp G t"
    by (rule session_step_reachable)
  have "allocated s \<notin> set (hWritten s)"
    using inv by (auto simp: write_inv_def)
  with w show "distinct (hWritten t)" if "distinct (hWritten s)"
    using that by (auto simp: Write_def newMessage_def split: select_case.splits)
  show "hRead t = hRead s" "givenMessages t = givenMessages s @ (if e = None then [m] else [])"
    by (rule Write_laws [OF inv w])+
  show "alive t"
    using w assms(2) by (auto simp: Write_def newMessage_def alive_def split: select_case.splits)
qed

text \<open>So a handler on a reachable session keeps it reachable, and never writes a message twice.\<close>

lemma runBackground_reachable:
  assumes "sess_reachable tp G s" and "runBackground tp G sched s = Some t"
  shows "sess_reachable tp G t" "hWritten t = hWritten s" "alive t"
proof -
  have run: "session_run tp G (filter background (sched s)) s = Some t" and "alive t"
    using assms(2) by (simp_all add: runBackground_def split: option.splits if_splits)
  then show "sess_reachable tp G t" "alive t"
    using session_run_reachable [OF run assms(1)] by simp_all
  have "hWritten t = hWritten s" if "session_run tp G (filter background es) s = Some t" for es
    using that
  proof (induction es arbitrary: s)
    case (Cons e es)
    then show ?case
      by (auto simp: background_step split: option.splits if_splits)
  qed simp
  with run show "hWritten t = hWritten s"
    by blast
qed

interpretation reach: session_reader_writer "sessionRead tp G sched pick ctx" "sessionWrite tp G sched pick ctx"
  hRead givenMessages "\<lambda>s. sess_reachable tp G s \<and> distinct (hWritten s)" for tp G sched pick ctx
proof unfold_locales
  fix s r s' assume v: "sess_reachable tp G s \<and> distinct (hWritten s)"
    and step: "sessionRead tp G sched pick ctx s = Some (r, s')"
  then obtain u where u: "runBackground tp G sched s = Some u" "Read G (pick u) (ctx u) u = Some (r, s')"
    by (auto simp: sessionRead_def split: option.splits)
  note B = runBackground_reachable [OF conjunct1 [OF v] u(1)]
  note inv = sess_write.reachable_inv [OF conjunct1 [OF v]]
  from Read_reachable [OF B(1,3) u(2)] B(2) v show "sess_reachable tp G s' \<and> distinct (hWritten s')"
    by simp
  show "givenMessages s' = givenMessages s" "hRead s' = hRead s @ (case r of Inr m \<Rightarrow> [m] | Inl _ \<Rightarrow> [])"
    by (rule sess.read_laws [OF inv step])+
next
  fix s m e s' assume v: "sess_reachable tp G s \<and> distinct (hWritten s)"
    and step: "sessionWrite tp G sched pick ctx m s = Some (e, s')"
  then obtain u where u: "runBackground tp G sched s = Some u"
    "handlerWrite G (pick u) (ctx u) m u = Some (e, s')"
    by (auto simp: sessionWrite_def handlerWrite_def split: option.splits)
  note B = runBackground_reachable [OF conjunct1 [OF v] u(1)]
  note inv = sess_write.reachable_inv [OF conjunct1 [OF v]]
  from handlerWrite_reachable(1,2) [OF B(1,3) u(2)] B(2) v show "sess_reachable tp G s' \<and> distinct (hWritten s')"
    by simp
  show "hRead s' = hRead s" "givenMessages s' = givenMessages s @ (if e = None then [m] else [])"
    by (rule sess.write_laws [OF inv step])+
qed

abbreviation stream_messages :: "agent_message list \<Rightarrow> agent_message list" where
  "stream_messages \<equiv> filter (\<lambda>m. PayloadType m = Output)"

text \<open>
  The session is a reachable one; what the first loop got is what \<^verbatim>\<open>Read\<close> returned; the stream
  messages accepted by \<^verbatim>\<open>Write\<close> are those of the second loop; no message is written twice.
\<close>

definition flow_inv ::
    "third_party \<Rightarrow> 'g errgroup \<Rightarrow> ('g, 'h, 'x) pumps_scheme \<Rightarrow> bool" where
  "flow_inv tp G p \<longleftrightarrow>
     sess_reachable tp G (ssn p) \<and> out_inv (outc p) \<and> in_inv (inc p) \<and> distinct (hWritten (ssn p))
     \<and> (if tOut p = NotStarted then outc p = out_init \<and> inc p = in_init \<and> tIn p = NotStarted
        else tIn p \<noteq> NotStarted \<and> hRead (ssn p) = preRead p @ oGot (outc p)
          \<and> stream_messages (givenMessages (ssn p)) = stream_messages (preGiven p) @ iSent (inc p))"

text \<open>A step that changes neither the session nor the loops nor whether they were started.\<close>

lemma flow_frame:
  assumes "flow_inv tp G p" and "ssn q = ssn p" "outc q = outc p" "inc q = inc p"
    "tOut q = NotStarted \<longleftrightarrow> tOut p = NotStarted" "tIn q = NotStarted \<longleftrightarrow> tIn p = NotStarted"
    "preRead q = preRead p" "preGiven q = preGiven p"
  shows "flow_inv tp G q"
  using assms by (simp add: flow_inv_def)

lemma flow_session:
  assumes "flow_inv tp G p" and "session_step tp G e (ssn p) = Some s" and "background e"
  shows "flow_inv tp G (p\<lparr>ssn := s\<rparr>)"
  using assms session_step_reachable [OF _ assms(2)] background_step [OF assms(2,3)]
  by (auto simp: flow_inv_def givenMessages_def)

lemma flow_outRead:
  assumes "flow_inv tp G p" and "alive (ssn p)" and "outRead G H b p = Some q"
  shows "flow_inv tp G q"
proof -
  obtain r s where run: "tOut p = Running" "opc (outc p) = ORead" "Read G b (ctxErr (hcause H p)) (ssn p) = Some (r, s)"
    and q: "q = p\<lparr>ssn := s, outc := out_got r (outc p)\<rparr>"
    using assms(3) by (auto simp: outRead_def split: if_splits option.splits)
  have inv: "sess_reachable tp G (ssn p)" "out_inv (outc p)" "hRead (ssn p) = preRead p @ oGot (outc p)"
    using assms(1) run(1) by (simp_all add: flow_inv_def)
  note R = Read_reachable [OF inv(1) assms(2) run(3)]
  note L = Read_laws [OF sess_write.reachable_inv [OF inv(1)] run(3)]
  have "out_step (OGot r) (outc p) = Some (out_got r (outc p))"
    using run(2) by simp
  with inv(2) have out: "out_inv (out_got r (outc p))"
    by (rule out_inv_step)
  have "oGot (out_got r (outc p)) = oGot (outc p) @ (case r of Inr m \<Rightarrow> [m] | Inl _ \<Rightarrow> [])"
    by (auto simp: out_got_def out_return_def Let_def split: sum.split)
  with assms(1) run(1) out R L(2,3) inv(3) show ?thesis
    by (simp add: flow_inv_def q)
qed

lemma in_step_sent:
  "in_step e c = Some d \<Longrightarrow> \<forall>now uid err. e \<noteq> IWritten now uid err \<Longrightarrow> iSent d = iSent c"
  by (cases e) (auto simp: in_return_def in_readerErr_def Let_def
      split: if_splits option.splits in_helper_pc.splits)

lemma out_step_got: "out_step e c = Some d \<Longrightarrow> \<forall>r. e \<noteq> OGot r \<Longrightarrow> oGot d = oGot c"
  by (cases e) (auto simp: out_return_def Let_def
      split: if_splits option.splits out_helper_pc.splits out_pc.splits)

lemma flow_inWrite:
  assumes "flow_inv tp G p" and "alive (ssn p)" and "inWrite G H b now uid p = Some q"
  shows "flow_inv tp G q"
proof -
  obtain data rerr err s c where run: "ipc (inc p) = IWrite data rerr" "tIn p = Running"
    "handlerWrite G b (ctxErr (hcause H p)) (NewStreamMessage now uid data) (ssn p) = Some (err, s)"
    "in_step (IWritten now uid err) (inc p) = Some c" and q: "q = p\<lparr>ssn := s, inc := c\<rparr>"
    using assms(3) by (auto simp: inWrite_def split: in_pc.splits if_splits option.splits)
  have inv: "sess_reachable tp G (ssn p)" "in_inv (inc p)"
    using assms(1) by (simp_all add: flow_inv_def)
  note W = handlerWrite_reachable [OF inv(1) assms(2) run(3)]
  have "iSent c = iSent (inc p) @ (if err = None then [NewStreamMessage now uid data] else [])"
    using run(1,4) by (auto simp: in_return_def in_readerErr_def Let_def split: option.splits)
  with assms(1) run(2) W in_inv_step [OF inv(2) run(4)] show ?thesis
    by (auto simp: flow_inv_def q)
qed

lemma flow_outStep:
  assumes "flow_inv tp G p" and "outStep H oe p = Some q"
  shows "flow_inv tp G q"
proof -
  obtain c where gate: "tOut p \<noteq> NotStarted" "out_gate (hcause H p) oe"
    and c: "out_step oe (outc p) = Some c" and q: "q = p\<lparr>outc := c\<rparr>"
    using assms(2) by (auto simp: outStep_def split: if_splits)
  note out_step_got [OF c out_gate_got [OF gate(2)]] out_inv_step [OF _ c]
  with assms(1) gate(1) show ?thesis
    by (simp add: flow_inv_def q)
qed

lemma flow_inStep:
  assumes "flow_inv tp G p" and "inStep H ie p = Some q"
  shows "flow_inv tp G q"
proof -
  obtain c where gate: "tIn p \<noteq> NotStarted" "in_gate (hcause H p) ie"
    and c: "in_step ie (inc p) = Some c" and q: "q = p\<lparr>inc := c\<rparr>"
    using assms(2) by (auto simp: inStep_def split: if_splits)
  note in_step_sent [OF c in_gate_written [OF gate(2)]] in_inv_step [OF _ c]
  moreover have "tOut p \<noteq> NotStarted"
    using assms(1) gate(1) by (auto simp: flow_inv_def)
  ultimately show ?thesis
    using assms(1) gate(1) by (simp add: flow_inv_def q)
qed

lemma flow_quiet:
  assumes "flow_inv tp G p" and "pump_step tp G H stopErr e p = Some q"
    and "e \<in> {PuStop, PuListener, PuOutReturn, PuInReturn}"
  shows "flow_inv tp G q"
  by (rule flow_frame [OF assms(1)])
    (use assms(2,3) in \<open>auto simp: pump_defs split: if_splits out_pc.splits in_pc.splits\<close>)

lemma flow_step:
  assumes "flow_inv tp G p" and "alive (ssn p)" and "pump_step tp G H stopErr e p = Some q"
  shows "flow_inv tp G q"
proof (cases e)
  case (PuSession se)
  with assms(3) obtain s where s: "session_step tp G se (ssn p) = Some s" "background se"
    and q: "q = (if handlerStopped s then handlerStop (p\<lparr>ssn := s\<rparr>) else p\<lparr>ssn := s\<rparr>)"
    by (cases se) (auto simp: sessionStep_def Let_def)
  note flow = flow_session [OF assms(1) s]
  show ?thesis
    by (rule flow_frame [OF flow]) (simp_all add: q handlerStop_def)
qed (use assms flow_quiet [OF assms(1,3)] in \<open>auto intro: flow_outRead flow_inWrite flow_outStep flow_inStep\<close>)

text \<open>What the common steps leave alone.\<close>

lemma pump_step_frame:
  assumes "pump_step tp G H stopErr e p = Some q"
  shows "preRead q = preRead p" "preGiven q = preGiven p" "pumps.more q = pumps.more p"
    "tOut q = NotStarted \<longleftrightarrow> tOut p = NotStarted" "tAux q = tAux p" "tCleanup q = tCleanup p"
proof -
  have "preRead q = preRead p \<and> preGiven q = preGiven p \<and> pumps.more q = pumps.more p
    \<and> (tOut q = NotStarted \<longleftrightarrow> tOut p = NotStarted) \<and> tAux q = tAux p \<and> tCleanup q = tCleanup p"
    using assms by (cases e)
      (auto simp: pump_defs Let_def split: if_splits option.splits out_pc.splits in_pc.splits)
  then show "preRead q = preRead p" "preGiven q = preGiven p" "pumps.more q = pumps.more p"
    "tOut q = NotStarted \<longleftrightarrow> tOut p = NotStarted" "tAux q = tAux p" "tCleanup q = tCleanup p"
    by simp_all
qed

lemma pump_step_unstarted:
  assumes "pump_step tp G H stopErr e p = Some q" and "tOut p = NotStarted" and "tIn p = NotStarted"
  shows "hRead (ssn q) = hRead (ssn p)" "hWritten (ssn q) = hWritten (ssn p)"
proof -
  have "hRead (ssn q) = hRead (ssn p) \<and> hWritten (ssn q) = hWritten (ssn p)"
  proof (cases e)
    case (PuSession se)
    with assms(1) obtain s where s: "session_step tp G se (ssn p) = Some s" "background se" "ssn q = s"
      by (cases se) (auto simp: sessionStep_def handlerStop_def Let_def)
    with background_step [OF s(1,2)] show ?thesis
      by simp
  qed (use assms in \<open>auto simp: pump_defs split: if_splits option.splits out_pc.splits in_pc.splits\<close>)
  then show "hRead (ssn q) = hRead (ssn p)" "hWritten (ssn q) = hWritten (ssn p)"
    by simp_all
qed

lemma pump_step_given:
  assumes "flow_inv tp G p" and "alive (ssn p)" and "pump_step tp G H stopErr e p = Some q"
    and other: "\<And>now uid d. \<not> P (NewStreamMessage now uid d)"
  shows "filter P (givenMessages (ssn q)) = filter P (givenMessages (ssn p))"
proof (cases e)
  case (PuSession se)
  with assms(3) obtain s where s: "session_step tp G se (ssn p) = Some s" "background se" "ssn q = s"
    by (cases se) (auto simp: sessionStep_def handlerStop_def Let_def)
  with background_step [OF s(1,2)] show ?thesis
    by (simp add: givenMessages_def)
next
  case (PuRead b)
  with assms(3) obtain r s where r: "Read G b (ctxErr (hcause H p)) (ssn p) = Some (r, s)" "ssn q = s"
    by (auto simp: outRead_def split: if_splits option.splits)
  have "sess_reachable tp G (ssn p)"
    using assms(1) by (simp add: flow_inv_def)
  from Read_laws(2) [OF sess_write.reachable_inv [OF this] r(1)] r(2) show ?thesis
    by simp
next
  case (PuWrite b now uid)
  with assms(3) obtain data rerr err s where w: "ssn q = s"
    "handlerWrite G b (ctxErr (hcause H p)) (NewStreamMessage now uid data) (ssn p) = Some (err, s)"
    by (auto simp: inWrite_def split: in_pc.splits if_splits option.splits)
  have "sess_reachable tp G (ssn p)"
    using assms(1) by (simp add: flow_inv_def)
  from handlerWrite_reachable(4) [OF this assms(2) w(2)] w(1) other show ?thesis
    by simp
qed (use assms(3) in \<open>auto simp: pump_defs split: if_splits option.splits out_pc.splits in_pc.splits\<close>)

section \<open>The life of the group\<close>

text \<open>
  The five goroutines start together; the first error of the group is that of the listener,
  after \<^verbatim>\<open>Stop()\<close>, or that of one of the loops; who has returned from a loop has cancelled the
  group.
\<close>

definition group_inv :: "'h errgroup \<Rightarrow> go_error \<Rightarrow> ('g, 'h, 'x) pumps_scheme \<Rightarrow> bool" where
  "group_inv H stopErr p \<longleftrightarrow>
     eg_error H (hgrp p) = hcause H p
     \<and> (tOut p = NotStarted \<longrightarrow> hcause H p = None)
     \<and> (tListener p = NotStarted \<longleftrightarrow> tOut p = NotStarted) \<and> (tCleanup p = NotStarted \<longleftrightarrow> tOut p = NotStarted)
     \<and> (tIn p = NotStarted \<longleftrightarrow> tOut p = NotStarted) \<and> (tAux p = NotStarted \<longleftrightarrow> tOut p = NotStarted)
     \<and> (tListener p = Finished \<or> tOut p = Finished \<or> tIn p = Finished \<longrightarrow> hcause H p \<noteq> None)
     \<and> (tCleanup p = Finished \<longrightarrow> hstopped p)
     \<and> (\<forall>e. hcause H p = Some e \<longrightarrow>
          e = stopErr \<and> hstopped p \<or> opc (outc p) = OReturned e \<or> ipc (inc p) = IReturned e)"

text \<open>A step that leaves the group, its threads and the outcome of the loops as they are.\<close>

definition same_group :: "('g, 'h, 'x) pumps_scheme \<Rightarrow> ('g, 'h, 'x) pumps_scheme \<Rightarrow> bool" where
  "same_group p q \<longleftrightarrow>
     hgrp q = hgrp p \<and> tCleanup q = tCleanup p \<and> tListener q = tListener p \<and> tOut q = tOut p
     \<and> tIn q = tIn p \<and> tAux q = tAux p \<and> (hstopped p \<longrightarrow> hstopped q)
     \<and> (\<forall>e. opc (outc p) = OReturned e \<longrightarrow> opc (outc q) = OReturned e)
     \<and> (\<forall>e. ipc (inc p) = IReturned e \<longrightarrow> ipc (inc q) = IReturned e)"

lemma group_inv_same: "group_inv H stopErr p \<Longrightarrow> same_group p q \<Longrightarrow> group_inv H stopErr q"
  unfolding group_inv_def same_group_def by metis

lemma out_returned_stays: "out_step e c = Some d \<Longrightarrow> opc c = OReturned err \<Longrightarrow> opc d = OReturned err"
  by (cases e) (auto split: if_splits out_helper_pc.splits)

lemma in_returned_stays: "in_step e c = Some d \<Longrightarrow> ipc c = IReturned err \<Longrightarrow> ipc d = IReturned err"
  by (cases e) (auto split: if_splits in_helper_pc.splits)

text \<open>A loop or the listener returns its error to the group.\<close>

lemma group_inv_return:
  assumes laws: "errgroup_laws H" and inv: "group_inv H stopErr p"
    and q: "hgrp q = eg_return H (Some err) (hgrp p)" "tOut p \<noteq> NotStarted"
      "tListener q = NotStarted \<longleftrightarrow> tListener p = NotStarted" "tCleanup q = tCleanup p"
      "tIn q = NotStarted \<longleftrightarrow> tIn p = NotStarted" "tAux q = tAux p" "tOut q \<noteq> NotStarted"
      "hstopped q = hstopped p" "outc q = outc p" "inc q = inc p"
    and reason: "err = stopErr \<and> hstopped p \<or> opc (outc p) = OReturned err \<or> ipc (inc p) = IReturned err"
  shows "group_inv H stopErr q"
proof -
  have "hcause H q = first_of (hcause H p) (Some err)" "eg_error H (hgrp q) = first_of (eg_error H (hgrp p)) (Some err)"
    using errgroup_lawsD [OF laws] q(1) by simp_all
  then show ?thesis
    using inv q reason by (cases "hcause H p") (auto simp: group_inv_def)
qed

lemma pump_step_same_group:
  assumes "pump_step tp G H stopErr e p = Some q" and "e \<notin> {PuListener, PuOutReturn, PuInReturn}"
  shows "same_group p q"
  using assms by (cases e)
    (auto simp: same_group_def pump_defs Let_def dest: out_returned_stays in_returned_stays
      split: if_splits option.splits in_pc.splits)

lemma group_step:
  assumes "errgroup_laws H" and "group_inv H stopErr p" and "pump_step tp G H stopErr e p = Some q"
  shows "group_inv H stopErr q"
proof (cases "e \<in> {PuListener, PuOutReturn, PuInReturn}")
  case False
  with assms show ?thesis
    by (blast intro: group_inv_same pump_step_same_group)
next
  case True
  then consider "e = PuListener" | "e = PuOutReturn" | "e = PuInReturn"
    by blast
  then show ?thesis
  proof cases
    case 1
    with assms(3) have run: "tListener p = Running" "hstopped p"
      and q: "q = hReturn H (Some stopErr) (p\<lparr>tListener := Finished\<rparr>)"
      by (simp_all add: listenerStep_def split: if_splits)
    have "tOut p \<noteq> NotStarted"
      using assms(2) run(1) by (auto simp: group_inv_def)
    with run show ?thesis
      by (intro group_inv_return [OF assms(1,2), of q stopErr]) (simp_all add: q hReturn_def)
  next
    case 2
    with assms(3) obtain err where run: "opc (outc p) = OReturned err" "tOut p = Running"
      and q: "q = hReturn H (Some err) (p\<lparr>tOut := Finished\<rparr>)"
      by (auto simp: outReturn_def split: if_splits out_pc.splits)
    then show ?thesis
      by (intro group_inv_return [OF assms(1,2), of q err]) (simp_all add: q hReturn_def)
  next
    case 3
    with assms(3) obtain err where run: "ipc (inc p) = IReturned err" "tIn p = Running"
      and q: "q = hReturn H (Some err) (p\<lparr>tIn := Finished\<rparr>)"
      by (auto simp: inReturn_def split: if_splits in_pc.splits)
    moreover have "tOut p \<noteq> NotStarted"
      using assms(2) run(2) by (auto simp: group_inv_def)
    ultimately show ?thesis
      by (intro group_inv_return [OF assms(1,2), of q err]) (simp_all add: q hReturn_def)
  qed
qed

text \<open>The steps of the handlers themselves.\<close>

lemma flow_sessionStep:
  assumes "flow_inv tp G p" and "sessionStep tp G e p = Some q" and "background e"
  shows "flow_inv tp G q" "same_group p q" "pumps.more q = pumps.more p" "preRead q = preRead p"
    "preGiven q = preGiven p" "hRead (ssn q) = hRead (ssn p)" "hWritten (ssn q) = hWritten (ssn p)"
    "givenMessages (ssn q) = givenMessages (ssn p)"
proof -
  obtain s where s: "session_step tp G e (ssn p) = Some s"
    and q: "q = (if handlerStopped s then handlerStop (p\<lparr>ssn := s\<rparr>) else p\<lparr>ssn := s\<rparr>)"
    using assms(2) by (auto simp: sessionStep_def Let_def)
  note flow = flow_session [OF assms(1) s assms(3)]
  show "flow_inv tp G q"
    by (rule flow_frame [OF flow]) (simp_all add: q handlerStop_def)
  show "same_group p q" "pumps.more q = pumps.more p" "preRead q = preRead p" "preGiven q = preGiven p"
    by (simp_all add: q handlerStop_def same_group_def)
  show "hRead (ssn q) = hRead (ssn p)" "hWritten (ssn q) = hWritten (ssn p)"
    "givenMessages (ssn q) = givenMessages (ssn p)"
    using background_step [OF s assms(3)] by (simp_all add: q handlerStop_def givenMessages_def)
qed

lemma init_histories: "oGot out_init = []" "iSent in_init = []"
  by (simp_all add: out_init_def in_init_def)

lemma flow_startPumps:
  assumes "flow_inv tp G p" and "tOut p = NotStarted"
  shows "flow_inv tp G (startPumps p)"
  using assms out_inv_init in_inv_init by (simp add: flow_inv_def startPumps_def init_histories)

lemma group_startPumps:
  assumes "group_inv H stopErr p" and "tOut p = NotStarted"
  shows "group_inv H stopErr (startPumps p)"
  using assms by (auto simp: group_inv_def startPumps_def)

text \<open>A goroutine of the handler returns nil, or anything after the first error.\<close>

lemma group_inv_nil:
  assumes "errgroup_laws H" and "group_inv H stopErr p" and "hgrp q = eg_return H err (hgrp p)"
    "err = None \<or> hcause H p \<noteq> None"
    "tCleanup q = NotStarted \<longleftrightarrow> tCleanup p = NotStarted" "tCleanup q = Finished \<longrightarrow> hstopped q"
    "hstopped p \<longrightarrow> hstopped q" "tAux q = NotStarted \<longleftrightarrow> tAux p = NotStarted" "tListener q = tListener p"
    "tOut q = tOut p" "tIn q = tIn p" "outc q = outc p" "inc q = inc p"
  shows "group_inv H stopErr q"
proof -
  have cs: "hcause H q = hcause H p" "eg_error H (hgrp q) = hcause H p"
    using assms(2,3,4) errgroup_lawsD [OF assms(1)] by (auto simp: group_inv_def)
  show ?thesis
    using assms(2,5-) unfolding group_inv_def cs by (intro conjI) (simp; blast)+
qed

section \<open>A cancelled group ends\<close>

fun pump_run ::
    "third_party \<Rightarrow> 'g errgroup \<Rightarrow> 'h errgroup \<Rightarrow> go_error \<Rightarrow> pump_event list
      \<Rightarrow> ('g, 'h, 'x) pumps_scheme \<Rightarrow> ('g, 'h, 'x) pumps_scheme option" where
  "pump_run tp G H stopErr [] p = Some p"
| "pump_run tp G H stopErr (e # es) p =
     (case pump_step tp G H stopErr e p of None \<Rightarrow> None | Some p \<Rightarrow> pump_run tp G H stopErr es p)"

lemma pump_run_append:
  "pump_run tp G H stopErr es p = Some q \<Longrightarrow> pump_run tp G H stopErr es' q = Some r \<Longrightarrow>
     pump_run tp G H stopErr (es @ es') p = Some r"
  by (induction es arbitrary: p) (auto split: option.splits)

text \<open>The ways out that need nobody else: no step of the session, the user's reader or writer.\<close>

definition exit_events :: "pump_event set" where
  "exit_events = {PuListener, PuRead OnCtx, PuOut (OCtx context_Canceled), PuOutReturn,
     PuWrite OnCtx 0 [], PuIn (ICtx context_Canceled), PuInReturn}"

definition cancelled :: "'h errgroup \<Rightarrow> ('g, 'h, 'x) pumps_scheme \<Rightarrow> bool" where
  "cancelled H p \<longleftrightarrow> hcause H p \<noteq> None \<and> alive (ssn p)"

definition same_rest :: "('g, 'h, 'x) pumps_scheme \<Rightarrow> ('g, 'h, 'x) pumps_scheme \<Rightarrow> bool" where
  "same_rest p q \<longleftrightarrow> tCleanup q = tCleanup p \<and> tAux q = tAux p \<and> hstopped q = hstopped p"

lemma same_rest_trans: "same_rest p q \<Longrightarrow> same_rest q r \<Longrightarrow> same_rest p r"
  by (simp add: same_rest_def)

lemma cancelled_ctx: "cancelled H p \<Longrightarrow> ctxErr (hcause H p) = Some context_Canceled"
  by (auto simp: cancelled_def ctxErr_def)

lemma out_ends:
  fixes p :: "('g, 'h, 'x) pumps_scheme"
  assumes "errgroup_laws H" and "cancelled H p" and "tOut p = Running"
  shows "\<exists>es q. pump_run tp G H stopErr es p = Some q \<and> length es \<le> 2 \<and> set es \<subseteq> exit_events
    \<and> tOut q = Finished \<and> tIn q = tIn p \<and> tListener q = tListener p \<and> same_rest p q \<and> cancelled H q"
proof -
  note ctx = cancelled_ctx [OF assms(2)] and laws = errgroup_lawsD [OF assms(1)]
  have ret: "\<exists>q. pump_run tp G H stopErr [PuOutReturn] r = Some q \<and> tOut q = Finished \<and> tIn q = tIn r
      \<and> tListener q = tListener r \<and> same_rest r q \<and> cancelled H q"
    if "opc (outc r) = OReturned e" "tOut r = Running" "cancelled H r" for r :: "('g, 'h, 'x) pumps_scheme" and e
    using that by (auto simp: outReturn_def hReturn_def same_rest_def cancelled_def laws)
  have two: ?thesis if "pump_step tp G H stopErr e p = Some r" "e \<in> exit_events" "opc (outc r) = OReturned err"
    "tOut r = Running" "cancelled H r" "tIn r = tIn p" "tListener r = tListener p" "same_rest p r" for e r err
  proof -
    from ret [OF that(3-5)] obtain q where q: "pump_run tp G H stopErr [PuOutReturn] r = Some q" "tOut q = Finished"
      "tIn q = tIn r" "tListener q = tListener r" "same_rest r q" "cancelled H q"
      by blast
    have "pump_run tp G H stopErr [e, PuOutReturn] p = Some q"
      using that(1) q(1) by simp
    moreover have "set [e, PuOutReturn] \<subseteq> exit_events"
      using that(2) by (simp add: exit_events_def)
    ultimately show ?thesis
      using q that(6,7) same_rest_trans [OF that(8) q(5)] by (intro exI [of _ "[e, PuOutReturn]"] exI [of _ q]) simp
  qed
  show ?thesis
  proof (cases "opc (outc p)")
    case ORead
    then have step: "pump_step tp G H stopErr (PuRead OnCtx) p
        = Some (p\<lparr>outc := out_return (wrap2 ErrGetSessionMessage context_Canceled) (outc p)\<rparr>)"
      using assms(3) ctx by (simp add: outRead_def Read_def out_got_def)
    show ?thesis
      by (rule two [OF step]) (use assms(2,3) in \<open>simp_all add: exit_events_def out_return_def cancelled_def same_rest_def\<close>)
  next
    case (OSend payload)
    then have step: "pump_step tp G H stopErr (PuOut (OCtx context_Canceled)) p
        = Some (p\<lparr>outc := out_return context_Canceled (outc p)\<rparr>)"
      using assms(3) ctx by (simp add: outStep_def ctx_error_def)
    show ?thesis
      by (rule two [OF step]) (use assms(2,3) in \<open>simp_all add: exit_events_def out_return_def cancelled_def same_rest_def\<close>)
  next
    case OAwait
    then have step: "pump_step tp G H stopErr (PuOut (OCtx context_Canceled)) p
        = Some (p\<lparr>outc := out_return context_Canceled (outc p)\<rparr>)"
      using assms(3) ctx by (simp add: outStep_def ctx_error_def)
    show ?thesis
      by (rule two [OF step]) (use assms(2,3) in \<open>simp_all add: exit_events_def out_return_def cancelled_def same_rest_def\<close>)
  next
    case (OReturned e)
    from ret [OF this assms(3,2)] obtain q where "pump_run tp G H stopErr [PuOutReturn] p = Some q"
      "tOut q = Finished \<and> tIn q = tIn p \<and> tListener q = tListener p \<and> same_rest p q \<and> cancelled H q"
      by blast
    then show ?thesis
      by (intro exI [of _ "[PuOutReturn]"] exI [of _ q]) (simp add: exit_events_def)
  qed
qed

lemma in_ends:
  fixes p :: "('g, 'h, 'x) pumps_scheme"
  assumes "errgroup_laws H" and "cancelled H p" and "tIn p = Running"
  shows "\<exists>es q. pump_run tp G H stopErr es p = Some q \<and> length es \<le> 2 \<and> set es \<subseteq> exit_events
    \<and> tIn q = Finished \<and> tOut q = tOut p \<and> tListener q = tListener p \<and> same_rest p q \<and> cancelled H q"
proof -
  note ctx = cancelled_ctx [OF assms(2)] and laws = errgroup_lawsD [OF assms(1)]
  have ret: "\<exists>q. pump_run tp G H stopErr [PuInReturn] r = Some q \<and> tIn q = Finished \<and> tOut q = tOut r
      \<and> tListener q = tListener r \<and> same_rest r q \<and> cancelled H q"
    if "ipc (inc r) = IReturned e" "tIn r = Running" "cancelled H r" for r :: "('g, 'h, 'x) pumps_scheme" and e
    using that by (auto simp: inReturn_def hReturn_def same_rest_def cancelled_def laws)
  have two: ?thesis if "pump_step tp G H stopErr e p = Some r" "e \<in> exit_events" "ipc (inc r) = IReturned err"
    "tIn r = Running" "cancelled H r" "tOut r = tOut p" "tListener r = tListener p" "same_rest p r" for e r err
  proof -
    from ret [OF that(3-5)] obtain q where q: "pump_run tp G H stopErr [PuInReturn] r = Some q" "tIn q = Finished"
      "tOut q = tOut r" "tListener q = tListener r" "same_rest r q" "cancelled H q"
      by blast
    have "pump_run tp G H stopErr [e, PuInReturn] p = Some q"
      using that(1) q(1) by simp
    moreover have "set [e, PuInReturn] \<subseteq> exit_events"
      using that(2) by (simp add: exit_events_def)
    ultimately show ?thesis
      using q that(6,7) same_rest_trans [OF that(8) q(5)] by (intro exI [of _ "[e, PuInReturn]"] exI [of _ q]) simp
  qed
  have step_ctx: "pump_step tp G H stopErr (PuIn (ICtx context_Canceled)) p
      = Some (p\<lparr>inc := in_return context_Canceled (inc p)\<rparr>)" if "ipc (inc p) = ISend \<or> ipc (inc p) = IAwait"
    using that assms(3) ctx by (auto simp: inStep_def ctx_error_def)
  note exit = exit_events_def in_return_def cancelled_def same_rest_def
  show ?thesis
  proof (cases "ipc (inc p)")
    case ISend
    then have "ipc (inc p) = ISend \<or> ipc (inc p) = IAwait"
      by simp
    from step_ctx [OF this] show ?thesis
      by (rule two) (use assms(2,3) in \<open>simp_all add: exit\<close>)
  next
    case IAwait
    then have "ipc (inc p) = ISend \<or> ipc (inc p) = IAwait"
      by simp
    from step_ctx [OF this] show ?thesis
      by (rule two) (use assms(2,3) in \<open>simp_all add: exit\<close>)
  next
    case (IWrite data rerr)
    then have step: "pump_step tp G H stopErr (PuWrite OnCtx 0 []) p
        = Some (p\<lparr>ssn := newMessage (NewStreamMessage 0 [] data) (ssn p),
            inc := in_return (wrap2 ErrWriteSessionMessage context_Canceled) (inc p)\<rparr>)"
      using assms(3) ctx by (simp add: inWrite_def handlerWrite_def Write_def)
    show ?thesis
      by (rule two [OF step]) (use assms(2,3) in \<open>simp_all add: exit alive_def newMessage_def\<close>)
  next
    case (IReturned e)
    from ret [OF this assms(3,2)] obtain q where "pump_run tp G H stopErr [PuInReturn] p = Some q"
      "tIn q = Finished \<and> tOut q = tOut p \<and> tListener q = tListener p \<and> same_rest p q \<and> cancelled H q"
      by blast
    then show ?thesis
      by (intro exI [of _ "[PuInReturn]"] exI [of _ q]) (simp add: exit_events_def)
  qed
qed

text \<open>A step of at most two events, or none if the goroutine is not running.\<close>

lemma out_ends_any:
  assumes "errgroup_laws H" and "cancelled H p"
  shows "\<exists>es q. pump_run tp G H stopErr es p = Some q \<and> length es \<le> 2 \<and> set es \<subseteq> exit_events
    \<and> tOut q \<noteq> Running \<and> tIn q = tIn p \<and> tListener q = tListener p \<and> same_rest p q \<and> cancelled H q"
proof (cases "tOut p = Running")
  case True
  from out_ends [OF assms this] show ?thesis
    by (metis thread.distinct(5))
next
  case False
  then show ?thesis
    by (intro exI [of _ "[]"] exI [of _ p]) (simp add: assms(2) same_rest_def)
qed

lemma in_ends_any:
  assumes "errgroup_laws H" and "cancelled H p"
  shows "\<exists>es q. pump_run tp G H stopErr es p = Some q \<and> length es \<le> 2 \<and> set es \<subseteq> exit_events
    \<and> tIn q \<noteq> Running \<and> tOut q = tOut p \<and> tListener q = tListener p \<and> same_rest p q \<and> cancelled H q"
proof (cases "tIn p = Running")
  case True
  from in_ends [OF assms this] show ?thesis
    by (metis thread.distinct(5))
next
  case False
  then show ?thesis
    by (intro exI [of _ "[]"] exI [of _ p]) (simp add: assms(2) same_rest_def)
qed

lemma listener_ends_any:
  assumes "errgroup_laws H" and "cancelled H p" and "hstopped p"
  shows "\<exists>es q. pump_run tp G H stopErr es p = Some q \<and> length es \<le> 1 \<and> set es \<subseteq> exit_events
    \<and> tListener q \<noteq> Running \<and> tOut q = tOut p \<and> tIn q = tIn p \<and> same_rest p q \<and> cancelled H q"
proof (cases "tListener p = Running")
  case True
  let ?q = "hReturn H (Some stopErr) (p\<lparr>tListener := Finished\<rparr>)"
  have "pump_run tp G H stopErr [PuListener] p = Some ?q"
    using True assms(3) by (simp add: listenerStep_def)
  then show ?thesis
    using assms(2) by (intro exI [of _ "[PuListener]"] exI [of _ ?q])
      (auto simp: exit_events_def hReturn_def same_rest_def cancelled_def errgroup_lawsD [OF assms(1)])
next
  case False
  then show ?thesis
    by (intro exI [of _ "[]"] exI [of _ p]) (simp add: assms(2) same_rest_def)
qed

lemma pumps_end:
  assumes "errgroup_laws H" and "cancelled H p" and "hstopped p"
  shows "\<exists>es q. pump_run tp G H stopErr es p = Some q \<and> length es \<le> 5 \<and> set es \<subseteq> exit_events
    \<and> tListener q \<noteq> Running \<and> tOut q \<noteq> Running \<and> tIn q \<noteq> Running \<and> same_rest p q \<and> cancelled H q"
proof -
  from listener_ends_any [OF assms] obtain es1 p1 where 1: "pump_run tp G H stopErr es1 p = Some p1"
    "length es1 \<le> 1" "set es1 \<subseteq> exit_events" "tListener p1 \<noteq> Running" "same_rest p p1" "cancelled H p1"
    by blast
  from out_ends_any [OF assms(1) 1(6)] obtain es2 p2 where 2: "pump_run tp G H stopErr es2 p1 = Some p2"
    "length es2 \<le> 2" "set es2 \<subseteq> exit_events" "tOut p2 \<noteq> Running" "tListener p2 = tListener p1"
    "same_rest p1 p2" "cancelled H p2"
    by blast
  from in_ends_any [OF assms(1) 2(7)] obtain es3 p3 where 3: "pump_run tp G H stopErr es3 p2 = Some p3"
    "length es3 \<le> 2" "set es3 \<subseteq> exit_events" "tIn p3 \<noteq> Running" "tOut p3 = tOut p2" "tListener p3 = tListener p2"
    "same_rest p2 p3" "cancelled H p3"
    by blast
  have run: "pump_run tp G H stopErr (es1 @ es2 @ es3) p = Some p3"
    by (rule pump_run_append [OF 1(1) pump_run_append [OF 2(1) 3(1)]])
  have "same_rest p p3"
    by (rule same_rest_trans [OF 1(5) same_rest_trans [OF 2(6) 3(7)]])
  then show ?thesis
    using run 1 2 3 by (intro exI [of _ "es1 @ es2 @ es3"] exI [of _ p3]) simp
qed

lemma exit_alive:
  assumes "pump_step tp G H stopErr e p = Some q" and "e \<in> exit_events" and "alive (ssn p)"
  shows "alive (ssn q)"
  using assms
  by (auto simp: exit_events_def pump_defs alive_def Read_def Write_def handlerWrite_def newMessage_def
      split: if_splits option.splits out_pc.splits in_pc.splits)

text \<open>After \<^verbatim>\<open>Stop()\<close>, the listener cancels the group, if nobody has yet.\<close>

lemma pumps_get_cancelled:
  assumes "errgroup_laws H" and "group_inv H stopErr p" and "alive (ssn p)"
    and "tOut p \<noteq> NotStarted" and "hstopped p \<or> hcause H p \<noteq> None"
  shows "\<exists>es q. pump_run tp G H stopErr es p = Some q \<and> length es \<le> 1 \<and> set es \<subseteq> exit_events \<and> cancelled H q"
proof (cases "hcause H p = None")
  case True
  with assms have run: "hstopped p" "tListener p = Running"
    by (cases "tListener p"; simp add: group_inv_def)+
  then show ?thesis
    using assms(3) True by (intro exI [of _ "[PuListener]"])
      (simp add: exit_events_def listenerStep_def cancelled_def hReturn_def errgroup_lawsD [OF assms(1)])
next
  case False
  with assms(3) show ?thesis
    by (intro exI [of _ "[]"] exI [of _ p]) (simp add: cancelled_def)
qed

section \<open>The result of Wait\<close>

lemma handlerWait_ended:
  assumes "flow_inv tp G p" and "group_inv H stopErr p" and "handlerWait H stopErr OnGroup ctx p = Some res"
  shows "pumpsReturned p \<and> hstopped p \<and> tCleanup p = Finished \<and> (res = None \<longleftrightarrow> hcause H p = Some stopErr)
    \<and> (\<forall>e. res = Some e \<longrightarrow>
        opc (outc p) = OReturned e \<and> out_error e \<or> ipc (inc p) = IReturned e \<and> in_error e)"
proof -
  have w: "hcause H p \<noteq> None" "pumpsReturned p" "res = waitResult stopErr (eg_error H (hgrp p))"
    using assms(3) by (auto simp: handlerWait_def split: if_splits)
  have group: "eg_error H (hgrp p) = hcause H p" "tCleanup p \<noteq> NotStarted"
    "\<And>e. hcause H p = Some e \<Longrightarrow>
      e = stopErr \<and> hstopped p \<or> opc (outc p) = OReturned e \<or> ipc (inc p) = IReturned e"
    "tCleanup p = Finished \<longrightarrow> hstopped p"
    using assms(2) w(1) by (auto simp: group_inv_def)
  then have "tCleanup p = Finished"
    using w(2) by (cases "tCleanup p") (auto simp: pumpsReturned_def)
  moreover have "opc (outc p) = OReturned e \<Longrightarrow> out_error e" "ipc (inc p) = IReturned e \<Longrightarrow> in_error e" for e
    using assms(1) by (simp_all add: flow_inv_def out_inv_def in_inv_def)
  ultimately show ?thesis
    using w group(1,3,4) by (auto simp: waitResult_def split: if_splits)
qed

end
