(* ===== verification/Stream.thy ===== *)
theory Stream
  imports Handler_Pumps
begin

text \<open>
  The handler for interactive shells, \<^verbatim>\<open>handler/stream.go\<close> with \<^verbatim>\<open>handler/termsize.go\<close>: the two copy
  loops, the goroutine that reports the size of the terminal, and the life cycle. The state
  contains the whole session; the session calls the handler's \<^verbatim>\<open>Start\<close>, \<^verbatim>\<open>Wait\<close> and \<^verbatim>\<open>Stop\<close>, so
  these are steps of both.
\<close>

section \<open>The size of the terminal\<close>

text \<open>A \<^verbatim>\<open>TerminalSize\<close> is what its \<^verbatim>\<open>Size\<close> returns at the n-th call: width, height, error.\<close>

type_synonym terminal_size = "nat \<Rightarrow> int \<times> int \<times> go_error option"

definition DefaultTerminalWidth :: int where "DefaultTerminalWidth = 80"
definition DefaultTerminalHeight :: int where "DefaultTerminalHeight = 24"

definition DefaultTerminalSizeFunc :: terminal_size where
  "DefaultTerminalSizeFunc = (\<lambda>_. (DefaultTerminalWidth, DefaultTerminalHeight, None))"

text \<open>
  The fields of a \<^verbatim>\<open>Stream\<close> that matter here: \<open>termSize\<close> is its \<^verbatim>\<open>TerminalSize\<close> (\<^term>\<open>None\<close> for
  nil), \<open>writerFd\<close> is \<^verbatim>\<open>term.GetSize\<close> of the writer's descriptor, if the writer has one.
\<close>

record stream_config =
  termSize :: "terminal_size option"
  writerFd :: "terminal_size option"

definition getTerminalSize :: "stream_config \<Rightarrow> terminal_size" where
  "getTerminalSize cfg =
     (case termSize cfg of
        Some t \<Rightarrow> t
      | None \<Rightarrow>
          (case writerFd cfg of
             None \<Rightarrow> DefaultTerminalSizeFunc
           | Some getSize \<Rightarrow> getSize))"

section \<open>State\<close>

record ('g, 'h) stream = "('g, 'h) pumps" +
  lastWidth :: int
  lastHeight :: int
  ticks :: nat                        \<comment> \<open>how often the size was asked for\<close>
  sizeFailed :: bool                  \<comment> \<open>history: a call of \<^verbatim>\<open>SetTerminalSize\<close> failed\<close>

definition stream_init :: "'g errgroup \<Rightarrow> 'h errgroup \<Rightarrow> ('g, 'h) stream" where
  "stream_init G H = pumps.extend (pumps_init G H)
     \<lparr>lastWidth = 0, lastHeight = 0, ticks = 0, sizeFailed = False\<rparr>"

section \<open>Operations\<close>

text \<open>\<^verbatim>\<open>Start\<close> starts the five goroutines; its return is the session's step after \<^verbatim>\<open>Handler.Start\<close>.\<close>

definition streamStart :: "('g, 'h) stream \<Rightarrow> ('g, 'h) stream option" where
  "streamStart p = (if startPc (ssn p) = StStarting \<and> tOut p = NotStarted then Some (startPumps p) else None)"

definition streamStarted :: "third_party \<Rightarrow> 'g errgroup \<Rightarrow> ('g, 'h) stream \<Rightarrow> ('g, 'h) stream option" where
  "streamStarted tp G p =
     (if tOut p \<noteq> NotStarted then sessionStep tp G (EvHandlerStart None) p else None)"

definition streamCleanup :: "'h errgroup \<Rightarrow> ('g, 'h) stream \<Rightarrow> ('g, 'h) stream option" where
  "streamCleanup H p =
     (if tCleanup p = Running \<and> hcause H p \<noteq> None then
        Some (hReturn H None (handlerStop (p\<lparr>tCleanup := Finished\<rparr>)))
      else None)"

text \<open>The goroutine of lines 134 to 158: a tick, and its end.\<close>

definition sizeTick ::
    "'g errgroup \<Rightarrow> 'h errgroup \<Rightarrow> stream_config \<Rightarrow> select_case \<Rightarrow> time \<Rightarrow> bytes
      \<Rightarrow> ('g, 'h) stream \<Rightarrow> ('g, 'h) stream option" where
  "sizeTick G H cfg branch now uid p =
     (if tAux p = Running then
        (let (width, height, err) = getTerminalSize cfg (ticks p);
             p = p\<lparr>ticks := Suc (ticks p)\<rparr> in
         if lastWidth p \<noteq> width \<or> lastHeight p \<noteq> height then
           (case SetTerminalSize (handlerWrite G branch (ctxErr (hcause H p))) now uid width height (ssn p) of
              None \<Rightarrow> None
            | Some (err, s) \<Rightarrow>
                Some (p\<lparr>ssn := s, sizeFailed := (sizeFailed p \<or> err \<noteq> None),
                  lastWidth := width, lastHeight := height\<rparr>))
         else Some p)
      else None)"

definition sizeReturn :: "'h errgroup \<Rightarrow> ('g, 'h) stream \<Rightarrow> ('g, 'h) stream option" where
  "sizeReturn H p =
     (if tAux p = Running \<and> hcause H p \<noteq> None then Some (hReturn H None (p\<lparr>tAux := Finished\<rparr>)) else None)"

definition streamWait ::
    "'h errgroup \<Rightarrow> select_case \<Rightarrow> go_error option \<Rightarrow> ('g, 'h) stream \<Rightarrow> go_error option option" where
  "streamWait H = handlerWait H errStreamStopRequested"

text \<open>The session's goroutine that calls \<^verbatim>\<open>Handler.Wait(context.Background())\<close>: its context is never done.\<close>

definition streamWaited ::
    "third_party \<Rightarrow> 'g errgroup \<Rightarrow> 'h errgroup \<Rightarrow> select_case \<Rightarrow> ('g, 'h) stream \<Rightarrow> ('g, 'h) stream option" where
  "streamWaited tp G H branch p =
     (case streamWait H branch None p of
        None \<Rightarrow> None
      | Some res \<Rightarrow> sessionStep tp G (EvHandlerWait res) p)"

section \<open>Steps\<close>

datatype stream_event =
    StStart | StStarted | StPump pump_event | StCleanup | StTick select_case time bytes | StSizeReturn
  | StWaited select_case

fun stream_action ::
    "third_party \<Rightarrow> 'g errgroup \<Rightarrow> 'h errgroup \<Rightarrow> stream_config \<Rightarrow> stream_event
      \<Rightarrow> ('g, 'h) stream \<Rightarrow> ('g, 'h) stream option" where
  "stream_action tp G H cfg StStart p = streamStart p"
| "stream_action tp G H cfg StStarted p = streamStarted tp G p"
| "stream_action tp G H cfg (StPump e) p = pump_step tp G H errStreamStopRequested e p"
| "stream_action tp G H cfg StCleanup p = streamCleanup H p"
| "stream_action tp G H cfg (StTick b now uid) p = sizeTick G H cfg b now uid p"
| "stream_action tp G H cfg StSizeReturn p = sizeReturn H p"
| "stream_action tp G H cfg (StWaited b) p = streamWaited tp G H b p"

text \<open>A panic in the session's receiver takes the process down.\<close>

definition stream_step ::
    "third_party \<Rightarrow> 'g errgroup \<Rightarrow> 'h errgroup \<Rightarrow> stream_config \<Rightarrow> stream_event
      \<Rightarrow> ('g, 'h) stream \<Rightarrow> ('g, 'h) stream option" where
  "stream_step tp G H cfg e p =
     (if rpc (rd (ssn p)) = RPanicked then None else stream_action tp G H cfg e p)"

fun stream_run ::
    "third_party \<Rightarrow> 'g errgroup \<Rightarrow> 'h errgroup \<Rightarrow> stream_config \<Rightarrow> stream_event list
      \<Rightarrow> ('g, 'h) stream \<Rightarrow> ('g, 'h) stream option" where
  "stream_run tp G H cfg [] p = Some p"
| "stream_run tp G H cfg (e # es) p =
     (case stream_step tp G H cfg e p of None \<Rightarrow> None | Some p \<Rightarrow> stream_run tp G H cfg es p)"

inductive stream_trans ::
    "third_party \<Rightarrow> 'g errgroup \<Rightarrow> 'h errgroup \<Rightarrow> stream_config \<Rightarrow> ('g, 'h) stream \<Rightarrow> ('g, 'h) stream \<Rightarrow> bool"
  for tp G H cfg where
  stream_transI: "stream_step tp G H cfg e p = Some q \<Longrightarrow> stream_trans tp G H cfg p q"

inductive_cases stream_transE [consumes 1, case_names step]: "stream_trans tp G H cfg p q"

definition stream_start :: "'g errgroup \<Rightarrow> 'h errgroup \<Rightarrow> ('g, 'h) stream \<Rightarrow> bool" where
  "stream_start G H p \<longleftrightarrow> p = stream_init G H"

abbreviation stream_reachable ::
    "third_party \<Rightarrow> 'g errgroup \<Rightarrow> 'h errgroup \<Rightarrow> stream_config \<Rightarrow> ('g, 'h) stream \<Rightarrow> bool" where
  "stream_reachable tp G H cfg \<equiv> reachable (stream_start G H) (stream_trans tp G H cfg)"

lemma stream_run_reachable:
  "stream_reachable tp G H cfg p \<Longrightarrow> stream_run tp G H cfg es p = Some q \<Longrightarrow> stream_reachable tp G H cfg q"
  by (induction es arbitrary: p)
    (auto split: option.splits intro: reach_step [of "stream_start G H" "stream_trans tp G H cfg", OF _ stream_transI])

lemma stream_run_init:
  "stream_run tp G H cfg es (stream_init G H) = Some q \<Longrightarrow> stream_reachable tp G H cfg q"
  by (rule stream_run_reachable) (simp_all add: reach_init stream_start_def)

section \<open>Invariants\<close>

text \<open>What the size goroutine should send: the sizes that differ from the one before.\<close>

fun changes :: "int \<times> int \<Rightarrow> (int \<times> int) list \<Rightarrow> (int \<times> int) list" where
  "changes l [] = []"
| "changes l (x # xs) = (if x \<noteq> l then x # changes x xs else changes l xs)"

definition dims :: "stream_config \<Rightarrow> nat \<Rightarrow> int \<times> int" where
  "dims cfg n = (case getTerminalSize cfg n of (w, h, err) \<Rightarrow> (w, h))"

abbreviation observed :: "stream_config \<Rightarrow> nat \<Rightarrow> (int \<times> int) list" where
  "observed cfg n \<equiv> map (dims cfg) [0..<n]"

abbreviation size_payloads :: "agent_message list \<Rightarrow> bytes list" where
  "size_payloads ms \<equiv> map Payload (filter (\<lambda>m. PayloadType m = Size) ms)"

definition size_inv :: "stream_config \<Rightarrow> ('g, 'h) stream \<Rightarrow> bool" where
  "size_inv cfg p \<longleftrightarrow>
     (lastWidth p, lastHeight p) = last ((0, 0) # observed cfg (ticks p))
     \<and> (\<not> sizeFailed p \<longrightarrow>
         size_payloads (givenMessages (ssn p)) = map (case_prod sizePayload) (changes (0, 0) (observed cfg (ticks p))))"

lemma changes_snoc:
  "changes l (xs @ [x]) = changes l xs @ (if x \<noteq> last (l # xs) then [x] else [])"
  by (induction xs arbitrary: l) auto

lemma NewSizeMessage_simps:
  "\<exists>m. NewSizeMessage now uid w h = Inr m \<and> PayloadType m = Size \<and> Payload m = sizePayload w h"
  by (simp add: NewSizeMessage_def)

text \<open>Before \<^verbatim>\<open>Start\<close> the handler has neither read nor written anything.\<close>

definition fresh_inv :: "('g, 'h) stream \<Rightarrow> bool" where
  "fresh_inv p \<longleftrightarrow> preRead p = [] \<and> preGiven p = []
     \<and> (tOut p = NotStarted \<longrightarrow> hRead (ssn p) = [] \<and> hWritten (ssn p) = [])"

definition stream_inv ::
    "third_party \<Rightarrow> 'g errgroup \<Rightarrow> 'h errgroup \<Rightarrow> stream_config \<Rightarrow> ('g, 'h) stream \<Rightarrow> bool" where
  "stream_inv tp G H cfg p \<longleftrightarrow>
     flow_inv tp G p \<and> group_inv H errStreamStopRequested p \<and> size_inv cfg p \<and> fresh_inv p"

lemma stream_fields:
  fixes p q :: "('g, 'h) stream"
  assumes "pumps.more p = pumps.more q"
  shows "lastWidth p = lastWidth q" "lastHeight p = lastHeight q" "ticks p = ticks q" "sizeFailed p = sizeFailed q"
  using assms by (cases p; cases q; simp)+

lemma stream_inv_pump:
  assumes "errgroup_laws H" and "stream_inv tp G H cfg p" and "alive (ssn p)"
    and "pump_step tp G H errStreamStopRequested e p = Some q"
  shows "stream_inv tp G H cfg q"
proof -
  have inv: "flow_inv tp G p" "group_inv H errStreamStopRequested p" "size_inv cfg p" "fresh_inv p"
    using assms(2) by (simp_all add: stream_inv_def)
  note frame = pump_step_frame [OF assms(4)]
  have "size_payloads (givenMessages (ssn q)) = size_payloads (givenMessages (ssn p))"
    by (intro arg_cong [where f = "map Payload"] pump_step_given [OF inv(1) assms(3,4)])
      (simp add: go_consts)
  with inv(3) stream_fields [OF frame(3)] have "size_inv cfg q"
    by (simp add: size_inv_def)
  moreover have "fresh_inv q"
    using inv(1,4) frame pump_step_unstarted [OF assms(4)] by (simp add: fresh_inv_def flow_inv_def)
  ultimately show ?thesis
    using flow_step [OF inv(1) assms(3,4)] group_step [OF assms(1) inv(2) assms(4)]
    by (simp add: stream_inv_def)
qed

lemma stream_inv_session:
  assumes "stream_inv tp G H cfg p" and "sessionStep tp G e p = Some q" and "background e"
  shows "stream_inv tp G H cfg q"
proof -
  have inv: "flow_inv tp G p" "group_inv H errStreamStopRequested p" "size_inv cfg p" "fresh_inv p"
    using assms(1) by (simp_all add: stream_inv_def)
  note step = flow_sessionStep [OF inv(1) assms(2,3)]
  have "tOut q = tOut p"
    using step(2) by (simp add: same_group_def)
  with inv(3,4) step stream_fields [OF step(3)] have "size_inv cfg q" "fresh_inv q"
    by (simp_all add: size_inv_def fresh_inv_def)
  with step(1) group_inv_same [OF inv(2) step(2)] show ?thesis
    by (simp add: stream_inv_def)
qed

lemma stream_inv_tick:
  assumes "stream_inv tp G H cfg p" and "alive (ssn p)" and "sizeTick G H cfg b now uid p = Some q"
  shows "stream_inv tp G H cfg q"
proof -
  have inv: "flow_inv tp G p" "group_inv H errStreamStopRequested p" "size_inv cfg p" "fresh_inv p"
    using assms(1) by (simp_all add: stream_inv_def)
  obtain w h err where size: "getTerminalSize cfg (ticks p) = (w, h, err)"
    by (metis prod_cases3)
  then have dims: "dims cfg (ticks p) = (w, h)"
    by (simp add: dims_def)
  have run: "tAux p = Running"
    using assms(3) by (simp add: sizeTick_def split: if_splits)
  then have started: "tOut p \<noteq> NotStarted" "tIn p \<noteq> NotStarted"
    using inv(2) by (auto simp: group_inv_def)
  show ?thesis
  proof (cases "(w, h) = (lastWidth p, lastHeight p)")
    case True
    with assms(3) run size have q: "q = p\<lparr>ticks := Suc (ticks p)\<rparr>"
      by (simp add: sizeTick_def)
    have "flow_inv tp G q" "fresh_inv q" "same_group p q"
      using inv by (simp_all add: q flow_inv_def fresh_inv_def same_group_def)
    moreover have "size_inv cfg q"
      using inv(3) dims True by (simp add: q size_inv_def changes_snoc)
    ultimately show ?thesis
      using group_inv_same [OF inv(2)] by (simp add: stream_inv_def)
  next
    case False
    obtain m where m: "NewSizeMessage now uid w h = Inr m" "PayloadType m = Size" "Payload m = sizePayload w h"
      using NewSizeMessage_simps by blast
    from assms(3) run size False m(1) obtain werr s where
      wr: "handlerWrite G b (ctxErr (hcause H p)) m (ssn p) = Some (werr, s)"
      and q: "q = p\<lparr>ticks := Suc (ticks p), ssn := s, sizeFailed := (sizeFailed p \<or> werr \<noteq> None),
        lastWidth := w, lastHeight := h\<rparr>"
      by (auto simp: sizeTick_def SetTerminalSize_def split: option.splits)
    have "sess_reachable tp G (ssn p)"
      using inv(1) by (simp add: flow_inv_def)
    note W = handlerWrite_reachable [OF this assms(2) wr]
    have given: "stream_messages (givenMessages s) = stream_messages (givenMessages (ssn p))"
      using W(4) m(2) by (simp add: go_consts)
    have "flow_inv tp G q"
      using inv(1) W given started by (simp add: q flow_inv_def)
    moreover have "fresh_inv q" "same_group p q"
      using inv(4) started by (simp_all add: q fresh_inv_def same_group_def)
    moreover have "size_inv cfg q"
      using inv(3) dims False W(4) m by (auto simp: q size_inv_def changes_snoc)
    ultimately show ?thesis
      using group_inv_same [OF inv(2)] by (simp add: stream_inv_def)
  qed
qed

lemma stream_inv_step:
  assumes "errgroup_laws H" and "stream_inv tp G H cfg p" and "stream_step tp G H cfg e p = Some q"
  shows "stream_inv tp G H cfg q"
proof -
  have alive: "alive (ssn p)" and act: "stream_action tp G H cfg e p = Some q"
    using assms(3) by (simp_all add: stream_step_def alive_def split: if_splits)
  have inv: "flow_inv tp G p" "group_inv H errStreamStopRequested p" "size_inv cfg p" "fresh_inv p"
    using assms(2) by (simp_all add: stream_inv_def)
  show ?thesis
  proof (cases e)
    case StStart
    with act have q: "tOut p = NotStarted" "q = startPumps p"
      by (simp_all add: streamStart_def split: if_splits)
    with inv have "size_inv cfg q" "fresh_inv q"
      by (simp_all add: size_inv_def fresh_inv_def startPumps_def givenMessages_def)
    with q inv show ?thesis
      by (simp add: stream_inv_def flow_startPumps group_startPumps)
  next
    case StStarted
    with act have "sessionStep tp G (EvHandlerStart None) p = Some q"
      by (simp add: streamStarted_def split: if_splits)
    with assms(2) show ?thesis
      by (rule stream_inv_session) simp
  next
    case (StWaited b)
    with act obtain res where "sessionStep tp G (EvHandlerWait res) p = Some q"
      by (auto simp: streamWaited_def split: option.splits)
    with assms(2) show ?thesis
      by (rule stream_inv_session) simp
  next
    case (StPump pe)
    with act assms(1,2) alive show ?thesis
      by (auto intro: stream_inv_pump)
  next
    case (StTick b now uid)
    with act assms(2) alive show ?thesis
      by (auto intro: stream_inv_tick)
  next
    case StCleanup
    with act have q: "tCleanup p = Running" "q = hReturn H None (handlerStop (p\<lparr>tCleanup := Finished\<rparr>))"
      by (simp_all add: streamCleanup_def split: if_splits)
    have "group_inv H errStreamStopRequested q"
      by (rule group_inv_nil [OF assms(1) inv(2), where err = None]) (simp_all add: q hReturn_def handlerStop_def)
    moreover have "flow_inv tp G q" "size_inv cfg q" "fresh_inv q"
      using inv by (simp_all add: q hReturn_def handlerStop_def flow_inv_def size_inv_def fresh_inv_def)
    ultimately show ?thesis
      by (simp add: stream_inv_def)
  next
    case StSizeReturn
    with act have q: "tAux p = Running" "q = hReturn H None (p\<lparr>tAux := Finished\<rparr>)"
      by (simp_all add: sizeReturn_def split: if_splits)
    have "group_inv H errStreamStopRequested q"
      by (rule group_inv_nil [OF assms(1) inv(2), where err = None])
        (use inv(2) in \<open>simp_all add: q hReturn_def group_inv_def\<close>)
    moreover have "flow_inv tp G q" "size_inv cfg q" "fresh_inv q"
      using inv by (simp_all add: q hReturn_def flow_inv_def size_inv_def fresh_inv_def)
    ultimately show ?thesis
      by (simp add: stream_inv_def)
  qed
qed

lemma stream_inv_init: "errgroup_laws H \<Longrightarrow> stream_inv tp G H cfg (stream_init G H)"
  using errgroup_lawsD [of H]
  by (simp add: stream_inv_def stream_init_def pumps_init_def pumps.defs flow_inv_def group_inv_def size_inv_def
      fresh_inv_def out_inv_init in_inv_init reach_init session_start_def session_init_def givenMessages_def)

interpretation strm: inductive_invariant "stream_start G H" "stream_trans tp G H cfg"
  "\<lambda>p. errgroup_laws H \<longrightarrow> stream_inv tp G H cfg p" for tp G H cfg
proof unfold_locales
  fix p q
  show "stream_start G H p \<Longrightarrow> errgroup_laws H \<longrightarrow> stream_inv tp G H cfg p"
    by (simp add: stream_start_def stream_inv_init)
  assume "errgroup_laws H \<longrightarrow> stream_inv tp G H cfg p" and "stream_trans tp G H cfg p q"
  then show "errgroup_laws H \<longrightarrow> stream_inv tp G H cfg q"
    by (auto elim!: stream_transE intro: stream_inv_step)
qed

lemma reachable_stream_inv:
  assumes "stream_reachable tp G H cfg p" and "errgroup_laws H"
  shows "flow_inv tp G p" "group_inv H errStreamStopRequested p" "size_inv cfg p" "fresh_inv p"
  using strm.reachable_inv [OF assms(1)] assms(2) by (simp_all add: stream_inv_def)

text \<open>What the loops have read and sent is what the session gave and took.\<close>

lemma stream_got:
  assumes "stream_reachable tp G H cfg p" and "errgroup_laws H"
  shows "hRead (ssn p) = oGot (outc p)" "stream_messages (givenMessages (ssn p)) = iSent (inc p)"
  using reachable_stream_inv(1,4) [OF assms]
  by (simp_all add: flow_inv_def fresh_inv_def givenMessages_def init_histories split: if_splits)

section \<open>A cancelled stream ends\<close>

definition stream_exits :: "stream_event set" where
  "stream_exits = {StCleanup, StSizeReturn} \<union> StPump ` exit_events"

lemma stream_run_append:
  "stream_run tp G H cfg es p = Some q \<Longrightarrow> stream_run tp G H cfg es' q = Some r \<Longrightarrow>
     stream_run tp G H cfg (es @ es') p = Some r"
  by (induction es arbitrary: p) (auto split: option.splits)

lemma stream_run_pumps:
  "pump_run tp G H errStreamStopRequested es p = Some q \<Longrightarrow> alive (ssn p) \<Longrightarrow> set es \<subseteq> exit_events \<Longrightarrow>
     stream_run tp G H cfg (map StPump es) p = Some q"
proof (induction es arbitrary: p)
  case (Cons e es)
  then obtain r where r: "pump_step tp G H errStreamStopRequested e p = Some r"
    "pump_run tp G H errStreamStopRequested es r = Some q"
    by (auto split: option.splits)
  with Cons.prems have "alive (ssn r)"
    by (auto intro: exit_alive)
  with Cons r show ?case
    by (simp add: stream_step_def alive_def)
qed simp

lemma stream_ends_cancelled:
  assumes "errgroup_laws H" and "group_inv H errStreamStopRequested p" and "cancelled H p"
  shows "\<exists>es q. stream_run tp G H cfg es p = Some q \<and> length es \<le> 7 \<and> set es \<subseteq> stream_exits
    \<and> hcause H q \<noteq> None \<and> pumpsReturned q"
proof -
  note laws = errgroup_lawsD [OF assms(1)]
  have "\<exists>es p1. stream_run tp G H cfg es p = Some p1 \<and> length es \<le> 1 \<and> set es \<subseteq> stream_exits
    \<and> cancelled H p1 \<and> hstopped p1 \<and> tCleanup p1 \<noteq> Running"
  proof (cases "tCleanup p = Running")
    case True
    with assms(3) show ?thesis
      by (intro exI [of _ "[StCleanup]"])
        (auto simp: stream_exits_def stream_step_def streamCleanup_def cancelled_def alive_def hReturn_def
          handlerStop_def laws)
  next
    case False
    with assms(2,3) have "hstopped p"
      by (cases "tCleanup p") (auto simp: group_inv_def cancelled_def)
    with False assms(3) show ?thesis
      by (intro exI [of _ "[]"]) simp
  qed
  then obtain es1 p1 where 1: "stream_run tp G H cfg es1 p = Some p1" "length es1 \<le> 1" "set es1 \<subseteq> stream_exits"
    "cancelled H p1" "hstopped p1" "tCleanup p1 \<noteq> Running"
    by blast
  from pumps_end [OF assms(1) 1(4,5)] obtain es2 p2 where
    2: "pump_run tp G H errStreamStopRequested es2 p1 = Some p2" "length es2 \<le> 5" "set es2 \<subseteq> exit_events"
      "tListener p2 \<noteq> Running" "tOut p2 \<noteq> Running" "tIn p2 \<noteq> Running" "same_rest p1 p2" "cancelled H p2"
    by blast
  have run2: "stream_run tp G H cfg (map StPump es2) p1 = Some p2"
    using 1(4) by (intro stream_run_pumps [OF 2(1) _ 2(3)]) (simp add: cancelled_def)
  have "\<exists>es p3. stream_run tp G H cfg es p2 = Some p3 \<and> length es \<le> 1 \<and> set es \<subseteq> stream_exits
    \<and> hcause H p3 \<noteq> None \<and> pumpsReturned p3"
  proof (cases "tAux p2 = Running")
    case True
    with 1(6) 2 show ?thesis
      by (intro exI [of _ "[StSizeReturn]"])
        (auto simp: stream_exits_def stream_step_def sizeReturn_def cancelled_def alive_def hReturn_def laws
          pumpsReturned_def same_rest_def)
  next
    case False
    with 1(6) 2 show ?thesis
      by (intro exI [of _ "[]"]) (simp add: pumpsReturned_def same_rest_def cancelled_def)
  qed
  then obtain es3 p3 where 3: "stream_run tp G H cfg es3 p2 = Some p3" "length es3 \<le> 1" "set es3 \<subseteq> stream_exits"
    "hcause H p3 \<noteq> None" "pumpsReturned p3"
    by blast
  have "set (map StPump es2) \<subseteq> stream_exits"
    using 2(3) by (auto simp: stream_exits_def)
  with stream_run_append [OF 1(1) stream_run_append [OF run2 3(1)]] 1(2,3) 2(2) 3(2-5) show ?thesis
    by (intro exI [of _ "es1 @ map StPump es2 @ es3"] exI [of _ p3]) simp
qed

end
