(* ===== verification/Stream_Spec.thy ===== *)
theory Stream_Spec
  imports Stream Handshake_Spec
begin

text \<open>
  What a stream handler on a session promises: the remote's output reaches the writer in order,
  what the reader gave is sent in order, the terminal size is reported, the handler ends when
  it is stopped whatever the user's reader and writer do, and what \<^verbatim>\<open>Wait\<close> then returns.
\<close>

section \<open>Sample runs\<close>

text \<open>A session with a stream handler, both started.\<close>

definition stream_up :: "stream_event list" where
  "stream_up = [StPump (PuSession (EvDial None)), StPump (PuSession (EvOpen None None)), StStart, StStarted]"

definition up_stream :: "'g errgroup \<Rightarrow> 'h errgroup \<Rightarrow> ('g, 'h) stream" where
  "up_stream G H = (stream_init G H)\<lparr>ssn := up_state G, tCleanup := Running, tListener := Running,
     tOut := Running, tIn := Running, tAux := Running\<rparr>"

lemma stream_up_run: "stream_run tp G H cfg stream_up (stream_init G H) = Some (up_stream G H)"
  by (simp add: stream_up_def stream_step_def stream_init_def pumps_init_def pumps.defs sessionStep_def
      session_step_def session_init_def reader_init_def startDial_def startable_def startOpen_def openDataChannel_def
      streamStart_def startPumps_def streamStarted_def startHandler_def up_stream_def up_state_def
      givenMessages_def Let_def)

definition default_config :: stream_config where
  "default_config = \<lparr>termSize = None, writerFd = None\<rparr>"

text \<open>The remote sends \<^verbatim>\<open>hi\<close>, which is written; the user's reader gives two bytes and the end of input.\<close>

definition stream_traffic :: "stream_event list" where
  "stream_traffic =
     map (StPump \<circ> PuSession \<circ> EvReader)
       [CtxErr None, SocketRead (Inr (agent_frame 0 Output ''hi'')), AckQueued 0 [], Accepted]
     @ [StPump (PuRead OnChannel), StPump (PuOut OHand), StPump (PuOut (OWritten None)),
        StPump (PuIn IHand), StPump (PuIn (IReadDone [108, 115] (Some io_EOF))), StPump (PuIn IReported),
        StPump (PuIn IResult), StPump (PuWrite OnChannel 0 (replicate 16 0)),
        StPump (PuSession (EvWriter (WMessage 0 0 0 quiet))), StPump PuInReturn]"

abbreviation eof_error :: go_error where
  "eof_error \<equiv> wrap2 ErrReadData io_EOF"

lemma hi_read:
  "handleRead tp r (Inr (agent_frame 0 Output ''hi'')) = handleMessage r (agent_received 0 Output ''hi'')"
  "UnmarshalBinary zeroMessage (agent_frame 0 Output ''hi'') = (Returns None, agent_received 0 Output ''hi'')"
  by (simp_all add: handleRead_agent_frame Unmarshal_agent_frame)

lemma stream_traffic_run:
  "\<exists>p. stream_run sample_tp first_error_group first_error_group cfg stream_traffic
      (up_stream first_error_group first_error_group) = Some p
    \<and> hRead (ssn p) = [agent_received 0 Output ''hi''] \<and> oWrites (outc p) = [(bytes_of ''hi'', None)]
    \<and> iData (inc p) = [[108, 115]] \<and> ipc (inc p) = IReturned eof_error \<and> hgrp p = Some eof_error
    \<and> hWritten (ssn p) = [0] \<and> hDequeued (ssn p) = [0]
    \<and> hHeap (ssn p) 0 = NewStreamMessage 0 (replicate 16 0) [108, 115]
    \<and> Session.hIn (ssn p) = [agent_received 0 Output ''hi''] \<and> rpc (rd (ssn p)) \<noteq> RPanicked
    \<and> Session.handlerWait (ssn p) = Running \<and> startPc (ssn p) = StReturned None"
  by (simp add: stream_traffic_def stream_step_def up_stream_def stream_init_def pumps_init_def pumps.defs
      sessionStep_def session_step_def up_state_def session_init_def reader_init_def writer_init_def
      readerStep_def ctxErr_def first_error_group_def hi_read handleMessage_data afterAck_def drainHead_def
      delivered_one_def chan_send_def chan_recv_def queueSize_def Let_def outRead_def Read_def out_init_def
      out_got_def outStep_def inStep_def in_init_def copyBufferSize_def chan_make_def inWrite_def
      handlerWrite_def Write_def newMessage_def in_readerErr_def in_return_def writerStep_def writer_step_def
      writer_enabled_def maxInflightMessages_def onMessage_eq inReturn_def hReturn_def)

lemma traffic_state:
  obtains p where "stream_reachable sample_tp first_error_group first_error_group cfg p"
    and "hRead (ssn p) = [agent_received 0 Output ''hi'']" and "oWrites (outc p) = [(bytes_of ''hi'', None)]"
    and "iData (inc p) = [[108, 115]]" and "ipc (inc p) = IReturned eof_error" and "hgrp p = Some eof_error"
    and "hWritten (ssn p) = [0]" and "hDequeued (ssn p) = [0]"
    and "hHeap (ssn p) 0 = NewStreamMessage 0 (replicate 16 0) [108, 115]"
    and "Session.hIn (ssn p) = [agent_received 0 Output ''hi'']" and "alive (ssn p)"
    and "Session.handlerWait (ssn p) = Running" and "startPc (ssn p) = StReturned None"
  using stream_traffic_run stream_run_init [OF stream_run_append [OF stream_up_run]]
  unfolding alive_def by blast

section \<open>Properties\<close>

text \<open>C1: What the remote prints reaches the user's writer in order, without loss or repetition, from
  the socket through the whole session and handler. If the remote sends message \<open>f i\<close> under
  sequence number \<open>i\<close>, in any order, with gaps and repetitions, then in every reachable state
  of session and handler the calls of \<^verbatim>\<open>Write\<close> on the writer had, in order, the payloads of the
  output messages among \<open>f 0, f 1, ...\<close>, up to the number of messages read, except at most the
  last payload.\<close>

theorem stream_output_end_to_end:
  assumes "stream_reachable tp G H cfg p" and "errgroup_laws H"
    and "length (hRead (ssn p) @ chan_buf (incomingDataMessages (ssn p))) < 2 ^ 63"
    and "\<forall>m \<in> stream_data (Session.hIn (ssn p)). m = f (nat (sint (SequenceNumber m)))"
  shows "\<exists>rest. output_payloads (map f [0..<length (hRead (ssn p))]) = map fst (oWrites (outc p)) @ rest
    \<and> length rest \<le> 1"
proof -
  have flow: "sess_reachable tp G (ssn p)" "out_inv (outc p)"
    using reachable_stream_inv(1) [OF assms(1,2)] by (simp_all add: flow_inv_def)
  have "hRead (ssn p) = map f [0..<length (hRead (ssn p))]"
    by (rule read_as_sent [OF flow(1) assms(3,4)])
  with stream_got(1) [OF assms(1,2)] out_inv_writes(1) [OF flow(2)] show ?thesis
    by simp
qed

theorem stream_output_end_to_end_witness:
  "\<exists>p. stream_reachable sample_tp first_error_group first_error_group default_config p
    \<and> output_payloads (map (\<lambda>i. agent_received (of_nat i) Output ''hi'') [0..<1]) = map fst (oWrites (outc p))"
proof -
  obtain p where p: "stream_reachable sample_tp first_error_group first_error_group default_config p"
    "hRead (ssn p) = [agent_received 0 Output ''hi'']" "oWrites (outc p) = [(bytes_of ''hi'', None)]"
    "Session.hIn (ssn p) = [agent_received 0 Output ''hi'']"
    by (rule traffic_state)
  have "sess_reachable sample_tp first_error_group (ssn p)"
    using reachable_stream_inv(1) [OF p(1) first_error_group_laws] by (simp add: flow_inv_def)
  from sess_chans.reachable_inv [OF this] have "length (chan_buf (incomingDataMessages (ssn p))) \<le> 20"
    by (simp add: chans_ok_def chan_ok_def queueSize_def)
  then have len: "length (hRead (ssn p) @ chan_buf (incomingDataMessages (ssn p))) < 2 ^ 63"
    using p(2) by simp
  have "\<forall>m \<in> stream_data (Session.hIn (ssn p)).
      m = (\<lambda>i. agent_received (of_nat i) Output ''hi'') (nat (sint (SequenceNumber m)))"
    using p(4) by (auto simp: stream_data_def)
  from stream_output_end_to_end [OF p(1) first_error_group_laws len this] p(1-3) show ?thesis
    by (auto simp: output_payloads_def)
qed

text \<open>C2: What the user types reaches the socket in order, without loss or repetition. In every
  reachable state of session and handler, the first transmissions on the socket are the
  encodings of the messages taken from those the session accepted, under the numbers 0, 1, 2,
  ...; retransmissions repeat them byte for byte; and the payloads of the stream messages among
  the accepted ones are the non-empty results of the user's reader, each as one message and in
  order, all but at most the last one. None is missing whenever the copy loop is at its head, nor
  when it has ended with an error of the reader, the end of the input included.
  (That no message is written twice, which the session needs for this, is proved here.)\<close>

theorem stream_input_end_to_end:
  assumes "stream_reachable tp G H cfg p" and "errgroup_laws H" and "length (hWritten (ssn p)) < 2 ^ 63"
  shows "hWritten (ssn p) = hDequeued (ssn p) @ chan_buf (outgoingMessages (ssn p))
    \<and> data_frames (hSent (ssn p)) = concat (map (\<lambda>i. map (Pair (of_nat i))
          (frames (numbered (of_nat i) (givenMessages (ssn p) ! i)))) [0..<length (hDequeued (ssn p))])
    \<and> set (resent_frames (hSent (ssn p))) \<subseteq> set (data_frames (hSent (ssn p)))
    \<and> (\<exists>rest. filter (\<lambda>d. d \<noteq> []) (iData (inc p))
          = map Payload (stream_messages (givenMessages (ssn p))) @ rest \<and> length rest \<le> 1
        \<and> (ipc (inc p) = ISend \<longrightarrow> rest = [])
        \<and> (\<forall>err. ipc (inc p) = IReturned (wrap2 ErrReadData err) \<longrightarrow> rest = []))"
proof -
  let ?s = "ssn p"
  have flow: "sess_reachable tp G ?s" "in_inv (inc p)" "distinct (hWritten ?s)"
    using reachable_stream_inv(1) [OF assms(1,2)] by (simp_all add: flow_inv_def)
  note S = session_write_frames [OF flow(1,3) assms(3)]
  have given: "givenMessages ?s ! i = hHeap ?s (hWritten ?s ! i)" if "i < length (hDequeued ?s)" for i
  proof -
    have "i < length (hWritten ?s)"
      using that S by auto
    then show ?thesis
      by (simp add: givenMessages_def)
  qed
  have maps: "map (\<lambda>i. map (Pair (of_nat i :: int64)) (frames (numbered (of_nat i) (givenMessages ?s ! i)))) [0..<length (hDequeued ?s)]
      = map (\<lambda>i. map (Pair (of_nat i)) (frames (numbered (of_nat i) (hHeap ?s (hWritten ?s ! i))))) [0..<length (hDequeued ?s)]"
    by (rule map_cong [OF refl]) (simp add: given)
  from S in_inv_data [OF flow(2)] show ?thesis
    unfolding stream_got(2) [OF assms(1,2)] maps by blast
qed

theorem stream_input_end_to_end_witness:
  "\<exists>p. stream_reachable sample_tp first_error_group first_error_group default_config p
    \<and> data_frames (hSent (ssn p))
      = map (Pair 0) (frames (numbered 0 (NewStreamMessage 0 (replicate 16 0) [108, 115])))"
proof -
  obtain p where p: "stream_reachable sample_tp first_error_group first_error_group default_config p"
    "hWritten (ssn p) = [0]" "hDequeued (ssn p) = [0]"
    "hHeap (ssn p) 0 = NewStreamMessage 0 (replicate 16 0) [108, 115]"
    by (rule traffic_state)
  have "length (hWritten (ssn p)) < 2 ^ 63"
    using p(2) by simp
  from stream_input_end_to_end [OF p(1) first_error_group_laws this] p show ?thesis
    by (auto simp: givenMessages_def)
qed

text \<open>C14: What \<^verbatim>\<open>Wait\<close> of the stream handler says is what happened. When it returns because the
  handler has ended, all five goroutines have returned and the handler is stopped. The result
  is nil exactly if \<^verbatim>\<open>Stop()\<close> came before any failure; any other result is the error with which
  one of the two copy loops ended, so it is an error of the session, the user's writer or the
  user's reader (the end of its input included), wrapped as such, or the context's.\<close>

theorem stream_wait_tells_why:
  assumes "stream_reachable tp G H cfg p" and "errgroup_laws H" and "streamWait H OnGroup ctx p = Some res"
  shows "pumpsReturned p \<and> hstopped p
    \<and> (res = None \<longleftrightarrow> hcause H p = Some errStreamStopRequested)
    \<and> (\<forall>e. res = Some e \<longrightarrow>
        opc (outc p) = OReturned e \<and> out_error e \<or> ipc (inc p) = IReturned e \<and> in_error e)"
  using handlerWait_ended [OF reachable_stream_inv(1,2) [OF assms(1,2)] assms(3) [unfolded streamWait_def]] by blast

text \<open>A stopped stream handler always ends, whatever the user's reader and writer do. In every
  reachable state in which it has been stopped or its group is cancelled (and the process has
  not panicked), at most eight steps of its own five goroutines lead to a state in which \<^verbatim>\<open>Wait\<close>
  returns. None of them is a return of the user's \<^verbatim>\<open>io.Reader\<close> or \<^verbatim>\<open>io.Writer\<close> or a step of the
  session, so a blocked read of the terminal does not keep the handler alive.\<close>

lemma stream_can_end:
  assumes "stream_reachable tp G H cfg p" and "errgroup_laws H" and "rpc (rd (ssn p)) \<noteq> RPanicked"
    and "tOut p \<noteq> NotStarted" and "hstopped p \<or> hcause H p \<noteq> None"
  shows "\<exists>es q. length es \<le> 8 \<and> set es \<subseteq> {StCleanup, StSizeReturn} \<union> StPump ` exit_events
    \<and> stream_run tp G H cfg es p = Some q \<and> (\<exists>res. streamWait H OnGroup ctx q = Some res)"
proof -
  have inv: "group_inv H errStreamStopRequested p"
    by (rule reachable_stream_inv [OF assms(1,2)])
  have alive: "alive (ssn p)"
    using assms(3) by (simp add: alive_def)
  from pumps_get_cancelled [OF assms(2) inv alive assms(4,5)] obtain es1 p1 where
    1: "pump_run tp G H errStreamStopRequested es1 p = Some p1" "length es1 \<le> 1" "set es1 \<subseteq> exit_events" "cancelled H p1"
    by blast
  note run1 = stream_run_pumps [OF 1(1) alive 1(3)]
  note reach1 = stream_run_reachable [OF assms(1) run1]
  from stream_ends_cancelled [OF assms(2) reachable_stream_inv(2) [OF reach1 assms(2)] 1(4)] obtain es2 q where
    2: "stream_run tp G H cfg es2 p1 = Some q" "length es2 \<le> 7" "set es2 \<subseteq> stream_exits"
      "hcause H q \<noteq> None" "pumpsReturned q"
    by blast
  have "\<exists>res. streamWait H OnGroup ctx q = Some res"
    using 2(4,5) by (simp add: streamWait_def handlerWait_def)
  moreover have "set (map StPump es1) \<subseteq> stream_exits"
    using 1(3) by (auto simp: stream_exits_def)
  ultimately show ?thesis
    using stream_run_append [OF run1 2(1)] 1(2) 2(2,3)
    unfolding stream_exits_def by (intro exI [of _ "map StPump es1 @ es2"] exI [of _ q]) simp
qed

text \<open>C32: The remote is told every change of the terminal size and nothing else. As long as no
  size message could not be written, the size messages the session accepted are, in order, one
  for each size that \<^verbatim>\<open>Size\<close> reported and that differs from the one reported before, the first
  being compared with 0x0. A handler without a \<^verbatim>\<open>TerminalSize\<close> whose writer has no descriptor
  reports 80x24.\<close>

theorem stream_size_messages:
  assumes "stream_reachable tp G H cfg p" and "errgroup_laws H" and "\<not> sizeFailed p"
  shows "size_payloads (givenMessages (ssn p))
      = map (\<lambda>(w, h). sizePayload w h) (changes (0, 0) (map (dims cfg) [0..<ticks p]))
    \<and> (lastWidth p, lastHeight p) = last ((0, 0) # map (dims cfg) [0..<ticks p])
    \<and> (termSize cfg = None \<and> writerFd cfg = None \<longrightarrow> dims cfg n = (80, 24))"
  using reachable_stream_inv(3) [OF assms(1,2)] assms(3)
  by (simp add: size_inv_def dims_def getTerminalSize_def DefaultTerminalSizeFunc_def
      DefaultTerminalWidth_def DefaultTerminalHeight_def)

text \<open>A terminal that answers once, and then fails as \<^verbatim>\<open>term.GetSize\<close> does.\<close>

definition failing_config :: stream_config where
  "failing_config = \<lparr>termSize = Some (\<lambda>n. if n = 0 then (80, 24, None) else (-1, -1, Some (ExternalErr 0))),
     writerFd = None\<rparr>"

definition size_events :: "stream_event list" where
  "size_events = [StTick OnChannel 0 (replicate 16 0), StTick OnChannel 0 (replicate 16 0)]"

lemma size_run:
  "\<exists>p. stream_run sample_tp first_error_group first_error_group failing_config size_events
      (up_stream first_error_group first_error_group) = Some p \<and> ticks p = 2 \<and> \<not> sizeFailed p"
  by (simp add: size_events_def stream_step_def up_stream_def stream_init_def pumps_init_def pumps.defs
      up_state_def session_init_def reader_init_def sizeTick_def getTerminalSize_def failing_config_def
      SetTerminalSize_def NewSizeMessage_def handlerWrite_def Write_def newMessage_def chan_send_def
      chan_make_def queueSize_def Let_def numeral_2_eq_2)

lemma size_state:
  obtains p where "stream_reachable sample_tp first_error_group first_error_group failing_config p"
    and "ticks p = 2" and "\<not> sizeFailed p"
  using size_run stream_run_init [OF stream_run_append [OF stream_up_run]] by blast

text \<open>A failure to read the terminal size reaches the remote as a size. The error of \<^verbatim>\<open>Size\<close> is
  logged, but the width and height that came with it are used: with a terminal that answers
  80x24 and then fails the way \<^verbatim>\<open>term.GetSize\<close> does, with -1 for both, the session sends a second
  size message with -1 columns and -1 rows.\<close>

theorem stream_sends_failed_size:
  "\<exists>p. stream_reachable sample_tp first_error_group first_error_group failing_config p
    \<and> getTerminalSize failing_config 1 = (-1, -1, Some (ExternalErr 0))
    \<and> size_payloads (givenMessages (ssn p)) = [sizePayload 80 24, sizePayload (-1) (-1)]"
proof -
  obtain p where p: "stream_reachable sample_tp first_error_group first_error_group failing_config p"
    "ticks p = 2" "\<not> sizeFailed p"
    by (rule size_state)
  have "size_payloads (givenMessages (ssn p)) = [sizePayload 80 24, sizePayload (-1) (-1)]"
    using reachable_stream_inv(3) [OF p(1) first_error_group_laws] p(2,3)
    by (simp add: size_inv_def dims_def getTerminalSize_def failing_config_def upt_rec)
  with p(1) show ?thesis
    by (auto simp: getTerminalSize_def failing_config_def)
qed

section \<open>Witnesses\<close>

theorem stream_size_messages_witness:
  "\<exists>p. stream_reachable sample_tp first_error_group first_error_group failing_config p
    \<and> size_payloads (givenMessages (ssn p)) = [sizePayload 80 24, sizePayload (-1) (-1)]"
proof -
  obtain p where p: "stream_reachable sample_tp first_error_group first_error_group failing_config p"
    "ticks p = 2" "\<not> sizeFailed p"
    by (rule size_state)
  from stream_size_messages [OF p(1) first_error_group_laws p(3)] p(1,2) show ?thesis
    by (auto simp: dims_def getTerminalSize_def failing_config_def upt_rec)
qed

theorem stream_wait_tells_why_witness:
  "\<exists>p res. stream_reachable sample_tp first_error_group first_error_group default_config p
    \<and> streamWait first_error_group OnGroup None p = Some res \<and> pumpsReturned p \<and> hstopped p"
proof -
  obtain p where p: "stream_reachable sample_tp first_error_group first_error_group default_config p"
    "hgrp p = Some eof_error" "alive (ssn p)"
    by (rule traffic_state)
  have cause: "cancelled first_error_group p"
    using p(2,3) by (simp add: first_error_group_def cancelled_def)
  from stream_ends_cancelled [OF first_error_group_laws reachable_stream_inv(2) [OF p(1) first_error_group_laws] this]
  obtain es q where q: "stream_run sample_tp first_error_group first_error_group default_config es p = Some q"
    "hcause first_error_group q \<noteq> None" "pumpsReturned q"
    by blast
  then have w: "\<exists>res. streamWait first_error_group OnGroup None q = Some res"
    by (simp add: streamWait_def handlerWait_def)
  note reach = stream_run_reachable [OF p(1) q(1)]
  with stream_wait_tells_why [OF reach first_error_group_laws] w show ?thesis
    by blast
qed

end
