(* ===== verification/Pumps_Links.thy ===== *)
theory Pumps_Links
  imports Handler_Pumps Session_Handler
begin

text \<open>
  How the two data handlers are tied to their session: the steps of a handler move the session by
  steps of its own, and its ways out leave the session's life cycle alone. What they need of each
  other is an invariant: a session that has stopped its handler finds it stopped, and
  waits only for a handler whose goroutines were started.
\<close>

section \<open>The session under a handler\<close>

lemma Read_own:
  assumes "Read G b ctx s = Some (r, t)" and "alive s"
  shows "session_own tp G s t" "same_life s t" "rd t = rd s"
proof -
  have "session_step tp G (EvRead b ctx) s = Some t"
    using assms by (simp add: session_step_def alive_def)
  then show "session_own tp G s t"
    by (rule session_ownI) simp
  show "same_life s t" "rd t = rd s"
    using assms(1) by (auto simp: Read_def same_life_def split: select_case.splits)
qed

lemma handlerWrite_own:
  assumes "handlerWrite G b ctx m s = Some (err, t)" and "alive s"
  shows "(session_own tp G)\<^sup>*\<^sup>* s t" "same_life s t" "rd t = rd s"
proof -
  note w = assms(1) [unfolded handlerWrite_def]
  have "session_step tp G (EvNew m) s = Some (newMessage m s)"
    "session_step tp G (EvWrite b ctx (allocated s)) (newMessage m s) = Some t"
    using assms(2) w by (simp_all add: session_step_def alive_def newMessage_def)
  then have "session_own tp G s (newMessage m s)" "session_own tp G (newMessage m s) t"
    by (auto intro: session_ownI)
  then show "(session_own tp G)\<^sup>*\<^sup>* s t"
    by (meson converse_rtranclp_into_rtranclp r_into_rtranclp)
  show "same_life s t" "rd t = rd s"
    using w by (auto simp: Write_def newMessage_def same_life_def split: select_case.splits)
qed

lemma sessionStepE:
  assumes "sessionStep tp G e p = Some q"
  obtains s where "session_step tp G e (ssn p) = Some s" "ssn q = s" "hstopped q = (hstopped p \<or> handlerStopped s)"
    "tOut q = tOut p" "pumps.more q = pumps.more p" "hgrp q = hgrp p" "pumpsReturned q = pumpsReturned p"
proof -
  from assms obtain s where "session_step tp G e (ssn p) = Some s"
    "q = (if handlerStopped s then handlerStop (p\<lparr>ssn := s\<rparr>) else p\<lparr>ssn := s\<rparr>)"
    by (auto simp: sessionStep_def Let_def)
  then show thesis
    by (intro that [of s]) (simp_all add: handlerStop_def pumpsReturned_def)
qed

lemma sessionStep_lift:
  "session_step tp G e (ssn p) = Some s \<Longrightarrow> \<exists>q. sessionStep tp G e p = Some q \<and> ssn q = s"
  by (simp add: sessionStep_def handlerStop_def Let_def)

lemma own_spares_wait:
  "(session_own tp G)\<^sup>*\<^sup>* s t \<Longrightarrow> Session.handlerWait t = Session.handlerWait s \<and> failError t = failError s
     \<and> (failThread s = NotStarted \<longrightarrow> failThread t = NotStarted)"
proof (induction rule: rtranclp_induct)
  case (step t u)
  then obtain e where "session_step tp G e t = Some u" "\<not> handler_returns e"
    by (auto elim: session_ownE)
  with session_step_latches(3-5) [OF this(1)] step show ?case
    by (metis handler_returns.simps(1,2))
qed simp

text \<open>A step of the copy loops or of the listener.\<close>

lemma pump_step_own:
  assumes "pump_step tp G H stopErr e p = Some q" and "alive (ssn p)"
  shows "(session_own tp G)\<^sup>*\<^sup>* (ssn p) (ssn q)"
proof (cases e)
  case (PuSession se)
  with assms(1) have step: "sessionStep tp G se p = Some q" "\<not> handler_returns se"
    by (cases se; simp)+
  obtain s where "session_step tp G se (ssn p) = Some s" "ssn q = s"
    by (rule sessionStepE [OF step(1)])
  with step(2) have "session_own tp G (ssn p) (ssn q)"
    by (auto intro: session_ownI)
  then show ?thesis
    by (rule r_into_rtranclp)
next
  case (PuRead b)
  with assms(1) obtain r s where "Read G b (ctxErr (hcause H p)) (ssn p) = Some (r, s)" "ssn q = s"
    by (auto simp: outRead_def split: if_splits option.splits)
  with Read_own(1) [OF _ assms(2)] show ?thesis
    by blast
next
  case (PuWrite b now uid)
  with assms(1) obtain data err s where "ssn q = s"
    "handlerWrite G b (ctxErr (hcause H p)) (NewStreamMessage now uid data) (ssn p) = Some (err, s)"
    by (auto simp: inWrite_def split: in_pc.splits if_splits option.splits)
  with handlerWrite_own(1) [OF _ assms(2)] show ?thesis
    by blast
qed (use assms in \<open>auto simp: pump_defs split: if_splits option.splits out_pc.splits in_pc.splits\<close>)

lemma exit_keeps_life:
  assumes "pump_step tp G H stopErr e p = Some q" and "e \<in> exit_events" and "alive (ssn p)"
  shows "same_life (ssn p) (ssn q) \<and> rd (ssn q) = rd (ssn p)"
proof -
  have refl: "same_life s s" for s :: "'a session"
    by (simp add: same_life_def)
  from assms(2) show ?thesis
    unfolding exit_events_def
    using assms(1,3) refl Read_own(2,3) handlerWrite_own(2,3)
    by (auto simp: pump_defs split: if_splits option.splits out_pc.splits in_pc.splits)
qed

section \<open>The links\<close>

definition link_inv :: "('g, 'h, 'x) pumps_scheme \<Rightarrow> bool" where
  "link_inv p \<longleftrightarrow> (handlerStopped (ssn p) \<longrightarrow> hstopped p)
     \<and> (Session.handlerWait (ssn p) \<noteq> NotStarted \<longrightarrow> tOut p \<noteq> NotStarted)"

lemma link_frame:
  "link_inv p \<Longrightarrow> handlerStopped (ssn q) = handlerStopped (ssn p) \<Longrightarrow> Session.handlerWait (ssn q) = Session.handlerWait (ssn p) \<Longrightarrow>
     (hstopped p \<Longrightarrow> hstopped q) \<Longrightarrow> (tOut p \<noteq> NotStarted \<Longrightarrow> tOut q \<noteq> NotStarted) \<Longrightarrow> link_inv q"
  by (auto simp: link_inv_def)

lemma link_sessionStep:
  assumes "link_inv p" and "sessionStep tp G e p = Some q" and "e = EvHandlerStart None \<Longrightarrow> tOut p \<noteq> NotStarted"
  shows "link_inv q"
proof -
  obtain s where s: "session_step tp G e (ssn p) = Some s" "ssn q = s" "hstopped q = (hstopped p \<or> handlerStopped s)"
    "tOut q = tOut p"
    by (rule sessionStepE [OF assms(2)])
  from session_step_latches(5) [OF s(1)] have "Session.handlerWait s \<noteq> NotStarted \<longrightarrow> tOut p \<noteq> NotStarted"
  proof (elim disjE)
    assume "\<exists>res. e = EvHandlerWait res \<and> Session.handlerWait s = Finished"
    then have "Session.handlerWait (ssn p) = Running"
      using session_step_action [OF s(1)] by (auto simp: handlerWaitStep_def split: if_splits)
    with assms(1) show ?thesis
      by (simp add: link_inv_def)
  qed (use assms(1,3) in \<open>auto simp: link_inv_def\<close>)
  with s show ?thesis
    by (simp add: link_inv_def)
qed

lemma link_step:
  assumes "link_inv p" and "pump_step tp G H stopErr e p = Some q" and "alive (ssn p)"
  shows "link_inv q"
proof (cases "\<exists>se. e = PuSession se")
  case True
  with assms(2) obtain se where "sessionStep tp G se p = Some q" "\<not> handler_event se"
    by (auto split: if_splits)
  then show ?thesis
    by (intro link_sessionStep [OF assms(1)]) auto
next
  case False
  then have "hstopped p \<longrightarrow> hstopped q" "tOut p \<noteq> NotStarted \<longrightarrow> tOut q \<noteq> NotStarted"
    "handlerStopped (ssn q) = handlerStopped (ssn p) \<and> Session.handlerWait (ssn q) = Session.handlerWait (ssn p)"
    using assms(2,3) pump_step_frame(4) [OF assms(2)]
    by (cases e; auto simp: pump_defs Read_def handlerWrite_def Write_def newMessage_def
        split: if_splits option.splits out_pc.splits in_pc.splits select_case.splits)+
  then show ?thesis
    by (intro link_frame [OF assms(1)]) auto
qed

text \<open>The first error of the handler's group stays.\<close>

lemma hcause_step:
  assumes "errgroup_laws H" and "pump_step tp G H stopErr e p = Some q" and "hcause H p = Some x"
  shows "hcause H q = Some x"
proof -
  note laws = errgroup_lawsD [OF assms(1)]
  show ?thesis
    using assms(2,3) by (cases e)
      (auto simp: pump_defs laws Let_def split: if_splits option.splits out_pc.splits in_pc.splits)
qed

section \<open>The handshake of a handler\<close>

text \<open>While \<^verbatim>\<open>Start\<close> runs, a handler that shakes hands moves the session by its own steps only.\<close>

lemma runBackground_own:
  assumes "runBackground tp G sched s = Some t" and "\<forall>e \<in> set (sched s). \<not> handler_returns e"
  shows "(session_own tp G)\<^sup>*\<^sup>* s t"
proof -
  have "(session_own tp G)\<^sup>*\<^sup>* s t" if "session_run tp G es s = Some t" "\<forall>e \<in> set es. \<not> handler_returns e" for es
    using that
  proof (induction es arbitrary: s)
    case (Cons e es)
    then obtain u where u: "session_step tp G e s = Some u" "session_run tp G es u = Some t"
      by (auto split: option.splits)
    with Cons have "session_own tp G s u" "(session_own tp G)\<^sup>*\<^sup>* u t"
      by (auto intro: session_ownI)
    then show ?case
      by (rule converse_rtranclp_into_rtranclp)
  qed simp
  with assms show ?thesis
    by (auto simp: runBackground_def split: option.splits if_splits)
qed

end
