(* ===== verification/Stream_Session.thy ===== *)
theory Stream_Session
  imports Stream_Spec Pumps_Links
begin

text \<open>
  A session with a stream handler, as a whole: it ends when it is stopped or when anything in it
  fails, and what \<^verbatim>\<open>Session.Wait\<close> then returns. The stream handler is shown to keep the contract of
  a handler (\<^theory_text>\<open>Session_Handler\<close>).
\<close>

section \<open>The links\<close>

lemma stream_run_steps: "run_steps (stream_step tp G H cfg) es p = stream_run tp G H cfg es p"
  by (induction es arbitrary: p) (auto split: option.splits)

lemma stream_trans_eq: "stream_trans tp G H cfg = (\<lambda>p q. \<exists>e. stream_step tp G H cfg e p = Some q)"
  by (intro ext) (simp add: stream_trans.simps)

lemma stream_step_action:
  "stream_step tp G H cfg e p = Some q \<Longrightarrow> alive (ssn p) \<and> stream_action tp G H cfg e p = Some q"
  by (simp add: stream_step_def alive_def split: if_splits)

lemma sizeTick_writes:
  assumes "sizeTick G H cfg b now uid p = Some q"
  shows "ssn q = ssn p \<or> (\<exists>m err. handlerWrite G b (ctxErr (hcause H p)) m (ssn p) = Some (err, ssn q))"
    "hstopped q = hstopped p" "tOut q = tOut p" "hgrp q = hgrp p"
proof -
  have "(ssn q = ssn p \<or> (\<exists>m err. handlerWrite G b (ctxErr (hcause H p)) m (ssn p) = Some (err, ssn q)))
      \<and> hstopped q = hstopped p \<and> tOut q = tOut p \<and> hgrp q = hgrp p"
    using assms unfolding sizeTick_def Let_def SetTerminalSize_def NewSizeMessage_def
    by (cases "getTerminalSize cfg (ticks p)") (auto split: if_splits option.splits)
  then show "ssn q = ssn p \<or> (\<exists>m err. handlerWrite G b (ctxErr (hcause H p)) m (ssn p) = Some (err, ssn q))"
    "hstopped q = hstopped p" "tOut q = tOut p" "hgrp q = hgrp p"
    by simp_all
qed

text \<open>Every step moves the session by its own steps, or is a return of the handler to it.\<close>

lemma stream_step_moves:
  assumes "stream_step tp G H cfg e p = Some q"
  obtains (own) "(session_own tp G)\<^sup>*\<^sup>* (ssn p) (ssn q)" "\<And>b. e \<noteq> StWaited b" "e \<noteq> StStarted"
  | (started) "e = StStarted" "sessionStep tp G (EvHandlerStart None) p = Some q" "tOut p \<noteq> NotStarted"
  | (waited) b res where "e = StWaited b" "streamWait H b None p = Some res"
      "sessionStep tp G (EvHandlerWait res) p = Some q"
proof -
  note act = stream_step_action [OF assms]
  show thesis
  proof (cases e)
    case StStarted
    with act started show ?thesis
      by (auto simp: streamStarted_def split: if_splits)
  next
    case (StWaited b)
    with act waited show ?thesis
      by (auto simp: streamWaited_def split: option.splits)
  next
    case (StPump pe)
    with act pump_step_own [of tp G H errStreamStopRequested pe p q] own show ?thesis
      by auto
  next
    case (StTick b now uid)
    with act have tick: "sizeTick G H cfg b now uid p = Some q" "alive (ssn p)"
      by simp_all
    from sizeTick_writes(1) [OF tick(1)] have "(session_own tp G)\<^sup>*\<^sup>* (ssn p) (ssn q)"
    proof (elim disjE exE)
      fix m err assume "handlerWrite G b (ctxErr (hcause H p)) m (ssn p) = Some (err, ssn q)"
      from handlerWrite_own(1) [OF this tick(2)] show ?thesis .
    qed simp
    with StTick own show ?thesis
      by auto
  qed (use act own in \<open>auto simp: streamStart_def startPumps_def streamCleanup_def handlerStop_def sizeReturn_def
      hReturn_def split: if_splits\<close>)
qed

definition stream_link :: "('g, 'h) stream \<Rightarrow> bool" where
  "stream_link p \<longleftrightarrow> link_inv p \<and> failThread (ssn p) = NotStarted"

lemma stream_link_step:
  assumes "stream_link p" and "stream_step tp G H cfg e p = Some q"
  shows "stream_link q"
proof -
  note act = stream_step_action [OF assms(2)]
  have link: "link_inv p" "failThread (ssn p) = NotStarted"
    using assms(1) by (simp_all add: stream_link_def)
  from assms(2) show ?thesis
  proof (cases rule: stream_step_moves)
    case own
    have "link_inv q"
    proof (cases e)
      case (StPump pe)
      with act link(1) show ?thesis
        by (auto intro: link_step)
    next
      case (StTick b now uid)
      with act have tick: "sizeTick G H cfg b now uid p = Some q" "alive (ssn p)"
        by simp_all
      from sizeTick_writes(1) [OF tick(1)] have "same_life (ssn p) (ssn q)"
      proof (elim disjE exE)
        fix m err assume "handlerWrite G b (ctxErr (hcause H p)) m (ssn p) = Some (err, ssn q)"
        from handlerWrite_own(2) [OF this tick(2)] show ?thesis .
      qed (simp add: same_life_def)
      with sizeTick_writes(2,3) [OF tick(1)] show ?thesis
        by (intro link_frame [OF link(1)]) (auto simp: same_life_def)
    qed (use act link(1) own in \<open>auto simp: streamStart_def startPumps_def streamCleanup_def handlerStop_def
        sizeReturn_def hReturn_def link_inv_def split: if_splits\<close>)
    with own_spares_wait [OF own(1)] link(2) show ?thesis
      by (simp add: stream_link_def)
  next
    case started
    obtain s where "session_step tp G (EvHandlerStart None) (ssn p) = Some s" "ssn q = s"
      by (rule sessionStepE [OF started(2)])
    with session_step_latches(3) link(2) have "failThread (ssn q) = NotStarted"
      by blast
    with link_sessionStep [OF link(1) started(2,3)] show ?thesis
      by (simp add: stream_link_def)
  next
    case (waited b res)
    obtain s where "session_step tp G (EvHandlerWait res) (ssn p) = Some s" "ssn q = s"
      by (rule sessionStepE [OF waited(3)])
    with session_step_latches(3) link(2) have "failThread (ssn q) = NotStarted"
      by blast
    with link_sessionStep [OF link(1) waited(3)] show ?thesis
      by (simp add: stream_link_def)
  qed
qed

interpretation slink: inductive_invariant "stream_start G H" "stream_trans tp G H cfg" stream_link for tp G H cfg
proof unfold_locales
  fix p q
  show "stream_start G H p \<Longrightarrow> stream_link p"
    by (simp add: stream_start_def stream_link_def link_inv_def stream_init_def pumps_init_def pumps.defs
        session_init_def)
  show "stream_link p \<Longrightarrow> stream_trans tp G H cfg p q \<Longrightarrow> stream_link q"
    by (auto elim: stream_transE intro: stream_link_step)
qed

section \<open>The contract of a handler\<close>

definition stream_failed :: "'h errgroup \<Rightarrow> go_error \<Rightarrow> ('g, 'h) stream \<Rightarrow> bool" where
  "stream_failed H x p \<longleftrightarrow> hcause H p = Some x \<and> x \<noteq> errStreamStopRequested"

abbreviation stream_valid ::
    "third_party \<Rightarrow> 'g errgroup \<Rightarrow> 'h errgroup \<Rightarrow> stream_config \<Rightarrow> ('g, 'h) stream \<Rightarrow> bool" where
  "stream_valid tp G H cfg p \<equiv> stream_reachable tp G H cfg p \<and> errgroup_laws G \<and> errgroup_laws H"

lemma stream_life:
  assumes "stream_valid tp G H cfg p"
  shows "life_inv G (ssn p)"
proof -
  have "flow_inv tp G p"
    using reachable_stream_inv(1) assms by blast
  with assms show ?thesis
    by (auto simp: flow_inv_def intro: reachable_life)
qed

lemma stream_exit_keeps:
  assumes "e \<in> stream_exits" and "stream_step tp G H cfg e p = Some q"
  shows "same_life (ssn p) (ssn q) \<and> rd (ssn q) = rd (ssn p)"
proof -
  note act = stream_step_action [OF assms(2)]
  show ?thesis
  proof (cases "\<exists>pe. e = StPump pe")
    case True
    with assms(1) act show ?thesis
      by (auto simp: stream_exits_def dest: exit_keeps_life)
  next
    case False
    with assms(1) act show ?thesis
      by (auto simp: stream_exits_def streamCleanup_def handlerStop_def sizeReturn_def hReturn_def same_life_def
          split: if_splits)
  qed
qed

lemma streamWait_result:
  assumes "streamWait H OnGroup None p = Some res" and "group_inv H errStreamStopRequested p"
  shows "(\<forall>x. res = Some x \<longrightarrow> stream_failed H x p) \<and> (\<forall>x. stream_failed H x p \<longrightarrow> res = Some x)"
  using assms by (auto simp: streamWait_def handlerWait_def waitResult_def stream_failed_def group_inv_def
      split: if_splits)

interpretation strsys: session_handler tp G "stream_step tp G H cfg" ssn "stream_valid tp G H cfg" "StPump \<circ> PuSession"
  stream_exits "StWaited OnGroup" "\<lambda>p. hstopped p \<or> hcause H p \<noteq> None" "streamWait H OnGroup None" 8
  for tp G H cfg
proof unfold_locales
  fix p q e se s res
  show "e \<in> stream_exits \<Longrightarrow> stream_step tp G H cfg e p = Some q \<Longrightarrow>
      same_life (ssn p) (ssn q) \<and> rd (ssn q) = rd (ssn p)"
    by (rule stream_exit_keeps)
  assume valid: "stream_valid tp G H cfg p"
  then have link: "stream_link p" and group: "group_inv H errStreamStopRequested p"
    using slink.reachable_inv reachable_stream_inv(2) by blast+
  show "life_inv G (ssn p)"
    by (rule stream_life [OF valid])
  show "stream_step tp G H cfg e p = Some q \<Longrightarrow> stream_valid tp G H cfg q"
    using valid by (auto intro: reach_step [of "stream_start G H"] stream_transI)
  show "\<exists>q. stream_step tp G H cfg ((StPump \<circ> PuSession) se) p = Some q \<and> ssn q = s"
    if "closing_event se" "session_step tp G se (ssn p) = Some s"
  proof -
    have "\<not> handler_event se" "rpc (rd (ssn p)) \<noteq> RPanicked"
      using that by (cases se; simp add: session_step_def split: if_splits)+
    with sessionStep_lift [OF that(2)] show ?thesis
      by (simp add: stream_step_def)
  qed
  show "handlerStopped (ssn p) \<Longrightarrow> hstopped p \<or> hcause H p \<noteq> None"
    using link by (simp add: stream_link_def link_inv_def)
  show "\<exists>es q. length es \<le> 8 \<and> set es \<subseteq> stream_exits \<and> run_steps (stream_step tp G H cfg) es p = Some q
      \<and> streamWait H OnGroup None q \<noteq> None"
    if "hstopped p \<or> hcause H p \<noteq> None" "Session.handlerWait (ssn p) \<noteq> NotStarted" "alive (ssn p)"
  proof -
    have "tOut p \<noteq> NotStarted" "rpc (rd (ssn p)) \<noteq> RPanicked"
      using that link by (simp_all add: stream_link_def link_inv_def alive_def)
    with stream_can_end [where ctx = None] valid that(1) show ?thesis
      unfolding stream_run_steps stream_exits_def by blast
  qed
  show "\<exists>q. stream_step tp G H cfg (StWaited OnGroup) p = Some q \<and> streamWait H OnGroup None q = Some res
      \<and> ssn q = goReturn G res ((ssn p)\<lparr>handlerWait := Finished\<rparr>)"
    if "streamWait H OnGroup None p = Some res" "Session.handlerWait (ssn p) = Running" "alive (ssn p)"
    using that by (auto simp: stream_step_def streamWaited_def sessionStep_def session_step_def alive_def
        handlerWaitStep_def handlerStop_def streamWait_def handlerWait_def pumpsReturned_def Let_def split: if_splits)
qed

lemma stream_failed_step:
  assumes "errgroup_laws H" and "stream_step tp G H cfg e p = Some q" and "stream_failed H x p"
  shows "stream_failed H x q"
proof -
  note act = stream_step_action [OF assms(2)] and laws = errgroup_lawsD [OF assms(1)]
  have c: "hcause H p = Some x"
    using assms(3) by (simp add: stream_failed_def)
  have "hcause H q = Some x"
  proof (cases e)
    case (StPump pe)
    with act c hcause_step [OF assms(1)] show ?thesis
      by auto
  next
    case StStarted
    with act have "sessionStep tp G (EvHandlerStart None) p = Some q"
      by (simp add: streamStarted_def split: if_splits)
    then show ?thesis
      by (rule sessionStepE) (use c in simp)
  next
    case (StWaited b)
    with act obtain res where "sessionStep tp G (EvHandlerWait res) p = Some q"
      by (auto simp: streamWaited_def split: option.splits)
    then show ?thesis
      by (rule sessionStepE) (use c in simp)
  next
    case (StTick b now uid)
    with act c sizeTick_writes(4) show ?thesis
      by fastforce
  qed (use act c in \<open>auto simp: streamStart_def startPumps_def streamCleanup_def handlerStop_def sizeReturn_def
      hReturn_def laws split: if_splits\<close>)
  with assms(3) show ?thesis
    by (simp add: stream_failed_def)
qed

interpretation strsys: session_outcome tp G "stream_step tp G H cfg" ssn "stream_valid tp G H cfg" "StPump \<circ> PuSession"
  stream_exits "StWaited OnGroup" "\<lambda>p. hstopped p \<or> hcause H p \<noteq> None" "streamWait H OnGroup None" 8
  "\<lambda>p. stream_start G H p \<and> errgroup_laws G \<and> errgroup_laws H" "stream_failed H"
  for tp G H cfg
proof unfold_locales
  fix p q e x res
  show "stream_start G H p \<and> errgroup_laws G \<and> errgroup_laws H \<Longrightarrow> stream_valid tp G H cfg p"
    by (simp add: reach_init)
  show "stream_start G H p \<and> errgroup_laws G \<and> errgroup_laws H \<Longrightarrow> cause G (ssn p) = None"
    by (simp add: stream_start_def stream_init_def pumps_init_def pumps.defs session_init_def errgroup_lawsD)
  show "stream_failed H x p \<Longrightarrow> hstopped p \<or> hcause H p \<noteq> None"
    by (simp add: stream_failed_def)
  assume valid: "stream_valid tp G H cfg p"
  then have group: "group_inv H errStreamStopRequested p"
    using reachable_stream_inv(2) by blast
  show "errgroup_laws G"
    using valid by blast
  show "stream_failed H x p \<Longrightarrow> streamWait H OnGroup None p = Some res \<Longrightarrow> res = Some x"
    using streamWait_result [OF _ group] by blast
  assume step: "stream_step tp G H cfg e p = Some q"
  show stays: "stream_failed H x p \<Longrightarrow> stream_failed H x q" for x
    using stream_failed_step [OF _ step] valid by blast
  from step show "(session_own tp G)\<^sup>*\<^sup>* (ssn p) (ssn q)
      \<or> (\<exists>res. session_step tp G (EvHandlerStart res) (ssn p) = Some (ssn q))
      \<or> (\<exists>res. session_step tp G (EvHandlerWait res) (ssn p) = Some (ssn q) \<and> (\<forall>x. res = Some x \<longrightarrow> stream_failed H x q))"
  proof (cases rule: stream_step_moves)
    case started
    then show ?thesis
      by (auto elim: sessionStepE)
  next
    case (waited b res)
    have "b = OnGroup"
      using waited(2) by (cases b) (simp_all add: streamWait_def handlerWait_def)
    with waited(2) streamWait_result [OF _ group] stays have "\<forall>x. res = Some x \<longrightarrow> stream_failed H x q"
      by blast
    moreover have "session_step tp G (EvHandlerWait res) (ssn p) = Some (ssn q)"
      using waited(3) by (auto elim: sessionStepE)
    ultimately show ?thesis
      by blast
  qed blast
qed

section \<open>Properties\<close>

text \<open>C5: A session with a stream handler ends, whatever the user's reader and writer and the remote do.
  In every reachable state in which \<^verbatim>\<open>Start\<close> has returned nil (and the process has not panicked),
  once \<^verbatim>\<open>Stop\<close> has taken effect, the session has been cancelled or the handler has failed (its
  reader has come to the end of the input, say) while the session waits for it, at most 33
  steps of the session's and the handler's goroutines lead to a state in which \<^verbatim>\<open>Wait\<close> of both
  returns. None of them is a return of the user's \<^verbatim>\<open>io.Reader\<close> or \<^verbatim>\<open>io.Writer\<close> or data from the socket.\<close>

theorem stream_session_ends:
  assumes "stream_reachable tp G H cfg p" and "errgroup_laws G" and "errgroup_laws H"
    and "startPc (ssn p) = StReturned None" and "rpc (rd (ssn p)) \<noteq> RPanicked"
    and "stopped (ssn p) \<or> cause G (ssn p) \<noteq> None
      \<or> Session.handlerWait (ssn p) = Running \<and> stream_failed H x p"
  shows "\<exists>es q res. length es \<le> 33
    \<and> set es \<subseteq> {StPump (PuSession e) | e. closing_event e} \<union> stream_exits \<union> {StWaited OnGroup}
    \<and> stream_run tp G H cfg es p = Some q
    \<and> streamWait H OnGroup None q \<noteq> None \<and> Wait G OnGroup ctx (ssn q) = Some res"
proof -
  have valid: "stream_valid tp G H cfg p"
    using assms(1-3) by blast
  have "Session.handlerWait (ssn p) \<noteq> NotStarted"
    using stream_life [OF valid] assms(4) by (simp add: life_inv_def start_inv_def)
  moreover have "strsys.going G H p"
    using assms(6) unfolding strsys.going_def by blast
  moreover have "alive (ssn p)"
    using assms(5) by (simp add: alive_def)
  ultimately obtain es q res where q: "length es \<le> 2 * 8 + 17"
    "set es \<subseteq> (StPump \<circ> PuSession) ` {e. closing_event e} \<union> stream_exits \<union> {StWaited OnGroup}"
    "run_steps (stream_step tp G H cfg) es p = Some q" "streamWait H OnGroup None q \<noteq> None"
    "Wait G OnGroup ctx (ssn q) = Some res"
    using strsys.going_ends [OF valid] by blast
  have lifted: "(StPump \<circ> PuSession) ` {e. closing_event e} = {StPump (PuSession e) | e. closing_event e}"
    by auto
  from q [unfolded lifted] show ?thesis
    unfolding stream_run_steps by (intro exI [of _ es] exI [of _ q] exI [of _ res]) simp
qed

text \<open>The sample run, in which the user's reader has come to its end, with some run to the end.\<close>

lemma sample_failed:
  obtains p where "stream_reachable sample_tp first_error_group first_error_group default_config p"
    and "startPc (ssn p) = StReturned None" and "rpc (rd (ssn p)) \<noteq> RPanicked"
    and "Session.handlerWait (ssn p) = Running" and "stream_failed first_error_group eof_error p"
proof -
  obtain p where p: "stream_reachable sample_tp first_error_group first_error_group default_config p"
    "hgrp p = Some eof_error" "alive (ssn p)" "Session.handlerWait (ssn p) = Running"
    "startPc (ssn p) = StReturned None"
    by (rule traffic_state)
  then show thesis
    by (intro that [of p]) (simp_all add: alive_def stream_failed_def first_error_group_def)
qed

theorem stream_session_ends_witness:
  "\<exists>p es q res. stream_reachable sample_tp first_error_group first_error_group default_config p
    \<and> stream_failed first_error_group eof_error p \<and> length es \<le> 33
    \<and> stream_run sample_tp first_error_group first_error_group default_config es p = Some q
    \<and> Wait first_error_group OnGroup None (ssn q) = Some res"
proof -
  obtain p where p: "stream_reachable sample_tp first_error_group first_error_group default_config p"
    "startPc (ssn p) = StReturned None" "rpc (rd (ssn p)) \<noteq> RPanicked"
    "Session.handlerWait (ssn p) = Running" "stream_failed first_error_group eof_error p"
    by (rule sample_failed)
  from p(4,5) have "stopped (ssn p) \<or> cause first_error_group (ssn p) \<noteq> None
      \<or> Session.handlerWait (ssn p) = Running \<and> stream_failed first_error_group eof_error p"
    by blast
  from stream_session_ends [OF p(1) first_error_group_laws first_error_group_laws p(2,3) this, of None] p(1,5)
  show ?thesis
    by blast
qed

text \<open>C6: What \<^verbatim>\<open>Session.Wait\<close> of a session with a stream handler says is what happened. When it
  returns because the session has ended, the result is nil exactly if the first error was that
  of a requested stop; any other result is the error with which the session's receiver or sender
  returned, or the one with which a copy loop ended: of the session's reads or writes, the
  user's writer, or the user's reader (the end of its input included).\<close>

theorem stream_session_tells_why:
  assumes "stream_reachable tp G H cfg p" and "errgroup_laws G" and "errgroup_laws H"
    and "Wait G OnGroup ctx (ssn p) = Some res"
  shows "(res = None \<longleftrightarrow> cause G (ssn p) = Some errSessionStopRequested)
    \<and> (\<forall>x. res = Some x \<longrightarrow>
        rpc (rd (ssn p)) = RReturned x \<or> wreturned (wrt (ssn p)) = Some x
        \<or> opc (outc p) = OReturned x \<and> out_error x \<or> ipc (inc p) = IReturned x \<and> in_error x)"
proof -
  have reach: "reachable (\<lambda>p. stream_start G H p \<and> errgroup_laws G \<and> errgroup_laws H)
      (\<lambda>p q. \<exists>e. stream_step tp G H cfg e p = Some q) p"
    using assms(1-3) by (simp add: stream_trans_eq)
  have "failThread (ssn p) = NotStarted"
    using slink.reachable_inv [OF assms(1)] by (simp add: stream_link_def)
  then have own: "own_error x (ssn p) \<Longrightarrow> rpc (rd (ssn p)) = RReturned x \<or> wreturned (wrt (ssn p)) = Some x" for x
    by (auto simp: own_error_def)
  have failed: "opc (outc p) = OReturned x \<and> out_error x \<or> ipc (inc p) = IReturned x \<and> in_error x"
    if "stream_failed H x p" for x
    using that reachable_stream_inv(1,2) [OF assms(1,3)]
    by (auto simp: stream_failed_def group_inv_def flow_inv_def out_inv_def in_inv_def)
  from strsys.reported [OF reach assms(4)] own failed show ?thesis
    by blast
qed

theorem stream_session_tells_why_witness:
  "\<exists>q res. stream_reachable sample_tp first_error_group first_error_group default_config q
    \<and> Wait first_error_group OnGroup None (ssn q) = Some res
    \<and> (res = None \<longleftrightarrow> cause first_error_group (ssn q) = Some errSessionStopRequested)"
proof -
  obtain p where p: "stream_reachable sample_tp first_error_group first_error_group default_config p"
    "rpc (rd (ssn p)) \<noteq> RPanicked" "Session.handlerWait (ssn p) = Running" "stream_failed first_error_group eof_error p"
    by (rule sample_failed)
  have valid: "stream_valid sample_tp first_error_group first_error_group default_config p"
    using p(1) first_error_group_laws by blast
  have "alive (ssn p)"
    using p(2) by (simp add: alive_def)
  from strsys.failure_ends [OF valid this p(3,4), of None] obtain es q res where
    q: "run_steps (stream_step sample_tp first_error_group first_error_group default_config) es p = Some q"
      "Wait first_error_group OnGroup None (ssn q) = Some res"
    by blast
  note reach = stream_run_reachable [OF p(1) q(1) [unfolded stream_run_steps]]
  from stream_session_tells_why [OF reach first_error_group_laws first_error_group_laws q(2)] reach q(2) show ?thesis
    by blast
qed

end
