(* ===== verification/Mux_Dial.thy ===== *)
theory Mux_Dial
  imports Message_Payloads
begin

text \<open>
  \<^verbatim>\<open>Dial\<close> and \<^verbatim>\<open>handleDialRequests\<close> of \<^verbatim>\<open>handler/muxPortForward.go\<close>: any number of concurrent calls
  of \<^verbatim>\<open>Dial\<close>, each with a helper goroutine that listens for the response, and the one goroutine
  of the handler that opens streams. All channels are unbuffered, so a communication is one
  step of both sides, possible when both are at it. Streams are numbered as they are opened.
\<close>

section \<open>State\<close>

text \<open>A \<^verbatim>\<open>muxDialResponse\<close>: a stream, or an error.\<close>

type_synonym dial_response = "go_error + nat"

datatype acceptor_pc =
    AOff                              \<comment> \<open>not started, or returned\<close>
  | AIdle                             \<comment> \<open>in the \<^verbatim>\<open>select\<close> of line 196\<close>
  | AOpening nat                      \<comment> \<open>in \<^verbatim>\<open>OpenStream\<close>, for this call of \<^verbatim>\<open>Dial\<close>\<close>
  | AReply nat dial_response          \<comment> \<open>in the \<^verbatim>\<open>select\<close> of line 202\<close>

datatype dial_pc =
    DNone
  | DSend                             \<comment> \<open>in the \<^verbatim>\<open>select\<close> of line 245\<close>
  | DAwait                            \<comment> \<open>receiving from \<^verbatim>\<open>responseC\<close>\<close>
  | DReturned dial_response

datatype dial_helper_pc =
    HNone
  | HSpawned                          \<comment> \<open>started, not yet in its \<^verbatim>\<open>select\<close>\<close>
  | HListen                           \<comment> \<open>in the \<^verbatim>\<open>select\<close> of line 234\<close>
  | HForward dial_response            \<comment> \<open>sending to \<^verbatim>\<open>responseC\<close>\<close>
  | HExited

record dialing =
  acceptor :: acceptor_pc
  dials :: "nat \<Rightarrow> dial_pc"           \<comment> \<open>the calls of \<^verbatim>\<open>Dial\<close>\<close>
  helpers :: "nat \<Rightarrow> dial_helper_pc"  \<comment> \<open>their helper goroutines\<close>
  opened :: nat                       \<comment> \<open>streams opened so far: 0, 1, ...\<close>
  closedConns :: "nat list"           \<comment> \<open>streams the acceptor closed\<close>

definition dialing_init :: dialing where
  "dialing_init = \<lparr>acceptor = AOff, dials = (\<lambda>_. DNone), helpers = (\<lambda>_. HNone), opened = 0, closedConns = []\<rparr>"

section \<open>Steps\<close>

text \<open>
  The events name the call of \<^verbatim>\<open>Dial\<close>; \<open>ctx\<close> errors are those of its context. \<open>cause\<close> is the
  cause of the handler's context, \<^term>\<open>None\<close> while it is not done.
\<close>

datatype dial_event =
    DeCall nat | DeSend nat | DeSendCtx nat go_error | DeSendStopped nat | DeResult nat
  | DeListen nat | DeHelperCtx nat go_error | DeHelperStopped nat
  | DeStart | DeOpened "go_error option" | DeReply | DeDefault | DeReturn

definition dialResult :: "dial_response \<Rightarrow> dial_response" where
  "dialResult response =
     (case response of
        Inl err \<Rightarrow> Inl (wrap2 ErrFailedDial err)
      | Inr conn \<Rightarrow> Inr conn)"

fun dial_step :: "go_error option \<Rightarrow> dial_event \<Rightarrow> dialing \<Rightarrow> dialing option" where
  \<comment> \<open>\<^verbatim>\<open>Dial\<close>: spawn the helper, send the request, wait for the response\<close>
  "dial_step cs (DeCall d) s =
     (if dials s d = DNone then
        Some (s\<lparr>dials := (dials s)(d := DSend), helpers := (helpers s)(d := HSpawned)\<rparr>)
      else None)"
| "dial_step cs (DeSendCtx d err) s =
     (if dials s d = DSend then Some (s\<lparr>dials := (dials s)(d := DReturned (Inl err))\<rparr>) else None)"
| "dial_step cs (DeSendStopped d) s =
     (case cs of
        None \<Rightarrow> None
      | Some err \<Rightarrow>
          if dials s d = DSend then
            Some (s\<lparr>dials := (dials s)(d := DReturned (Inl (wrap2 ErrFailedDial err)))\<rparr>)
          else None)"
| "dial_step cs (DeSend d) s =
     (if dials s d = DSend \<and> acceptor s = AIdle then
        Some (s\<lparr>dials := (dials s)(d := DAwait), acceptor := AOpening d\<rparr>)
      else None)"
| "dial_step cs (DeResult d) s =
     (case (dials s d, helpers s d) of
        (DAwait, HForward response) \<Rightarrow>
          Some (s\<lparr>dials := (dials s)(d := DReturned (dialResult response)),
            helpers := (helpers s)(d := HExited)\<rparr>)
      | _ \<Rightarrow> None)"
  \<comment> \<open>the helper\<close>
| "dial_step cs (DeListen d) s =
     (if helpers s d = HSpawned then Some (s\<lparr>helpers := (helpers s)(d := HListen)\<rparr>) else None)"
| "dial_step cs (DeHelperCtx d err) s =
     (if helpers s d = HListen then Some (s\<lparr>helpers := (helpers s)(d := HForward (Inl err))\<rparr>) else None)"
| "dial_step cs (DeHelperStopped d) s =
     (case cs of
        None \<Rightarrow> None
      | Some err \<Rightarrow>
          if helpers s d = HListen then
            Some (s\<lparr>helpers := (helpers s)(d := HForward (Inl (wrap2 ErrFailedDial err)))\<rparr>)
          else None)"
  \<comment> \<open>\<^verbatim>\<open>handleDialRequests\<close>: the \<^verbatim>\<open>default\<close> branch is taken when nobody listens\<close>
| "dial_step cs DeStart s = (if acceptor s = AOff then Some (s\<lparr>acceptor := AIdle\<rparr>) else None)"
| "dial_step cs DeReturn s =
     (if acceptor s = AIdle \<and> cs \<noteq> None then Some (s\<lparr>acceptor := AOff\<rparr>) else None)"
| "dial_step cs (DeOpened err) s =
     (case acceptor s of
        AOpening d \<Rightarrow>
          (case err of
             None \<Rightarrow> Some (s\<lparr>acceptor := AReply d (Inr (opened s)), opened := Suc (opened s)\<rparr>)
           | Some err \<Rightarrow> Some (s\<lparr>acceptor := AReply d (Inl err)\<rparr>))
      | _ \<Rightarrow> None)"
| "dial_step cs DeReply s =
     (case acceptor s of
        AReply d response \<Rightarrow>
          if helpers s d = HListen then
            Some (s\<lparr>acceptor := AIdle, helpers := (helpers s)(d := HForward response)\<rparr>)
          else None
      | _ \<Rightarrow> None)"
| "dial_step cs DeDefault s =
     (case acceptor s of
        AReply d response \<Rightarrow>
          if helpers s d \<noteq> HListen then
            (case response of
               Inr conn \<Rightarrow> Some (s\<lparr>acceptor := AIdle, closedConns := closedConns s @ [conn]\<rparr>)
             | Inl err \<Rightarrow> Some (s\<lparr>acceptor := AIdle\<rparr>))
          else None
      | _ \<Rightarrow> None)"

fun dial_run :: "go_error option \<Rightarrow> dial_event list \<Rightarrow> dialing \<Rightarrow> dialing option" where
  "dial_run cs [] s = Some s"
| "dial_run cs (e # es) s = (case dial_step cs e s of None \<Rightarrow> None | Some s \<Rightarrow> dial_run cs es s)"

text \<open>The handler's context may be cancelled at any time.\<close>

inductive dial_trans :: "dialing \<Rightarrow> dialing \<Rightarrow> bool" where
  dial_transI: "dial_step cs e s = Some t \<Longrightarrow> dial_trans s t"

inductive_cases dial_transE [consumes 1, case_names step]: "dial_trans s t"

definition dial_start :: "dialing \<Rightarrow> bool" where
  "dial_start s \<longleftrightarrow> s = dialing_init"

abbreviation dial_reachable :: "dialing \<Rightarrow> bool" where
  "dial_reachable \<equiv> reachable dial_start dial_trans"

section \<open>Where a stream is\<close>

text \<open>A stream can be with the acceptor, on its way through a helper, returned, or closed.\<close>

datatype place = WithAcceptor | WithHelper nat | ReturnedBy nat | Closed

fun at_place :: "dialing \<Rightarrow> nat \<Rightarrow> place \<Rightarrow> bool" where
  "at_place s c WithAcceptor \<longleftrightarrow> (\<exists>d. acceptor s = AReply d (Inr c))"
| "at_place s c (WithHelper d) \<longleftrightarrow> helpers s d = HForward (Inr c)"
| "at_place s c (ReturnedBy d) \<longleftrightarrow> dials s d = DReturned (Inr c)"
| "at_place s c Closed \<longleftrightarrow> c \<in> set (closedConns s)"

definition conn_inv :: "dialing \<Rightarrow> bool" where
  "conn_inv s \<longleftrightarrow>
     (\<forall>c < opened s. \<exists>pl. at_place s c pl)
     \<and> (\<forall>c pl. at_place s c pl \<longrightarrow> c < opened s \<and> (\<forall>pl'. at_place s c pl' \<longrightarrow> pl' = pl))"

text \<open>A call and its helper; and a call that is being served waits, or has been answered.\<close>

fun dial_ok :: "dial_pc \<Rightarrow> dial_helper_pc \<Rightarrow> bool" where
  "dial_ok DNone h \<longleftrightarrow> h = HNone"
| "dial_ok DSend h \<longleftrightarrow> h \<noteq> HNone \<and> h \<noteq> HExited \<and> (\<forall>c. h \<noteq> HForward (Inr c))"
| "dial_ok DAwait h \<longleftrightarrow> h \<noteq> HNone \<and> h \<noteq> HExited"
| "dial_ok (DReturned r) h \<longleftrightarrow> h \<noteq> HNone \<and> (\<forall>c. h \<noteq> HForward (Inr c))"

fun serving :: "acceptor_pc \<Rightarrow> nat option" where
  "serving (AOpening d) = Some d"
| "serving (AReply d r) = Some d"
| "serving _ = None"

fun served_ok :: "dial_pc \<Rightarrow> dial_helper_pc \<Rightarrow> bool" where
  "served_ok p h \<longleftrightarrow> p = DAwait \<or> (\<exists>r. p = DReturned r) \<and> h = HExited"

definition wait_inv :: "dialing \<Rightarrow> bool" where
  "wait_inv s \<longleftrightarrow> (\<forall>d. dial_ok (dials s d) (helpers s d))
     \<and> (\<forall>d. serving (acceptor s) = Some d \<longrightarrow> served_ok (dials s d) (helpers s d))"

text \<open>Only one call and its helper change, and the call being served changes to none or to this one.\<close>

lemma wait_inv_change:
  assumes "wait_inv s" and "\<And>d'. d' \<noteq> d \<Longrightarrow> dials t d' = dials s d' \<and> helpers t d' = helpers s d'"
    and "dial_ok (dials t d) (helpers t d)"
    and "serving (acceptor t) = serving (acceptor s) \<or> serving (acceptor t) \<in> {None, Some d}"
    and "serving (acceptor t) = Some d \<Longrightarrow> served_ok (dials t d) (helpers t d)"
  shows "wait_inv t"
  unfolding wait_inv_def
proof (intro conjI allI impI)
  fix d'
  show "dial_ok (dials t d') (helpers t d')"
    using assms(1,2,3) by (cases "d' = d") (simp_all add: wait_inv_def)
  assume "serving (acceptor t) = Some d'"
  then show "served_ok (dials t d') (helpers t d')"
    using assms(1,2,4,5) by (cases "d' = d") (auto simp: wait_inv_def simp del: served_ok.simps)
qed

lemma wait_invD:
  assumes "wait_inv s"
  shows "dial_ok (dials s d) (helpers s d)"
    "serving (acceptor s) = Some d \<Longrightarrow> served_ok (dials s d) (helpers s d)"
  using assms by (simp_all add: wait_inv_def del: served_ok.simps)

text \<open>The call of \<^verbatim>\<open>Dial\<close> an event is about.\<close>

fun subject :: "dialing \<Rightarrow> dial_event \<Rightarrow> nat" where
  "subject s (DeCall d) = d"
| "subject s (DeSend d) = d"
| "subject s (DeSendCtx d err) = d"
| "subject s (DeSendStopped d) = d"
| "subject s (DeResult d) = d"
| "subject s (DeListen d) = d"
| "subject s (DeHelperCtx d err) = d"
| "subject s (DeHelperStopped d) = d"
| "subject s _ = (case serving (acceptor s) of Some d \<Rightarrow> d | None \<Rightarrow> 0)"

lemmas dial_splits = if_splits option.splits acceptor_pc.splits dial_pc.splits dial_helper_pc.splits sum.splits

lemma dial_step_others:
  assumes "dial_step cs e s = Some t" and "d \<noteq> subject s e"
  shows "dials t d = dials s d \<and> helpers t d = helpers s d"
  using assms by (cases e) (auto split: dial_splits)

lemma dial_step_subject:
  assumes "dial_step cs e s = Some t" and "wait_inv s"
  shows "dial_ok (dials t (subject s e)) (helpers t (subject s e))"
  using assms(1) wait_invD [OF assms(2), of "subject s e"]
  by (cases e; cases "dials s (subject s e)") (auto split: dial_splits)

lemma dial_step_serving:
  assumes "dial_step cs e s = Some t"
  shows "serving (acceptor t) = serving (acceptor s) \<or> serving (acceptor t) \<in> {None, Some (subject s e)}"
  using assms by (cases e) (auto split: dial_splits)

lemma dial_step_served:
  assumes "dial_step cs e s = Some t" and "wait_inv s" and "serving (acceptor t) = Some (subject s e)"
  shows "served_ok (dials t (subject s e)) (helpers t (subject s e))"
  using assms(1,3) wait_invD [OF assms(2), of "subject s e"] by (cases e) (auto split: dial_splits)

lemma wait_inv_step:
  assumes "wait_inv s" and "dial_step cs e s = Some t"
  shows "wait_inv t"
  using wait_inv_change [OF assms(1)] dial_step_others [OF assms(2)] dial_step_serving [OF assms(2)]
    dial_step_subject [OF assms(2,1)] dial_step_served [OF assms(2,1)]
  by blast

text \<open>A step moves at most one stream.\<close>

lemma conn_inv_frame:
  assumes "conn_inv s" and "opened t = opened s" and "\<And>c pl. at_place t c pl \<longleftrightarrow> at_place s c pl"
  shows "conn_inv t"
  using assms by (simp add: conn_inv_def)

lemma conn_inv_move:
  assumes "conn_inv s" and "at_place s c0 pl0" and "opened t = opened s"
    and "\<And>c pl. at_place t c pl \<longleftrightarrow> (if c = c0 then pl = pl1 else at_place s c pl)"
  shows "conn_inv t"
  unfolding conn_inv_def assms(3,4)
proof (intro conjI allI impI)
  fix c assume "c < opened s"
  then show "\<exists>pl. if c = c0 then pl = pl1 else at_place s c pl"
    using assms(1) by (cases "c = c0") (simp_all add: conn_inv_def)
qed (use assms(1,2) in \<open>auto simp: conn_inv_def split: if_splits\<close>)

lemma conn_inv_open:
  assumes "conn_inv s" and "opened t = Suc (opened s)"
    and "\<And>c pl. at_place t c pl \<longleftrightarrow> (if c = opened s then pl = pl1 else at_place s c pl)"
  shows "conn_inv t"
  unfolding conn_inv_def assms(2,3)
proof (intro conjI allI impI)
  fix c assume "c < Suc (opened s)"
  then show "\<exists>pl. if c = opened s then pl = pl1 else at_place s c pl"
    using assms(1) by (cases "c = opened s") (simp_all add: conn_inv_def less_Suc_eq)
qed (use assms(1) in \<open>fastforce simp: conn_inv_def less_Suc_eq split: if_splits\<close>)+

lemma place_unique:
  assumes "conn_inv s" and "at_place s c pl"
  shows "acceptor s = AReply d (Inr c) \<Longrightarrow> pl = WithAcceptor" "helpers s d = HForward (Inr c) \<Longrightarrow> pl = WithHelper d"
    "dials s d = DReturned (Inr c) \<Longrightarrow> pl = ReturnedBy d" "c \<in> set (closedConns s) \<Longrightarrow> pl = Closed"
proof -
  have u: "pl = pl'" if "at_place s c pl'" for pl'
    using assms that unfolding conn_inv_def by blast
  show "acceptor s = AReply d (Inr c) \<Longrightarrow> pl = WithAcceptor" "helpers s d = HForward (Inr c) \<Longrightarrow> pl = WithHelper d"
    "dials s d = DReturned (Inr c) \<Longrightarrow> pl = ReturnedBy d" "c \<in> set (closedConns s) \<Longrightarrow> pl = Closed"
    by (auto intro!: u)
qed

lemma at_place_cases:
  "at_place s c pl = (case pl of
      WithAcceptor \<Rightarrow> \<exists>d. acceptor s = AReply d (Inr c)
    | WithHelper d \<Rightarrow> helpers s d = HForward (Inr c)
    | ReturnedBy d \<Rightarrow> dials s d = DReturned (Inr c)
    | Closed \<Rightarrow> c \<in> set (closedConns s))"
  by (cases pl) simp_all

text \<open>The three steps that move a stream from one place to another, and the one that opens it.\<close>

lemma conn_inv_result:
  assumes "conn_inv s" and "helpers s d = HForward (Inr c)"
    and "t = s\<lparr>dials := (dials s)(d := DReturned (Inr c)), helpers := (helpers s)(d := HExited)\<rparr>"
    and "dials s d = DAwait"
  shows "conn_inv t"
proof -
  have place: "at_place s c (WithHelper d)"
    using assms(2) by simp
  have u: "acceptor s \<noteq> AReply d' (Inr c)" "d' \<noteq> d \<Longrightarrow> helpers s d' \<noteq> HForward (Inr c)"
      "dials s d' \<noteq> DReturned (Inr c)" "c \<notin> set (closedConns s)" for d'
    using place_unique [OF assms(1) place] by blast+
  have "at_place t c' pl \<longleftrightarrow> (if c' = c then pl = ReturnedBy d else at_place s c' pl)" for c' pl
    by (cases pl) (use u assms(2,4) in \<open>auto simp: assms(3)\<close>)
  then show ?thesis
    by (intro conn_inv_move [OF assms(1) place]) (simp_all add: assms(3))
qed

lemma conn_inv_reply:
  assumes "conn_inv s" and "acceptor s = AReply d (Inr c)"
    and "t = s\<lparr>acceptor := AIdle, helpers := (helpers s)(d := HForward (Inr c))\<rparr>" and "helpers s d = HListen"
  shows "conn_inv t"
proof -
  have place: "at_place s c WithAcceptor"
    using assms(2) by simp
  have u: "helpers s d' \<noteq> HForward (Inr c)" "dials s d' \<noteq> DReturned (Inr c)" "c \<notin> set (closedConns s)" for d'
    using place_unique [OF assms(1) place] by blast+
  have "at_place t c' pl \<longleftrightarrow> (if c' = c then pl = WithHelper d else at_place s c' pl)" for c' pl
    by (cases pl) (use u assms(2,4) in \<open>auto simp: assms(3)\<close>)
  then show ?thesis
    by (intro conn_inv_move [OF assms(1) place]) (simp_all add: assms(3))
qed

lemma conn_inv_default:
  assumes "conn_inv s" and "acceptor s = AReply d (Inr c)"
    and "t = s\<lparr>acceptor := AIdle, closedConns := closedConns s @ [c]\<rparr>"
  shows "conn_inv t"
proof -
  have place: "at_place s c WithAcceptor"
    using assms(2) by simp
  have u: "helpers s d' \<noteq> HForward (Inr c)" "dials s d' \<noteq> DReturned (Inr c)" "c \<notin> set (closedConns s)" for d'
    using place_unique [OF assms(1) place] by blast+
  have "at_place t c' pl \<longleftrightarrow> (if c' = c then pl = Closed else at_place s c' pl)" for c' pl
    by (cases pl) (use u assms(2) in \<open>auto simp: assms(3)\<close>)
  then show ?thesis
    by (intro conn_inv_move [OF assms(1) place]) (simp_all add: assms(3))
qed

lemma conn_inv_opened:
  assumes "conn_inv s" and "acceptor s = AOpening d"
    and "t = s\<lparr>acceptor := AReply d (Inr (opened s)), opened := Suc (opened s)\<rparr>"
  shows "conn_inv t"
proof -
  have none: "\<not> at_place s (opened s) pl" for pl
    using assms(1) by (auto simp: conn_inv_def)
  note none_at = none [of WithAcceptor] none [of "WithHelper d'" for d'] none [of "ReturnedBy d'" for d'] none [of Closed]
  have "at_place t c pl \<longleftrightarrow> (if c = opened s then pl = WithAcceptor else at_place s c pl)" for c pl
    by (cases pl) (use none_at assms(2) in \<open>auto simp: assms(3)\<close>)
  then show ?thesis
    by (intro conn_inv_open [OF assms(1)]) (simp_all add: assms(3))
qed

text \<open>All others leave the streams where they are.\<close>

lemma at_place_frame:
  assumes "dial_ok (dials s (subject s e)) (helpers s (subject s e))" and "dial_step cs e s = Some t"
    and "case e of DeResult d \<Rightarrow> \<forall>c. helpers s d \<noteq> HForward (Inr c)
      | DeOpened err \<Rightarrow> err \<noteq> None
      | DeReply \<Rightarrow> \<forall>d c. acceptor s \<noteq> AReply d (Inr c)
      | DeDefault \<Rightarrow> \<forall>d c. acceptor s \<noteq> AReply d (Inr c) | _ \<Rightarrow> True"
  shows "opened t = opened s" "at_place t c pl \<longleftrightarrow> at_place s c pl"
proof -
  show "opened t = opened s"
    using assms(2,3) by (cases e) (auto split: dial_splits)
  show "at_place t c pl \<longleftrightarrow> at_place s c pl"
    using assms by (cases e; cases pl) (auto simp: dialResult_def split: dial_splits)
qed

lemma conn_inv_step:
  assumes inv: "conn_inv s" "wait_inv s" and step: "dial_step cs e s = Some t"
  shows "conn_inv t"
proof -
  consider (result) d c where "e = DeResult d" "helpers s d = HForward (Inr c)"
    | (reply) d c where "e = DeReply" "acceptor s = AReply d (Inr c)"
    | (aborted) d c where "e = DeDefault" "acceptor s = AReply d (Inr c)"
    | (opened) "e = DeOpened None"
    | (rest) "case e of DeResult d \<Rightarrow> \<forall>c. helpers s d \<noteq> HForward (Inr c)
      | DeOpened err \<Rightarrow> err \<noteq> None
      | DeReply \<Rightarrow> \<forall>d c. acceptor s \<noteq> AReply d (Inr c)
      | DeDefault \<Rightarrow> \<forall>d c. acceptor s \<noteq> AReply d (Inr c) | _ \<Rightarrow> True"
    by (cases e) (simp_all, blast+)
  then show ?thesis
  proof cases
    case result
    with step show ?thesis
      by (intro conn_inv_result [OF inv(1)]) (auto simp: dialResult_def split: dial_pc.splits)
  next
    case reply
    with step show ?thesis
      by (intro conn_inv_reply [OF inv(1)]) (auto split: if_splits)
  next
    case aborted
    with step show ?thesis
      by (intro conn_inv_default [OF inv(1)]) (auto split: if_splits)
  next
    case opened
    with step show ?thesis
      by (auto intro: conn_inv_opened [OF inv(1)] split: acceptor_pc.splits)
  next
    case rest
    show ?thesis
      by (rule conn_inv_frame [OF inv(1)]) (rule at_place_frame [OF wait_invD(1) [OF inv(2)] step rest])+
  qed
qed

lemma dialing_init_inv: "wait_inv dialing_init" "conn_inv dialing_init"
  by (auto simp: dialing_init_def wait_inv_def conn_inv_def at_place_cases split: place.splits)

interpretation dl: inductive_invariant dial_start dial_trans "\<lambda>s. wait_inv s \<and> conn_inv s"
proof unfold_locales
  fix s t
  show "dial_start s \<Longrightarrow> wait_inv s \<and> conn_inv s"
    by (simp add: dial_start_def dialing_init_inv)
  assume "wait_inv s \<and> conn_inv s" and "dial_trans s t"
  then show "wait_inv t \<and> conn_inv t"
    by (elim dial_transE) (blast intro: wait_inv_step conn_inv_step)
qed

lemma dial_reachable_step: "dial_reachable s \<Longrightarrow> dial_step cs e s = Some t \<Longrightarrow> dial_reachable t"
  by (blast intro: reach_step dial_transI)

lemma dial_run_trans: "dial_run cs es s = Some t \<Longrightarrow> dial_trans\<^sup>*\<^sup>* s t"
proof (induction es arbitrary: s)
  case (Cons e es)
  then obtain u where "dial_step cs e s = Some u" "dial_run cs es u = Some t"
    by (auto split: option.splits)
  with Cons.IH [of u] show ?case
    by (blast intro: converse_rtranclp_into_rtranclp dial_transI)
qed simp

lemma dial_run_init: "dial_run cs es dialing_init = Some t \<Longrightarrow> dial_reachable t"
  by (rule reachable_rtranclp [OF reach_init dial_run_trans]) (simp_all add: dial_start_def)

text \<open>With a listening helper and a stream that opens, a call of \<^verbatim>\<open>Dial\<close> gets the stream.\<close>

lemma dial_succeeds:
  assumes "dials s d = DNone" and "acceptor s = AIdle"
  shows "\<exists>t. dial_run None [DeCall d, DeListen d, DeSend d, DeOpened None, DeReply, DeResult d] s = Some t
    \<and> dials t d = DReturned (Inr (opened s)) \<and> helpers t d = HExited \<and> acceptor t = AIdle"
  using assms by (simp add: dialResult_def)

section \<open>Calls that do not return, helpers that do not end\<close>

definition abandoned :: "nat \<Rightarrow> dialing \<Rightarrow> bool" where
  "abandoned d s \<longleftrightarrow> dials s d = DAwait \<and> helpers s d \<in> {HSpawned, HListen} \<and> serving (acceptor s) \<noteq> Some d"

lemma abandoned_step:
  assumes "abandoned d s" and "dial_step None e s = Some t" and "\<forall>err. e \<noteq> DeHelperCtx d err"
  shows "abandoned d t \<and> set (closedConns s) \<subseteq> set (closedConns t)"
  using assms by (cases e) (auto simp: abandoned_def
      split: if_splits option.splits acceptor_pc.splits dial_pc.splits dial_helper_pc.splits sum.splits)

lemma abandoned_run:
  "abandoned d s \<Longrightarrow> dial_run None es s = Some t \<Longrightarrow> \<forall>err. DeHelperCtx d err \<notin> set es \<Longrightarrow>
     abandoned d t \<and> set (closedConns s) \<subseteq> set (closedConns t)"
proof (induction es arbitrary: s)
  case (Cons e es)
  then obtain u where u: "dial_step None e s = Some u" "dial_run None es u = Some t"
    by (auto split: option.splits)
  have "abandoned d u \<and> set (closedConns s) \<subseteq> set (closedConns u)"
    using Cons.prems by (intro abandoned_step [OF _ u(1)]) auto
  with Cons.IH [OF _ u(2)] Cons.prems(3) show ?case
    by auto
qed simp

definition returned_early :: "nat \<Rightarrow> dialing \<Rightarrow> bool" where
  "returned_early d s \<longleftrightarrow> (\<exists>err. dials s d = DReturned (Inl err)) \<and> helpers s d \<notin> {HNone, HExited}"

lemma returned_early_step: "returned_early d s \<Longrightarrow> dial_step cs e s = Some t \<Longrightarrow> returned_early d t"
  by (cases e) (auto simp: returned_early_def
      split: if_splits option.splits acceptor_pc.splits dial_pc.splits dial_helper_pc.splits sum.splits)

lemma returned_early_stays: "dial_trans\<^sup>*\<^sup>* s t \<Longrightarrow> returned_early d s \<Longrightarrow> returned_early d t"
  by (induction rule: rtranclp_induct) (auto elim!: dial_transE intro: returned_early_step)

section \<open>Properties\<close>

text \<open>C17: No stream is lost or given to two callers. In every reachable state of any number of calls
  of \<^verbatim>\<open>Dial\<close> and the acceptor, with contexts cancelled at any time, every stream opened so far is
  in exactly one place: with the acceptor, on its way through the helper of a call that is still
  waiting for it, returned by exactly one call, or closed. So once the acceptor is idle and no
  helper is forwarding, each has been returned or closed.\<close>

theorem mux_streams_accounted:
  assumes "dial_reachable s" and "c < opened s"
  shows "(\<exists>!pl. at_place s c pl)
    \<and> (\<forall>d. at_place s c (WithHelper d) \<longrightarrow> dials s d = DAwait)
    \<and> (\<forall>d. at_place s c WithAcceptor \<and> serving (acceptor s) = Some d \<longrightarrow> dials s d = DAwait \<or> helpers s d = HExited)"
proof -
  have inv: "wait_inv s" "conn_inv s"
    using dl.reachable_inv [OF assms(1)] by simp_all
  have "\<exists>!pl. at_place s c pl"
    using inv(2) assms(2) unfolding conn_inv_def by blast
  moreover have "dials s d = DAwait" if "at_place s c (WithHelper d)" for d
    using that wait_invD(1) [OF inv(1), of d] by (cases "dials s d") auto
  moreover have "dials s d = DAwait \<or> helpers s d = HExited" if "serving (acceptor s) = Some d" for d
    using wait_invD(2) [OF inv(1) that] by auto
  ultimately show ?thesis
    by blast
qed

theorem mux_streams_accounted_witness:
  "\<exists>s. dial_run None [DeStart, DeCall 0, DeListen 0, DeSend 0, DeOpened None, DeReply, DeResult 0] dialing_init = Some s
    \<and> dials s 0 = DReturned (Inr 0) \<and> (\<forall>pl. at_place s 0 pl \<longrightarrow> pl = ReturnedBy 0)"
proof -
  obtain s where s: "dial_run None [DeStart, DeCall 0, DeListen 0, DeSend 0, DeOpened None, DeReply, DeResult 0]
      dialing_init = Some s" "dials s 0 = DReturned (Inr 0)" "opened s = 1"
    by (simp add: dialing_init_def dialResult_def)
  from mux_streams_accounted [OF dial_run_init [OF s(1)], of 0] s(3) have "\<exists>!pl. at_place s 0 pl"
    by simp
  moreover have "at_place s 0 (ReturnedBy 0)"
    using s(2) by simp
  ultimately show ?thesis
    using s by blast
qed

text \<open>C36: A call of \<^verbatim>\<open>Dial\<close> can hang although its stream was opened. If the acceptor comes to its
  reply before the helper of the call has reached its \<^verbatim>\<open>select\<close>, which nothing excludes, it takes
  the \<^verbatim>\<open>default\<close> branch and closes the stream; from then on, as long as the handler runs and the
  caller's context is not done, the call never returns, whatever anybody does.\<close>

theorem mux_dial_hangs:
  assumes "dial_reachable s" and "acceptor s = AReply d (Inr c)" and "helpers s d = HSpawned"
  shows "\<exists>t. dial_step None DeDefault s = Some t \<and> c \<in> set (closedConns t) \<and> dials t d = DAwait
    \<and> (\<forall>es u. dial_run None es t = Some u \<and> (\<forall>err. DeHelperCtx d err \<notin> set es) \<longrightarrow>
        dials u d = DAwait \<and> c \<in> set (closedConns u))"
proof -
  have "wait_inv s"
    using dl.reachable_inv [OF assms(1)] by simp
  from wait_invD(2) [OF this, of d] assms(2,3) have await: "dials s d = DAwait"
    by auto
  let ?t = "s\<lparr>acceptor := AIdle, closedConns := closedConns s @ [c]\<rparr>"
  have step: "dial_step None DeDefault s = Some ?t"
    using assms(2,3) by simp
  have "abandoned d ?t"
    using await assms(3) by (simp add: abandoned_def)
  from abandoned_run [OF this] have "dials u d = DAwait \<and> c \<in> set (closedConns u)"
    if "dial_run None es ?t = Some u \<and> (\<forall>err. DeHelperCtx d err \<notin> set es)" for es u
    using that by (fastforce simp: abandoned_def)
  with step await show ?thesis
    by (intro exI [of _ ?t]) simp
qed

theorem mux_dial_hangs_witness:
  "\<exists>s t. dial_run None [DeStart, DeCall 0, DeSend 0, DeOpened None] dialing_init = Some s
    \<and> dial_step None DeDefault s = Some t \<and> closedConns t = [0] \<and> dials t 0 = DAwait
    \<and> (\<forall>es u. dial_run None es t = Some u \<and> (\<forall>err. DeHelperCtx 0 err \<notin> set es) \<longrightarrow> dials u 0 = DAwait)"
proof -
  obtain s where s: "dial_run None [DeStart, DeCall 0, DeSend 0, DeOpened None] dialing_init = Some s"
    "acceptor s = AReply 0 (Inr 0)" "helpers s 0 = HSpawned" "closedConns s = []"
    by (simp add: dialing_init_def)
  from mux_dial_hangs [OF dial_run_init [OF s(1)] s(2,3)] obtain t where
    t: "dial_step None DeDefault s = Some t" "dials t 0 = DAwait"
    "\<forall>es u. dial_run None es t = Some u \<and> (\<forall>err. DeHelperCtx 0 err \<notin> set es) \<longrightarrow>
        dials u 0 = DAwait \<and> 0 \<in> set (closedConns u)"
    by blast
  moreover have "closedConns t = [0]"
    using t(1) s(2-4) by auto
  ultimately show ?thesis
    using s(1) by blast
qed

text \<open>C37: A call of \<^verbatim>\<open>Dial\<close> that returns early leaves its helper goroutine behind for ever. If the call
  returns from its first \<^verbatim>\<open>select\<close>, because its context or the handler's is done, then nobody
  receives from \<^verbatim>\<open>responseC\<close> any more, and in no later state has the helper ended.\<close>

theorem mux_dial_leaks_helper:
  assumes "dial_reachable s" and "dial_step cs (DeSendCtx d err) s = Some t \<or> dial_step cs (DeSendStopped d) s = Some t"
    and "dial_trans\<^sup>*\<^sup>* t u"
  shows "(\<exists>e. dials u d = DReturned (Inl e)) \<and> helpers u d \<noteq> HExited"
proof -
  have "wait_inv s"
    using dl.reachable_inv [OF assms(1)] by simp
  from wait_invD(1) [OF this, of d] assms(2) have "returned_early d t"
    by (auto simp: returned_early_def split: if_splits option.splits)
  with returned_early_stays [OF assms(3)] show ?thesis
    by (simp add: returned_early_def)
qed

theorem mux_dial_leaks_helper_witness:
  "\<exists>t u. dial_run None [DeStart, DeCall 0, DeSendCtx 0 context_Canceled] dialing_init = Some t
    \<and> dial_run None [DeListen 0, DeHelperCtx 0 context_Canceled] t = Some u
    \<and> helpers u 0 = HForward (Inl context_Canceled) \<and> (\<forall>v. dial_trans\<^sup>*\<^sup>* u v \<longrightarrow> helpers v 0 \<noteq> HExited)"
proof -
  obtain s t u where s: "dial_run None [DeStart, DeCall 0] dialing_init = Some s"
    "dial_step None (DeSendCtx 0 context_Canceled) s = Some t"
    "dial_run None [DeListen 0, DeHelperCtx 0 context_Canceled] t = Some u"
    "dial_run None [DeStart, DeCall 0, DeSendCtx 0 context_Canceled] dialing_init = Some t"
    "helpers u 0 = HForward (Inl context_Canceled)"
    by (simp add: dialing_init_def)
  have "helpers v 0 \<noteq> HExited" if "dial_trans\<^sup>*\<^sup>* u v" for v
    using mux_dial_leaks_helper [OF dial_run_init [OF s(1)] disjI1 [OF s(2)]]
      rtranclp_trans [OF dial_run_trans [OF s(3)] that] by blast
  with s show ?thesis
    by blast
qed

end
