(* ===== verification/Mux.thy ===== *)
theory Mux
  imports Handler_Pumps Mux_Dial Version
begin

text \<open>
  The handler for port forwarding, \<^verbatim>\<open>handler/muxPortForward.go\<close>: \<^verbatim>\<open>Start\<close> with the handshake and
  the version checks, the two copy loops between the session and one end of a \<^verbatim>\<open>net.Pipe\<close>, the
  acceptor of dial requests (\<^theory_text>\<open>Mux_Dial\<close>) and the life cycle. \<^verbatim>\<open>smux\<close> is third-party code: the
  results of \<^verbatim>\<open>smux.Client\<close> and \<^verbatim>\<open>OpenStream\<close>, and what comes out of the pipe, are given by the
  events.
\<close>

section \<open>State\<close>

definition MuxSupported :: FeatureFlag where "MuxSupported = ''3.0.196.0''"
definition SmuxKeepAliveSupported :: FeatureFlag where "SmuxKeepAliveSupported = ''3.1.1511.0''"

datatype mux_cleanup_pc = McWait | McData | McClient | McSignal | McFinished

record ('g, 'h) mux = "('g, 'h) pumps" +
  dl :: dialing
  startResult :: "go_error option option" \<comment> \<open>what \<^verbatim>\<open>Start\<close> returned, once it has\<close>
  remoteVersion :: string
  keepAliveDisabled :: bool           \<comment> \<open>of the smux configuration\<close>
  muxCleanupPc :: mux_cleanup_pc
  smuxOpen :: bool
  dataConnOpen :: bool
  clientConnOpen :: bool

definition mux_init :: "'g errgroup \<Rightarrow> 'h errgroup \<Rightarrow> ('g, 'h) mux" where
  "mux_init G H = pumps.extend (pumps_init G H)
     \<lparr>dl = dialing_init, startResult = None, remoteVersion = [], keepAliveDisabled = False,
      muxCleanupPc = McWait, smuxOpen = False, dataConnOpen = False, clientConnOpen = False\<rparr>"

section \<open>Start\<close>

text \<open>Lines 99 to 157, after the handshake: \<open>smuxErr\<close> is the error of \<^verbatim>\<open>smux.Client\<close>.\<close>

definition muxSetup :: "string \<Rightarrow> go_error option \<Rightarrow> ('g, 'h) mux \<Rightarrow> ('g, 'h) mux" where
  "muxSetup version smuxErr p =
     (if \<not> SupportsVersion MuxSupported version then
        p\<lparr>startResult := Some (Some (Errorf (''%w: '' @ version) [ErrRemoteVersionNotSupported]))\<rparr>
      else
        (let p = p\<lparr>keepAliveDisabled := SupportsVersion SmuxKeepAliveSupported version,
               dataConnOpen := True, clientConnOpen := True\<rparr> in
         case smuxErr of
           Some err \<Rightarrow> p\<lparr>startResult := Some (Some (wrap2 ErrCreateSmuxClientFailed err))\<rparr>
         | None \<Rightarrow>
             startPumps (p\<lparr>smuxOpen := True, dl := (dl p)\<lparr>acceptor := AIdle\<rparr>, startResult := Some None\<rparr>)))"

text \<open>
  The handshake is with the session, which goes on meanwhile; it cannot see \<^verbatim>\<open>Start\<close> return or
  call \<^verbatim>\<open>Wait\<close>, but its cleanup goroutine may call \<^verbatim>\<open>Stop\<close>.
\<close>

definition during_start :: "('g session \<Rightarrow> session_event list) \<Rightarrow> 'g session \<Rightarrow> session_event list" where
  "during_start sched s = filter (\<lambda>e. \<not> handler_event e) (sched s)"

definition muxStart ::
    "third_party \<Rightarrow> 'g errgroup \<Rightarrow> ('g session \<Rightarrow> session_event list) \<Rightarrow> ('g session \<Rightarrow> select_case)
      \<Rightarrow> ('g session \<Rightarrow> go_error option) \<Rightarrow> time \<Rightarrow> bytes \<Rightarrow> go_error option \<Rightarrow> ('g, 'h) mux \<Rightarrow> ('g, 'h) mux option" where
  "muxStart tp G sched pick ctx now uid smuxErr p =
     (if startPc (ssn p) = StStarting \<and> startResult p = None then
        (case PerformHandshake (sessionRead tp G (during_start sched) pick ctx)
            (sessionWrite tp G (during_start sched) pick ctx) now uid (ssn p) of
           None \<Rightarrow> None
         | Some (res, s) \<Rightarrow>
             (let p = p\<lparr>ssn := s, hstopped := (hstopped p \<or> handlerStopped s)\<rparr> in
              case res of
                Inl err \<Rightarrow> Some (p\<lparr>startResult := Some (Some (wrap2 ErrHandshakeFailed err))\<rparr>)
              | Inr version \<Rightarrow> Some (muxSetup version smuxErr (p\<lparr>remoteVersion := version\<rparr>))))
      else None)"

text \<open>The session sees \<^verbatim>\<open>Start\<close> return.\<close>

definition muxStarted :: "third_party \<Rightarrow> 'g errgroup \<Rightarrow> ('g, 'h) mux \<Rightarrow> ('g, 'h) mux option" where
  "muxStarted tp G p =
     (case startResult p of
        None \<Rightarrow> None
      | Some res \<Rightarrow> sessionStep tp G (EvHandlerStart res) p)"

section \<open>The goroutines\<close>

text \<open>Lines 122 to 132.\<close>

definition muxCleanup :: "'h errgroup \<Rightarrow> ('g, 'h) mux \<Rightarrow> ('g, 'h) mux option" where
  "muxCleanup H p =
     (if tCleanup p = Running then
        (case muxCleanupPc p of
           McWait \<Rightarrow> if hcause H p \<noteq> None then Some (p\<lparr>muxCleanupPc := McData, smuxOpen := False\<rparr>) else None
         | McData \<Rightarrow> Some (p\<lparr>muxCleanupPc := McClient, dataConnOpen := False\<rparr>)
         | McClient \<Rightarrow> Some (p\<lparr>muxCleanupPc := McSignal, clientConnOpen := False\<rparr>)
         | McSignal \<Rightarrow>
             Some (hReturn H None (handlerStop (p\<lparr>muxCleanupPc := McFinished, tCleanup := Finished\<rparr>)))
         | McFinished \<Rightarrow> None)
      else None)"

text \<open>\<^verbatim>\<open>handleDialRequests\<close> returns the cause of the context; any other step of the dialling.\<close>

definition muxDialReturn :: "'h errgroup \<Rightarrow> ('g, 'h) mux \<Rightarrow> ('g, 'h) mux option" where
  "muxDialReturn H p =
     (if tAux p = Running then
        map_option (\<lambda>d. hReturn H (hcause H p) (p\<lparr>dl := d, tAux := Finished\<rparr>)) (dial_step (hcause H p) DeReturn (dl p))
      else None)"

fun dial_gate :: "dial_event \<Rightarrow> bool" where
  "dial_gate DeStart = False"
| "dial_gate DeReturn = False"
| "dial_gate e = True"

definition muxDial :: "'h errgroup \<Rightarrow> dial_event \<Rightarrow> ('g, 'h) mux \<Rightarrow> ('g, 'h) mux option" where
  "muxDial H e p =
     (if dial_gate e then map_option (\<lambda>d. p\<lparr>dl := d\<rparr>) (dial_step (hcause H p) e (dl p)) else None)"

definition muxWait ::
    "'h errgroup \<Rightarrow> select_case \<Rightarrow> go_error option \<Rightarrow> ('g, 'h) mux \<Rightarrow> go_error option option" where
  "muxWait H = handlerWait H errMuxStopRequested"

definition muxWaited ::
    "third_party \<Rightarrow> 'g errgroup \<Rightarrow> 'h errgroup \<Rightarrow> select_case \<Rightarrow> ('g, 'h) mux \<Rightarrow> ('g, 'h) mux option" where
  "muxWaited tp G H branch p =
     (case muxWait H branch None p of
        None \<Rightarrow> None
      | Some res \<Rightarrow> sessionStep tp G (EvHandlerWait res) p)"

section \<open>Steps\<close>

datatype 'g mux_event =
    MuStart "'g session \<Rightarrow> session_event list" "'g session \<Rightarrow> select_case" "'g session \<Rightarrow> go_error option"
      time bytes "go_error option"
  | MuStarted | MuPump pump_event | MuCleanup | MuDialReturn | MuDial dial_event | MuWaited select_case

fun mux_action ::
    "third_party \<Rightarrow> 'g errgroup \<Rightarrow> 'h errgroup \<Rightarrow> 'g mux_event \<Rightarrow> ('g, 'h) mux \<Rightarrow> ('g, 'h) mux option" where
  "mux_action tp G H (MuStart sched pick ctx now uid smuxErr) p = muxStart tp G sched pick ctx now uid smuxErr p"
| "mux_action tp G H MuStarted p = muxStarted tp G p"
| "mux_action tp G H (MuPump e) p = pump_step tp G H errMuxStopRequested e p"
| "mux_action tp G H MuCleanup p = muxCleanup H p"
| "mux_action tp G H MuDialReturn p = muxDialReturn H p"
| "mux_action tp G H (MuDial e) p = muxDial H e p"
| "mux_action tp G H (MuWaited b) p = muxWaited tp G H b p"

definition mux_step ::
    "third_party \<Rightarrow> 'g errgroup \<Rightarrow> 'h errgroup \<Rightarrow> 'g mux_event \<Rightarrow> ('g, 'h) mux \<Rightarrow> ('g, 'h) mux option" where
  "mux_step tp G H e p = (if rpc (rd (ssn p)) = RPanicked then None else mux_action tp G H e p)"

fun mux_run ::
    "third_party \<Rightarrow> 'g errgroup \<Rightarrow> 'h errgroup \<Rightarrow> 'g mux_event list \<Rightarrow> ('g, 'h) mux \<Rightarrow> ('g, 'h) mux option" where
  "mux_run tp G H [] p = Some p"
| "mux_run tp G H (e # es) p =
     (case mux_step tp G H e p of None \<Rightarrow> None | Some p \<Rightarrow> mux_run tp G H es p)"

inductive mux_trans ::
    "third_party \<Rightarrow> 'g errgroup \<Rightarrow> 'h errgroup \<Rightarrow> ('g, 'h) mux \<Rightarrow> ('g, 'h) mux \<Rightarrow> bool" for tp G H where
  mux_transI: "mux_step tp G H e p = Some q \<Longrightarrow> mux_trans tp G H p q"

inductive_cases mux_transE [consumes 1, case_names step]: "mux_trans tp G H p q"

definition mux_start :: "'g errgroup \<Rightarrow> 'h errgroup \<Rightarrow> ('g, 'h) mux \<Rightarrow> bool" where
  "mux_start G H p \<longleftrightarrow> p = mux_init G H"

abbreviation mux_reachable ::
    "third_party \<Rightarrow> 'g errgroup \<Rightarrow> 'h errgroup \<Rightarrow> ('g, 'h) mux \<Rightarrow> bool" where
  "mux_reachable tp G H \<equiv> reachable (mux_start G H) (mux_trans tp G H)"

lemma mux_run_reachable:
  "mux_reachable tp G H p \<Longrightarrow> mux_run tp G H es p = Some q \<Longrightarrow> mux_reachable tp G H q"
  by (induction es arbitrary: p)
    (auto split: option.splits intro: reach_step [of "mux_start G H" "mux_trans tp G H", OF _ mux_transI])

lemma mux_run_init: "mux_run tp G H es (mux_init G H) = Some q \<Longrightarrow> mux_reachable tp G H q"
  by (rule mux_run_reachable) (simp_all add: reach_init mux_start_def)

section \<open>Invariants\<close>

text \<open>What the handler has exchanged with the agent before it starts its goroutines.\<close>

definition shaken :: "agent_message list \<Rightarrow> agent_message list \<Rightarrow> string \<Rightarrow> bool" where
  "shaken got given version \<longleftrightarrow>
     (\<exists>junk1 request junk2 complete req resp now uid.
        got = junk1 @ [request] @ junk2 @ [complete]
        \<and> PayloadType request = HandshakeRequest \<and> PayloadType complete = HandshakeComplete
        \<and> UnmarshalHandshakeRequest (Payload request) = Inr req \<and> version = AgentVersion req
        \<and> NewHandshakeResponse now uid clientVersion (RequestedClientActions req) = Inr resp
        \<and> given = [resp])"

fun started_ok ::
    "go_error option option \<Rightarrow> thread \<Rightarrow> agent_message list \<Rightarrow> agent_message list \<Rightarrow> string \<Rightarrow> bool \<Rightarrow> bool" where
  "started_ok None t got given version noKeepAlive \<longleftrightarrow> t = NotStarted"
| "started_ok (Some None) t got given version noKeepAlive \<longleftrightarrow>
     t \<noteq> NotStarted \<and> shaken got given version \<and> SupportsVersion MuxSupported version
     \<and> noKeepAlive = SupportsVersion SmuxKeepAliveSupported version"
| "started_ok (Some (Some e)) t got given version noKeepAlive \<longleftrightarrow>
     t = NotStarted \<and> (errors_Is e ErrHandshakeFailed \<or> errors_Is e ErrRemoteVersionNotSupported
       \<or> errors_Is e ErrCreateSmuxClientFailed)"

lemma started_ok_thread:
  "started_ok r t got given v k \<Longrightarrow> (t = NotStarted \<longleftrightarrow> t' = NotStarted) \<Longrightarrow> started_ok r t' got given v k"
  by (cases "(r, t, got, given, v, k)" rule: started_ok.cases) auto

definition startup_inv :: "('g, 'h) mux \<Rightarrow> bool" where
  "startup_inv p \<longleftrightarrow>
     (startResult p = None \<longrightarrow> hRead (ssn p) = [] \<and> hWritten (ssn p) = [])
     \<and> started_ok (startResult p) (tOut p) (preRead p) (preGiven p) (remoteVersion p) (keepAliveDisabled p)"

definition accept_inv :: "('g, 'h) mux \<Rightarrow> bool" where
  "accept_inv p \<longleftrightarrow> dial_reachable (dl p) \<and> (tOut p = NotStarted \<longrightarrow> acceptor (dl p) = AOff)
     \<and> (tAux p = Running \<longrightarrow> acceptor (dl p) \<noteq> AOff)"

fun closed_by :: "mux_cleanup_pc \<Rightarrow> bool \<Rightarrow> bool \<Rightarrow> bool \<Rightarrow> bool" where
  "closed_by McWait sm dc cc \<longleftrightarrow> True"
| "closed_by McData sm dc cc \<longleftrightarrow> \<not> sm"
| "closed_by McClient sm dc cc \<longleftrightarrow> \<not> sm \<and> \<not> dc"
| "closed_by McSignal sm dc cc \<longleftrightarrow> \<not> sm \<and> \<not> dc \<and> \<not> cc"
| "closed_by McFinished sm dc cc \<longleftrightarrow> \<not> sm \<and> \<not> dc \<and> \<not> cc"

definition close_inv :: "('g, 'h) mux \<Rightarrow> bool" where
  "close_inv p \<longleftrightarrow>
     (tCleanup p = NotStarted \<longrightarrow> muxCleanupPc p = McWait)
     \<and> (tCleanup p = Finished \<longleftrightarrow> muxCleanupPc p = McFinished)
     \<and> closed_by (muxCleanupPc p) (smuxOpen p) (dataConnOpen p) (clientConnOpen p)"

definition mux_inv :: "third_party \<Rightarrow> 'g errgroup \<Rightarrow> 'h errgroup \<Rightarrow> ('g, 'h) mux \<Rightarrow> bool" where
  "mux_inv tp G H p \<longleftrightarrow>
     flow_inv tp G p \<and> group_inv H errMuxStopRequested p \<and> startup_inv p \<and> accept_inv p \<and> close_inv p"

lemma mux_fields:
  fixes p q :: "('g, 'h) mux"
  assumes "pumps.more p = pumps.more q"
  shows "dl p = dl q" "startResult p = startResult q" "remoteVersion p = remoteVersion q"
    "keepAliveDisabled p = keepAliveDisabled q" "muxCleanupPc p = muxCleanupPc q" "smuxOpen p = smuxOpen q"
    "dataConnOpen p = dataConnOpen q" "clientConnOpen p = clientConnOpen q"
  using assms by (cases p; cases q; simp)+

lemma mux_inv_own_frame:
  fixes p q :: "('g, 'h) mux"
  assumes "startup_inv p" "accept_inv p" "close_inv p" and "pumps.more q = pumps.more p"
    and "tOut q = NotStarted \<longleftrightarrow> tOut p = NotStarted" "tCleanup q = tCleanup p" "preRead q = preRead p"
    "preGiven q = preGiven p" "tAux q = tAux p"
    and "tOut p = NotStarted \<longrightarrow> hRead (ssn q) = hRead (ssn p) \<and> hWritten (ssn q) = hWritten (ssn p)"
  shows "startup_inv q" "accept_inv q" "close_inv q"
proof -
  note f = mux_fields [OF assms(4)]
  have "started_ok (startResult p) (tOut p) (preRead p) (preGiven p) (remoteVersion p) (keepAliveDisabled p)"
    using assms(1) by (simp add: startup_inv_def)
  from started_ok_thread [OF this assms(5) [symmetric]] this assms(1,10) show "startup_inv q"
    by (cases "startResult p") (simp_all add: startup_inv_def f assms(7,8))
  show "accept_inv q" "close_inv q"
    using assms(2,3,5,6,9) by (simp_all add: accept_inv_def close_inv_def f)
qed

lemma mux_inv_pump:
  assumes "errgroup_laws H" and "mux_inv tp G H p" and "alive (ssn p)"
    and "pump_step tp G H errMuxStopRequested e p = Some q"
  shows "mux_inv tp G H q"
proof -
  have inv: "flow_inv tp G p" "group_inv H errMuxStopRequested p" "startup_inv p" "accept_inv p" "close_inv p"
    using assms(2) by (simp_all add: mux_inv_def)
  note frame = pump_step_frame [OF assms(4)]
  have "tOut p = NotStarted \<longrightarrow> hRead (ssn q) = hRead (ssn p) \<and> hWritten (ssn q) = hWritten (ssn p)"
    using pump_step_unstarted [OF assms(4)] inv(1) by (simp add: flow_inv_def)
  from mux_inv_own_frame [OF inv(3-5) frame(3,4) frame(6) frame(1,2) frame(5) this] show ?thesis
    using flow_step [OF inv(1) assms(3,4)] group_step [OF assms(1) inv(2) assms(4)] by (simp add: mux_inv_def)
qed

lemma mux_inv_session:
  assumes "mux_inv tp G H p" and "sessionStep tp G e p = Some q" and "background e"
  shows "mux_inv tp G H q"
proof -
  have inv: "flow_inv tp G p" "group_inv H errMuxStopRequested p" "startup_inv p" "accept_inv p" "close_inv p"
    using assms(1) by (simp_all add: mux_inv_def)
  note step = flow_sessionStep [OF inv(1) assms(2,3)]
  have "tOut q = tOut p" "tCleanup q = tCleanup p" "tAux q = tAux p"
    using step(2) by (simp_all add: same_group_def)
  with mux_inv_own_frame [OF inv(3-5) step(3) _ _ step(4,5)] step(6,7) have "startup_inv q" "accept_inv q" "close_inv q"
    by simp_all
  with step(1) group_inv_same [OF inv(2) step(2)] show ?thesis
    by (simp add: mux_inv_def)
qed

lemma shakenI:
  assumes "PerformHandshake (sessionRead tp G sched pick ctx) (sessionWrite tp G sched pick ctx) now uid s
      = Some (Inr v, s')"
    and "sess_reachable tp G s \<and> distinct (hWritten s)" and "hRead s = []" and "hWritten s = []"
  shows "shaken (hRead s') (givenMessages s') v"
proof -
  have given: "givenMessages s = []"
    by (simp add: givenMessages_def assms(4))
  from reach.handshake_success_laws [OF assms(1,2)] show ?thesis
    unfolding shaken_def assms(3) given append_Nil by metis
qed

text \<open>The handler while \<^verbatim>\<open>Start\<close> runs, and the three ways out of it.\<close>

definition starting :: "third_party \<Rightarrow> 'g errgroup \<Rightarrow> 'h errgroup \<Rightarrow> ('g, 'h) mux \<Rightarrow> bool" where
  "starting tp G H p \<longleftrightarrow>
     flow_inv tp G p \<and> group_inv H errMuxStopRequested p \<and> accept_inv p
     \<and> tOut p = NotStarted \<and> tCleanup p = NotStarted \<and> tAux p = NotStarted
     \<and> muxCleanupPc p = McWait"

lemma mux_inv_failed:
  assumes "starting tp G H p" and "pumps.truncate q = pumps.truncate p" "dl q = dl p" "muxCleanupPc q = muxCleanupPc p"
    and "startResult q = Some (Some e)" and "errors_Is e ErrHandshakeFailed
      \<or> errors_Is e ErrRemoteVersionNotSupported \<or> errors_Is e ErrCreateSmuxClientFailed"
  shows "mux_inv tp G H q"
proof -
  have inv: "flow_inv tp G p" "group_inv H errMuxStopRequested p"
    using assms(1) by (simp_all add: starting_def)
  have same: "ssn q = ssn p" "hgrp q = hgrp p" "hstopped q = hstopped p" "tCleanup q = tCleanup p"
    "tListener q = tListener p" "tOut q = tOut p" "tIn q = tIn p" "tAux q = tAux p" "outc q = outc p"
    "inc q = inc p" "preRead q = preRead p" "preGiven q = preGiven p"
    using assms(2) by (simp_all add: pumps.defs)
  have "flow_inv tp G q"
    by (rule flow_frame [OF inv(1)]) (simp_all add: same)
  moreover have "group_inv H errMuxStopRequested q"
    by (rule group_inv_same [OF inv(2)]) (simp add: same same_group_def)
  moreover have "startup_inv q" "accept_inv q" "close_inv q"
    using assms(1,3-6) by (simp_all add: starting_def startup_inv_def accept_inv_def close_inv_def same)
  ultimately show ?thesis
    by (simp add: mux_inv_def)
qed

lemma mux_inv_setup:
  assumes "starting tp G H p" and "shaken (hRead (ssn p)) (givenMessages (ssn p)) version"
  shows "mux_inv tp G H (muxSetup version smuxErr (p\<lparr>remoteVersion := version\<rparr>))" (is "mux_inv tp G H ?q")
proof -
  consider (unsupported) "\<not> SupportsVersion MuxSupported version"
    | (no_client) err where "SupportsVersion MuxSupported version" "smuxErr = Some err"
    | (up) "SupportsVersion MuxSupported version" "smuxErr = None"
    by (cases smuxErr) auto
  then show ?thesis
  proof cases
    case unsupported
    then show ?thesis
      by (intro mux_inv_failed [OF assms(1), where e = "Errorf (''%w: '' @ version) [ErrRemoteVersionNotSupported]"])
        (simp_all add: muxSetup_def pumps.defs)
  next
    case (no_client err)
    then show ?thesis
      by (intro mux_inv_failed [OF assms(1), where e = "wrap2 ErrCreateSmuxClientFailed err"])
        (simp_all add: muxSetup_def Let_def pumps.defs)
  next
    case up
    define u where "u = p\<lparr>remoteVersion := version, keepAliveDisabled := SupportsVersion SmuxKeepAliveSupported version,
      dataConnOpen := True, clientConnOpen := True, smuxOpen := True, dl := (dl p)\<lparr>acceptor := AIdle\<rparr>,
      startResult := Some None\<rparr>"
    have q: "?q = startPumps u"
      using up by (simp add: muxSetup_def Let_def u_def)
    have same: "pumps.truncate u = pumps.truncate p" "tOut u = NotStarted"
      using assms(1) by (simp_all add: u_def starting_def pumps.defs)
    have "flow_inv tp G u" "group_inv H errMuxStopRequested u"
      using assms(1) by (auto simp: u_def starting_def same_group_def intro: flow_frame group_inv_same)
    then have "flow_inv tp G ?q" "group_inv H errMuxStopRequested ?q"
      unfolding q using same(2) by (simp_all add: flow_startPumps group_startPumps)
    moreover have step: "dial_step None DeStart (dl p) = Some (dl u)"
      using assms(1) by (simp add: starting_def accept_inv_def u_def)
    have "dial_reachable (dl u)"
      using assms(1) by (intro dial_reachable_step [OF _ step]) (simp add: starting_def accept_inv_def)
    then have "accept_inv ?q"
      by (simp add: q accept_inv_def startPumps_def) (simp add: u_def)
    moreover have "startup_inv ?q" "close_inv ?q"
      unfolding q using assms up(1) by (simp_all add: startup_inv_def close_inv_def startPumps_def u_def starting_def)
    ultimately show ?thesis
      by (simp add: mux_inv_def)
  qed
qed

lemma mux_inv_start:
  assumes "mux_inv tp G H p" and "muxStart tp G sched pick ctx now uid smuxErr p = Some q"
  shows "mux_inv tp G H q"
proof -
  let ?r = "sessionRead tp G (during_start sched) pick ctx" and ?w = "sessionWrite tp G (during_start sched) pick ctx"
  have inv: "flow_inv tp G p" "group_inv H errMuxStopRequested p" "startup_inv p" "accept_inv p" "close_inv p"
    using assms(1) by (simp_all add: mux_inv_def)
  from assms(2) obtain res s where fresh: "startResult p = None"
    and shake: "PerformHandshake ?r ?w now uid (ssn p) = Some (res, s)"
    by (auto simp: muxStart_def split: if_splits option.splits)
  define u where "u = p\<lparr>ssn := s, hstopped := (hstopped p \<or> handlerStopped s)\<rparr>"
  have q: "q = (case res of
      Inl err \<Rightarrow> u\<lparr>startResult := Some (Some (wrap2 ErrHandshakeFailed err))\<rparr>
    | Inr version \<Rightarrow> muxSetup version smuxErr (u\<lparr>remoteVersion := version\<rparr>))"
    using assms(2) shake by (auto simp: muxStart_def u_def Let_def split: if_splits sum.splits)
  have start: "tOut p = NotStarted" "hRead (ssn p) = []" "hWritten (ssn p) = []" "tCleanup p = NotStarted" "tAux p = NotStarted"
    using inv(2,3) fresh by (simp_all add: startup_inv_def group_inv_def)
  have valid: "sess_reachable tp G (ssn p) \<and> distinct (hWritten (ssn p))"
    using inv(1) by (simp add: flow_inv_def)
  have "flow_inv tp G u"
    using inv(1) start(1) reach.handshake_valid [OF shake valid] out_inv_init in_inv_init
    by (simp add: u_def flow_inv_def)
  moreover have "group_inv H errMuxStopRequested u"
    by (rule group_inv_same [OF inv(2)]) (simp add: u_def same_group_def)
  moreover have "accept_inv u" "muxCleanupPc u = McWait"
    using inv(4,5) start(4) by (simp_all add: u_def accept_inv_def close_inv_def)
  ultimately have starting: "starting tp G H u"
    using start by (simp add: starting_def u_def)
  show ?thesis
  proof (cases res)
    case (Inl err)
    with q show ?thesis
      by (intro mux_inv_failed [OF starting, where e = "wrap2 ErrHandshakeFailed err"]) (simp_all add: pumps.defs)
  next
    case (Inr version)
    have "shaken (hRead (ssn u)) (givenMessages (ssn u)) version"
      using shakenI [OF shake [unfolded Inr] valid start(2,3)] by (simp add: u_def)
    with q Inr mux_inv_setup [OF starting] show ?thesis
      by simp
  qed
qed

lemma mux_inv_cleanup:
  assumes "errgroup_laws H" and "mux_inv tp G H p" and "muxCleanup H p = Some q"
  shows "mux_inv tp G H q"
proof -
  have inv: "flow_inv tp G p" "group_inv H errMuxStopRequested p" "startup_inv p" "accept_inv p" "close_inv p"
    using assms(2) by (simp_all add: mux_inv_def)
  have run: "tCleanup p = Running"
    using assms(3) by (simp add: muxCleanup_def split: if_splits)
  show ?thesis
  proof (cases "muxCleanupPc p = McSignal")
    case True
    with assms(3) run have q: "q = hReturn H None (handlerStop (p\<lparr>muxCleanupPc := McFinished, tCleanup := Finished\<rparr>))"
      by (simp add: muxCleanup_def)
    have "group_inv H errMuxStopRequested q"
      by (rule group_inv_nil [OF assms(1) inv(2), where err = None]) (simp_all add: q hReturn_def handlerStop_def run)
    moreover have "flow_inv tp G q"
      by (rule flow_frame [OF inv(1)]) (simp_all add: q hReturn_def handlerStop_def)
    moreover have "startup_inv q" "accept_inv q" "close_inv q"
      using inv(3-5) True
      by (simp_all add: q hReturn_def handlerStop_def startup_inv_def accept_inv_def close_inv_def)
    ultimately show ?thesis
      by (simp add: mux_inv_def)
  next
    case False
    have own: "pumps.truncate q = pumps.truncate p" "dl q = dl p" "startResult q = startResult p"
      "remoteVersion q = remoteVersion p" "keepAliveDisabled q = keepAliveDisabled p"
      "closed_by (muxCleanupPc q) (smuxOpen q) (dataConnOpen q) (clientConnOpen q)" "muxCleanupPc q \<noteq> McFinished"
      using assms(3) inv(5) False run
      by (auto simp: muxCleanup_def pumps.defs close_inv_def split: if_splits mux_cleanup_pc.splits)
    then have same: "ssn q = ssn p" "hgrp q = hgrp p" "hstopped q = hstopped p" "tCleanup q = tCleanup p"
      "tListener q = tListener p" "tOut q = tOut p" "tIn q = tIn p" "tAux q = tAux p" "outc q = outc p"
      "inc q = inc p" "preRead q = preRead p" "preGiven q = preGiven p"
      by (simp_all add: pumps.defs)
    have "flow_inv tp G q"
      by (rule flow_frame [OF inv(1)]) (simp_all add: same)
    moreover have "group_inv H errMuxStopRequested q"
      by (rule group_inv_same [OF inv(2)]) (simp add: same same_group_def)
    moreover have "startup_inv q" "accept_inv q" "close_inv q"
      using inv(3-5) own run by (simp_all add: startup_inv_def accept_inv_def close_inv_def same)
    ultimately show ?thesis
      by (simp add: mux_inv_def)
  qed
qed

text \<open>Steps of the dialling.\<close>

lemma acceptor_off_stays:
  "dial_step cs e d = Some d' \<Longrightarrow> dial_gate e \<Longrightarrow> acceptor d' = AOff \<longleftrightarrow> acceptor d = AOff"
  by (cases e) (auto split: if_splits option.splits dial_pc.splits dial_helper_pc.splits acceptor_pc.splits sum.splits)

lemma mux_inv_dial:
  assumes "mux_inv tp G H p" and "muxDial H e p = Some q"
  shows "mux_inv tp G H q"
proof -
  have inv: "flow_inv tp G p" "group_inv H errMuxStopRequested p" "startup_inv p" "accept_inv p" "close_inv p"
    using assms(1) by (simp_all add: mux_inv_def)
  obtain d where d: "dial_step (hcause H p) e (dl p) = Some d" "dial_gate e" and q: "q = p\<lparr>dl := d\<rparr>"
    using assms(2) by (auto simp: muxDial_def split: if_splits)
  have "flow_inv tp G q"
    by (rule flow_frame [OF inv(1)]) (simp_all add: q)
  moreover have "group_inv H errMuxStopRequested q"
    by (rule group_inv_same [OF inv(2)]) (simp add: q same_group_def)
  moreover have "dial_reachable d"
    using inv(4) d(1) by (auto simp: accept_inv_def intro: dial_reachable_step)
  then have "accept_inv q"
    using inv(4) acceptor_off_stays [OF d] by (simp add: q accept_inv_def)
  moreover have "startup_inv q" "close_inv q"
    using inv(3,5) by (simp_all add: q startup_inv_def close_inv_def)
  ultimately show ?thesis
    by (simp add: mux_inv_def)
qed

lemma mux_inv_dialReturn:
  assumes "errgroup_laws H" and "mux_inv tp G H p" and "muxDialReturn H p = Some q"
  shows "mux_inv tp G H q"
proof -
  have inv: "flow_inv tp G p" "group_inv H errMuxStopRequested p" "startup_inv p" "accept_inv p" "close_inv p"
    using assms(2) by (simp_all add: mux_inv_def)
  obtain d where run: "tAux p = Running" and d: "dial_step (hcause H p) DeReturn (dl p) = Some d"
    and q: "q = hReturn H (hcause H p) (p\<lparr>dl := d, tAux := Finished\<rparr>)"
    using assms(3) by (auto simp: muxDialReturn_def split: if_splits)
  have cs: "hcause H p \<noteq> None"
    using d by (simp split: if_splits)
  have started: "tOut p \<noteq> NotStarted"
    using inv(2) run by (auto simp: group_inv_def)
  have "flow_inv tp G q"
    by (rule flow_frame [OF inv(1)]) (simp_all add: q hReturn_def)
  moreover have "group_inv H errMuxStopRequested q"
    by (rule group_inv_nil [OF assms(1) inv(2), where err = "hcause H p"])
      (use inv(2) cs run in \<open>simp_all add: q hReturn_def group_inv_def\<close>)
  moreover have "dial_reachable d"
    using inv(4) dial_reachable_step [OF _ d] by (simp add: accept_inv_def)
  then have "accept_inv q"
    using started by (simp add: q hReturn_def accept_inv_def)
  moreover have "startup_inv q" "close_inv q"
    using inv(3,5) by (simp_all add: q hReturn_def startup_inv_def close_inv_def)
  ultimately show ?thesis
    by (simp add: mux_inv_def)
qed

lemma mux_inv_step:
  assumes "errgroup_laws H" and "mux_inv tp G H p" and "mux_step tp G H e p = Some q"
  shows "mux_inv tp G H q"
proof -
  have alive: "alive (ssn p)" and act: "mux_action tp G H e p = Some q"
    using assms(3) by (simp_all add: mux_step_def alive_def split: if_splits)
  show ?thesis
  proof (cases e)
    case MuStarted
    with act obtain res where "sessionStep tp G (EvHandlerStart res) p = Some q"
      by (auto simp: muxStarted_def split: option.splits)
    with assms(2) show ?thesis
      by (rule mux_inv_session) simp
  next
    case (MuWaited b)
    with act obtain res where "sessionStep tp G (EvHandlerWait res) p = Some q"
      by (auto simp: muxWaited_def split: option.splits)
    with assms(2) show ?thesis
      by (rule mux_inv_session) simp
  next
    case (MuPump pe)
    with act mux_inv_pump [OF assms(1,2) alive] show ?thesis
      by simp
  next
    case (MuStart sched pick ctx now uid smuxErr)
    with act mux_inv_start [OF assms(2)] show ?thesis
      by simp
  next
    case MuCleanup
    with act mux_inv_cleanup [OF assms(1,2)] show ?thesis
      by simp
  next
    case (MuDial de)
    with act mux_inv_dial [OF assms(2)] show ?thesis
      by simp
  next
    case MuDialReturn
    with act mux_inv_dialReturn [OF assms(1,2)] show ?thesis
      by simp
  qed
qed

lemma mux_inv_init: "errgroup_laws H \<Longrightarrow> mux_inv tp G H (mux_init G H)"
  using errgroup_lawsD [of H]
  by (simp add: mux_inv_def mux_init_def pumps_init_def pumps.defs flow_inv_def group_inv_def startup_inv_def
      accept_inv_def close_inv_def out_inv_init in_inv_init reach_init session_start_def session_init_def
      dial_start_def) (simp add: dialing_init_def)

interpretation mx: inductive_invariant "mux_start G H" "mux_trans tp G H"
  "\<lambda>p. errgroup_laws H \<longrightarrow> mux_inv tp G H p" for tp G H
proof unfold_locales
  fix p q
  show "mux_start G H p \<Longrightarrow> errgroup_laws H \<longrightarrow> mux_inv tp G H p"
    by (simp add: mux_start_def mux_inv_init)
  assume "errgroup_laws H \<longrightarrow> mux_inv tp G H p" and "mux_trans tp G H p q"
  then show "errgroup_laws H \<longrightarrow> mux_inv tp G H q"
    by (auto elim!: mux_transE intro: mux_inv_step)
qed

lemma reachable_mux_inv:
  assumes "mux_reachable tp G H p" and "errgroup_laws H"
  shows "flow_inv tp G p" "group_inv H errMuxStopRequested p" "startup_inv p" "accept_inv p" "close_inv p"
  using mx.reachable_inv [OF assms(1)] assms(2) by (simp_all add: mux_inv_def)

end
