(* ===== verification/Mux_Spec.thy ===== *)
theory Mux_Spec
  imports Mux Handshake_Spec
begin

text \<open>
  What the port forwarding handler promises: its goroutines run only after a handshake with an
  agent that supports it, the tunnel carries the bytes of the session in order both ways, the
  handler can always end, and what \<^verbatim>\<open>Wait\<close> then returns.
\<close>

section \<open>A cancelled handler ends\<close>

text \<open>The ways out: as for the copy loops, and those of the cleanup goroutine and of the acceptor,
  whose pending \<^verbatim>\<open>OpenStream\<close> returns (with an error, as the smux session is closed).\<close>

definition mux_exits :: "'g mux_event set" where
  "mux_exits = {MuCleanup, MuDialReturn, MuDial (DeOpened (Some io_ErrClosedPipe)), MuDial DeReply, MuDial DeDefault}
     \<union> MuPump ` exit_events"

lemma mux_run_append:
  "mux_run tp G H es p = Some q \<Longrightarrow> mux_run tp G H es' q = Some r \<Longrightarrow> mux_run tp G H (es @ es') p = Some r"
  by (induction es arbitrary: p) (auto split: option.splits)

lemma mux_run_pumps:
  "pump_run tp G H errMuxStopRequested es p = Some q \<Longrightarrow> alive (ssn p) \<Longrightarrow> set es \<subseteq> exit_events \<Longrightarrow>
     mux_run tp G H (map MuPump es) p = Some q"
proof (induction es arbitrary: p)
  case (Cons e es)
  then obtain r where r: "pump_step tp G H errMuxStopRequested e p = Some r"
    "pump_run tp G H errMuxStopRequested es r = Some q"
    by (auto split: option.splits)
  with Cons.prems have "alive (ssn r)"
    by (auto intro: exit_alive)
  with Cons r show ?case
    by (simp add: mux_step_def alive_def)
qed simp

lemma mux_step_alive: "alive (ssn p) \<Longrightarrow> mux_step tp G H e p = mux_action tp G H e p"
  by (simp add: mux_step_def alive_def)

text \<open>The cleanup goroutine needs at most four steps.\<close>

fun cleanup_steps :: "mux_cleanup_pc \<Rightarrow> nat" where
  "cleanup_steps McWait = 4" | "cleanup_steps McData = 3" | "cleanup_steps McClient = 2"
| "cleanup_steps McSignal = 1" | "cleanup_steps McFinished = 0"

lemma mux_cleanup_ends:
  assumes "errgroup_laws H"
  shows "cancelled H p \<Longrightarrow> tCleanup p = Running \<Longrightarrow> muxCleanupPc p \<noteq> McFinished \<Longrightarrow>
    \<exists>q. mux_run tp G H (replicate (cleanup_steps (muxCleanupPc p)) MuCleanup) p = Some q \<and> cancelled H q
      \<and> hstopped q \<and> tCleanup q = Finished \<and> dl q = dl p \<and> tAux q = tAux p"
proof (induction "cleanup_steps (muxCleanupPc p)" arbitrary: p)
  case 0
  then show ?case
    by (cases "muxCleanupPc p") simp_all
next
  case (Suc n)
  then have alive: "alive (ssn p)"
    by (simp add: cancelled_def)
  show ?case
  proof (cases "muxCleanupPc p = McSignal")
    case True
    with Suc.prems show ?thesis
      by (auto simp: mux_step_alive [OF alive] muxCleanup_def hReturn_def handlerStop_def cancelled_def
          errgroup_lawsD [OF assms])
  next
    case False
    obtain p1 where p1: "muxCleanup H p = Some p1" "cleanup_steps (muxCleanupPc p1) = n" "cancelled H p1"
      "tCleanup p1 = Running" "muxCleanupPc p1 \<noteq> McFinished" "dl p1 = dl p" "tAux p1 = tAux p"
      using False Suc.prems Suc.hyps(2)
      by (cases "muxCleanupPc p") (auto simp: muxCleanup_def cancelled_def)
    from Suc.hyps(1) [OF p1(2) [symmetric] p1(3-5)] obtain q where
      "mux_run tp G H (replicate n MuCleanup) p1 = Some q" "cancelled H q" "hstopped q" "tCleanup q = Finished"
      "dl q = dl p" "tAux q = tAux p"
      using p1(2,6,7) by auto
    with p1(1) show ?thesis
      by (simp add: Suc.hyps(2) [symmetric] mux_step_alive [OF alive])
  qed
qed

text \<open>The acceptor needs at most three.\<close>

lemma acceptor_idles:
  assumes "acceptor d \<noteq> AOff" and "cs \<noteq> None"
  shows "\<exists>es d'. dial_run cs es d = Some d' \<and> length es \<le> 2
    \<and> set es \<subseteq> {DeOpened (Some io_ErrClosedPipe), DeReply, DeDefault} \<and> acceptor d' = AIdle"
proof -
  have reply: "\<exists>e d2. dial_run cs [e] d1 = Some d2 \<and> e \<in> {DeReply, DeDefault} \<and> acceptor d2 = AIdle"
    if "acceptor d1 = AReply n r" for d1 n r
    using that by (cases "helpers d1 n = HListen") (auto split: sum.splits intro: exI [of _ DeReply] exI [of _ DeDefault])
  show ?thesis
  proof (cases "acceptor d")
    case (AOpening n)
    let ?d1 = "d\<lparr>acceptor := AReply n (Inl io_ErrClosedPipe)\<rparr>"
    have "acceptor ?d1 = AReply n (Inl io_ErrClosedPipe)"
      by simp
    from reply [OF this] obtain e d2 where "dial_run cs [e] ?d1 = Some d2" "e \<in> {DeReply, DeDefault}" "acceptor d2 = AIdle"
      by blast
    then show ?thesis
      using AOpening by (intro exI [of _ "[DeOpened (Some io_ErrClosedPipe), e]"] exI [of _ d2]) auto
  next
    case (AReply n r)
    from reply [OF this] obtain e d2 where "dial_run cs [e] d = Some d2" "e \<in> {DeReply, DeDefault}" "acceptor d2 = AIdle"
      by blast
    then show ?thesis
      by (intro exI [of _ "[e]"] exI [of _ d2]) auto
  next
    case AIdle
    then show ?thesis
      by (intro exI [of _ "[]"]) simp
  qed (use assms in simp)
qed

lemma mux_run_dials:
  "dial_run (hcause H p) es (dl p) = Some d \<Longrightarrow> alive (ssn p) \<Longrightarrow> \<forall>e \<in> set es. dial_gate e \<Longrightarrow>
     mux_run tp G H (map MuDial es) p = Some (p\<lparr>dl := d\<rparr>)"
proof (induction es arbitrary: p)
  case (Cons e es)
  then obtain d1 where "dial_step (hcause H p) e (dl p) = Some d1" "dial_run (hcause H p) es d1 = Some d"
    by (auto split: option.splits)
  with Cons show ?case
    by (simp add: mux_step_alive muxDial_def)
qed simp

lemma mux_acceptor_ends:
  assumes "errgroup_laws H" and "cancelled H p" and "accept_inv p"
  shows "\<exists>es q. mux_run tp G H es p = Some q \<and> length es \<le> 3 \<and> set es \<subseteq> mux_exits
    \<and> tAux q \<noteq> Running \<and> cancelled H q \<and> tCleanup q = tCleanup p \<and> tListener q = tListener p \<and> tOut q = tOut p \<and> tIn q = tIn p"
proof (cases "tAux p = Running")
  case True
  have alive: "alive (ssn p)" and cs: "hcause H p \<noteq> None" and on: "acceptor (dl p) \<noteq> AOff"
    using assms(2,3) True by (simp_all add: cancelled_def accept_inv_def)
  from acceptor_idles [OF on cs] obtain es d where d: "dial_run (hcause H p) es (dl p) = Some d" "length es \<le> 2"
    "set es \<subseteq> {DeOpened (Some io_ErrClosedPipe), DeReply, DeDefault}" "acceptor d = AIdle"
    by blast
  have "mux_run tp G H (map MuDial es) p = Some (p\<lparr>dl := d\<rparr>)"
    using d(3) by (intro mux_run_dials [OF d(1) alive]) auto
  moreover define q where "q = hReturn H (hcause H p) (p\<lparr>dl := d\<lparr>acceptor := AOff\<rparr>, tAux := Finished\<rparr>)"
  have "mux_run tp G H [MuDialReturn] (p\<lparr>dl := d\<rparr>) = Some q"
    using d(4) cs True alive by (simp add: mux_step_def alive_def muxDialReturn_def q_def hReturn_def)
  ultimately have "mux_run tp G H (map MuDial es @ [MuDialReturn]) p = Some q"
    by (rule mux_run_append)
  moreover have "set (map MuDial es @ [MuDialReturn]) \<subseteq> mux_exits"
    using d(3) by (auto simp: mux_exits_def)
  moreover have "cancelled H q"
    using assms(2) cs by (auto simp: q_def cancelled_def hReturn_def errgroup_lawsD [OF assms(1)])
  ultimately show ?thesis
    using d(2) by (intro exI [of _ "map MuDial es @ [MuDialReturn]"] exI [of _ q]) (simp add: q_def hReturn_def)
next
  case False
  then show ?thesis
    using assms(2) by (intro exI [of _ "[]"] exI [of _ p]) simp
qed

lemma mux_can_end_run:
  assumes "mux_reachable tp G H p" and "errgroup_laws H" and "alive (ssn p)"
    and "tOut p \<noteq> NotStarted" and "hstopped p \<or> hcause H p \<noteq> None"
  shows "\<exists>es q. mux_run tp G H es p = Some q \<and> length es \<le> 13 \<and> set es \<subseteq> mux_exits
    \<and> hcause H q \<noteq> None \<and> pumpsReturned q"
proof -
  have pumps_exit: "set (map MuPump es) \<subseteq> mux_exits" if "set es \<subseteq> exit_events" for es
    using that by (auto simp: mux_exits_def)
  from pumps_get_cancelled [OF assms(2) reachable_mux_inv(2) [OF assms(1,2)] assms(3-5)] obtain es1 p1 where
    1: "pump_run tp G H errMuxStopRequested es1 p = Some p1" "length es1 \<le> 1" "set es1 \<subseteq> exit_events" "cancelled H p1"
    by blast
  note run1 = mux_run_pumps [OF 1(1) assms(3) 1(3)]
  note reach1 = mux_run_reachable [OF assms(1) run1]
  have "\<exists>es p2. mux_run tp G H es p1 = Some p2 \<and> length es \<le> 4 \<and> set es \<subseteq> mux_exits \<and> cancelled H p2
    \<and> hstopped p2 \<and> tCleanup p2 \<noteq> Running"
  proof (cases "tCleanup p1 = Running")
    case True
    have "muxCleanupPc p1 \<noteq> McFinished"
      using reachable_mux_inv(5) [OF reach1 assms(2)] True by (simp add: close_inv_def)
    from mux_cleanup_ends [OF assms(2) 1(4) True this] obtain p2 where
      "mux_run tp G H (replicate (cleanup_steps (muxCleanupPc p1)) MuCleanup) p1 = Some p2"
      "cancelled H p2" "hstopped p2" "tCleanup p2 = Finished"
      by blast
    moreover have "cleanup_steps (muxCleanupPc p1) \<le> 4"
      by (cases "muxCleanupPc p1") simp_all
    moreover have "set (replicate (cleanup_steps (muxCleanupPc p1)) MuCleanup) \<subseteq> mux_exits"
      by (auto simp: mux_exits_def)
    ultimately show ?thesis
      by (metis length_replicate thread.distinct(5))
  next
    case False
    have "hstopped p1"
      using reachable_mux_inv(2) [OF reach1 assms(2)] False 1(4)
      by (cases "tCleanup p1") (auto simp: group_inv_def cancelled_def)
    with False 1(4) show ?thesis
      by (intro exI [of _ "[]"] exI [of _ p1]) simp
  qed
  then obtain es2 p2 where 2: "mux_run tp G H es2 p1 = Some p2" "length es2 \<le> 4" "set es2 \<subseteq> mux_exits"
    "cancelled H p2" "hstopped p2" "tCleanup p2 \<noteq> Running"
    by blast
  from pumps_end [OF assms(2) 2(4,5)] obtain es3 p3 where
    3: "pump_run tp G H errMuxStopRequested es3 p2 = Some p3" "length es3 \<le> 5" "set es3 \<subseteq> exit_events"
      "tListener p3 \<noteq> Running" "tOut p3 \<noteq> Running" "tIn p3 \<noteq> Running" "same_rest p2 p3" "cancelled H p3"
    by blast
  have "alive (ssn p2)"
    using 2(4) by (simp add: cancelled_def)
  note run3 = mux_run_pumps [OF 3(1) this 3(3)]
  note reach3 = mux_run_reachable [OF mux_run_reachable [OF reach1 2(1)] run3]
  from mux_acceptor_ends [OF assms(2) 3(8) reachable_mux_inv(4) [OF reach3 assms(2)]] obtain es4 q where
    4: "mux_run tp G H es4 p3 = Some q" "length es4 \<le> 3" "set es4 \<subseteq> mux_exits" "tAux q \<noteq> Running" "cancelled H q"
      "tCleanup q = tCleanup p3" "tListener q = tListener p3" "tOut q = tOut p3" "tIn q = tIn p3"
    by blast
  have "pumpsReturned q" "hcause H q \<noteq> None"
    using 2(6) 3(4-7) 4(4-9) by (simp_all add: pumpsReturned_def same_rest_def cancelled_def)
  with mux_run_append [OF run1 mux_run_append [OF 2(1) mux_run_append [OF run3 4(1)]]] 1(2) 2(2,3) 3(2) 4(2,3)
    pumps_exit [OF 1(3)] pumps_exit [OF 3(3)] show ?thesis
    by (intro exI [of _ "map MuPump es1 @ es2 @ map MuPump es3 @ es4"] exI [of _ q]) simp
qed

section \<open>A sample run\<close>

text \<open>The agent sends its request, the completion and one byte; the user stops the handler.\<close>

definition agent_byte :: agent_message where
  "agent_byte = agent_received 2 Output ''x''"

definition mux_up :: "'g mux_event list" where
  "mux_up = map (MuPump \<circ> PuSession) ([EvDial None, EvOpen None None] @ agent_events
     @ map EvReader [CtxErr None, SocketRead (Inr (agent_frame 2 Output ''x'')), AckQueued 0 [], Accepted])"

lemma mux_up_run:
  "\<exists>p. mux_run sample_tp first_error_group first_error_group mux_up (mux_init first_error_group first_error_group) = Some p
    \<and> chan_buf (incomingDataMessages (ssn p)) = [request_msg, complete_msg, agent_byte]
    \<and> outgoingMessages (ssn p) = chan_make queueSize \<and> alive (ssn p) \<and> startPc (ssn p) = StStarting
    \<and> startResult p = None"
proof -
  have len: "length request_text < 2 ^ 32 - 120" "length ''{}'' < (2::nat) ^ 32 - 120" "length ''x'' < (2::nat) ^ 32 - 120"
    by (simp_all add: request_text_def)
  show ?thesis
    by (simp add: mux_up_def agent_events_def mux_step_def mux_init_def pumps_init_def pumps.defs sessionStep_def
        session_step_def session_init_def reader_init_def startDial_def startable_def startOpen_def openDataChannel_def
        readerStep_def ctxErr_def first_error_group_def handleRead_agent_frame [OF len(1)]
        handleRead_agent_frame [OF len(2)] handleRead_agent_frame [OF len(3)] handleMessage_data afterAck_def
        drainHead_def delivered_one_def drained_one_def chan_send_def queueSize_def maxOutOfOrderMessages_def
        request_msg_def complete_msg_def agent_byte_def alive_def Let_def)
qed

lemma supported_version: "SupportsVersion MuxSupported ''3.1.0.0''" "\<not> SupportsVersion SmuxKeepAliveSupported ''3.1.0.0''"
  by code_simp+

lemma during_start_nil [simp]: "during_start (\<lambda>_. []) = (\<lambda>_. [])"
  by (rule ext) (simp add: during_start_def)

lemma mux_started:
  obtains p where "mux_reachable sample_tp first_error_group first_error_group p" and "startResult p = Some None"
    and "chan_buf (incomingDataMessages (ssn p)) = [agent_byte]" and "alive (ssn p)" and "tOut p = Running"
    and "outc p = out_init" and "remoteVersion p = ''3.1.0.0''" and "startPc (ssn p) = StStarting"
proof -
  obtain p where p: "mux_run sample_tp first_error_group first_error_group mux_up
      (mux_init first_error_group first_error_group) = Some p"
    "chan_buf (incomingDataMessages (ssn p)) = [request_msg, complete_msg, agent_byte]"
    "outgoingMessages (ssn p) = chan_make queueSize" "alive (ssn p)" "startPc (ssn p) = StStarting" "startResult p = None"
    using mux_up_run by blast
  obtain s where s: "PerformHandshake quiet_read quiet_write 0 (replicate 16 0) (ssn p) = Some (Inr ''3.1.0.0'', s)"
    "chan_buf (incomingDataMessages s) = [agent_byte]" "alive s" "startPc s = StStarting"
    using sample_handshake [OF p(2-4)] p(5) by auto
  define q where "q = muxSetup ''3.1.0.0'' None (p\<lparr>ssn := s, hstopped := (hstopped p \<or> handlerStopped s),
    remoteVersion := ''3.1.0.0''\<rparr>)"
  have step: "mux_step sample_tp first_error_group first_error_group
      (MuStart (\<lambda>_. []) (\<lambda>_. OnChannel) (\<lambda>_. None) 0 (replicate 16 0) None) p = Some q"
    using p(4-6) s(1) by (simp add: mux_step_alive muxStart_def q_def Let_def)
  note reach = reach_step [of "mux_start first_error_group first_error_group", OF mux_run_init [OF p(1)] mux_transI [OF step]]
  have "outc p = out_init"
    using reachable_mux_inv(1,3) [OF mux_run_init [OF p(1)] first_error_group_laws] p(6)
    by (simp add: flow_inv_def startup_inv_def)
  then show thesis
    using reach s(2-4) supported_version by (intro that [of q]) (simp_all add: q_def muxSetup_def Let_def startPumps_def)
qed

text \<open>The byte goes through, then the handler is stopped.\<close>

lemma mux_traffic:
  obtains p where "mux_reachable sample_tp first_error_group first_error_group p" and "alive (ssn p)"
    and "tOut p = Running" and "map fst (oWrites (outc p)) = [bytes_of ''x'']" and "hstopped p"
proof -
  obtain p where p: "mux_reachable sample_tp first_error_group first_error_group p"
    "chan_buf (incomingDataMessages (ssn p)) = [agent_byte]" "alive (ssn p)" "tOut p = Running" "outc p = out_init"
    by (rule mux_started)
  have "\<exists>q. mux_run sample_tp first_error_group first_error_group
      (map MuPump [PuRead OnChannel, PuOut OHand, PuOut (OWritten None), PuStop]) p = Some q
    \<and> alive (ssn q) \<and> tOut q = Running \<and> map fst (oWrites (outc q)) = [bytes_of ''x''] \<and> hstopped q"
    using p(2-5) by (simp add: mux_step_def alive_def outRead_def Read_def chan_recv_def out_got_def out_init_def
        agent_byte_def outStep_def handlerStop_def)
  then obtain q where q: "mux_run sample_tp first_error_group first_error_group
      (map MuPump [PuRead OnChannel, PuOut OHand, PuOut (OWritten None), PuStop]) p = Some q"
    "alive (ssn q)" "tOut q = Running" "map fst (oWrites (outc q)) = [bytes_of ''x'']" "hstopped q"
    by (elim exE conjE)
  show thesis
    by (rule that [OF mux_run_reachable [OF p(1) q(1)] q(2-5)])
qed

section \<open>Properties\<close>

text \<open>C11: The goroutines of the handler run only if the handshake is complete and the
  agent supports multiplexing. In every reachable state in which
  \<^verbatim>\<open>Start\<close> has returned nil, all five are started, the messages read
  before the copy loops started end with the agent's handshake completion and contain its
  request, the one message written then was the response to it, the version it named is
  supported, and the keep-alives of smux are disabled exactly for the versions that answer them.
  If \<^verbatim>\<open>Start\<close> returned an error, none of the five was started, and the
  error says why.\<close>

theorem mux_start_checks:
  assumes "mux_reachable tp G H p" and "errgroup_laws H" and "startResult p = Some res"
  shows "(res = None \<longrightarrow> (\<forall>th \<in> {tCleanup p, tListener p, tOut p, tIn p, tAux p}. th \<noteq> NotStarted)
      \<and> shaken (preRead p) (preGiven p) (remoteVersion p)
      \<and> SupportsVersion MuxSupported (remoteVersion p)
      \<and> keepAliveDisabled p = SupportsVersion SmuxKeepAliveSupported (remoteVersion p))
    \<and> (\<forall>e. res = Some e \<longrightarrow> {tCleanup p, tListener p, tOut p, tIn p, tAux p} = {NotStarted}
      \<and> acceptor (dl p) = AOff \<and> (errors_Is e ErrHandshakeFailed
      \<or> errors_Is e ErrRemoteVersionNotSupported \<or> errors_Is e ErrCreateSmuxClientFailed))"
  using reachable_mux_inv(2-4) [OF assms(1,2)] assms(3)
  by (cases res) (simp_all add: startup_inv_def accept_inv_def group_inv_def)

theorem mux_start_checks_witness:
  "\<exists>p. mux_reachable sample_tp first_error_group first_error_group p \<and> startResult p = Some None
    \<and> shaken (preRead p) (preGiven p) ''3.1.0.0'' \<and> \<not> keepAliveDisabled p"
proof -
  obtain p where p: "mux_reachable sample_tp first_error_group first_error_group p" "startResult p = Some None"
    "remoteVersion p = ''3.1.0.0''"
    by (rule mux_started)
  from mux_start_checks [OF p(1) first_error_group_laws p(2)] p supported_version show ?thesis
    by auto
qed

text \<open>C20: The tunnel carries the bytes of the session in order and without loss. In every reachable
  state, what was written to the smux side of the pipe is, in order and but for at most the last
  one, the payloads of the output messages read after the handshake; and the payloads of the
  stream messages the session accepted are the non-empty results of the smux side, each as one
  message and in order, all but at most the last one, with none missing at the head of the copy
  loop nor after an end of the smux side. Nothing of the handshake gets into the tunnel.\<close>

theorem mux_tunnel_in_order:
  assumes "mux_reachable tp G H p" and "errgroup_laws H" and "tOut p \<noteq> NotStarted"
  shows "\<exists>got rest rest'. hRead (ssn p) = preRead p @ got \<and> shaken (preRead p) (preGiven p) (remoteVersion p)
    \<and> output_payloads got = map fst (oWrites (outc p)) @ rest \<and> length rest \<le> 1
    \<and> filter (\<lambda>d. d \<noteq> []) (iData (inc p))
        = map Payload (stream_messages (givenMessages (ssn p))) @ rest'
    \<and> length rest' \<le> 1 \<and> (ipc (inc p) = ISend \<longrightarrow> rest' = [])
    \<and> (\<forall>err. ipc (inc p) = IReturned (wrap2 ErrReadData err) \<longrightarrow> rest' = [])"
proof -
  have flow: "out_inv (outc p)" "in_inv (inc p)" "hRead (ssn p) = preRead p @ oGot (outc p)"
    "stream_messages (givenMessages (ssn p)) = stream_messages (preGiven p) @ iSent (inc p)"
    using reachable_mux_inv(1) [OF assms(1,2)] assms(3) by (simp_all add: flow_inv_def)
  have shaken: "shaken (preRead p) (preGiven p) (remoteVersion p)"
    using reachable_mux_inv(3) [OF assms(1,2)] assms(3)
    by (cases "(startResult p, tOut p, preRead p, preGiven p, remoteVersion p, keepAliveDisabled p)" rule: started_ok.cases)
      (simp_all add: startup_inv_def)
  then have "stream_messages (preGiven p) = []"
    by (auto simp: shaken_def NewHandshakeResponse_def go_consts)
  with flow(4) have given: "stream_messages (givenMessages (ssn p)) = iSent (inc p)"
    by simp
  obtain rest where "output_payloads (oGot (outc p)) = map fst (oWrites (outc p)) @ rest" "length rest \<le> 1"
    using out_inv_writes(1) [OF flow(1)] by blast
  with in_inv_data [OF flow(2)] show ?thesis
    using flow(3) shaken unfolding given by blast
qed

theorem mux_tunnel_in_order_witness:
  "\<exists>p got rest. mux_reachable sample_tp first_error_group first_error_group p
    \<and> hRead (ssn p) = preRead p @ got \<and> output_payloads got = [bytes_of ''x''] @ rest"
proof -
  obtain p where p: "mux_reachable sample_tp first_error_group first_error_group p" "tOut p = Running"
    "map fst (oWrites (outc p)) = [bytes_of ''x'']"
    by (rule mux_traffic)
  then have "tOut p \<noteq> NotStarted"
    by simp
  from mux_tunnel_in_order [OF p(1) first_error_group_laws this] p(1) show ?thesis
    unfolding p(3) by blast
qed

text \<open>C21: What \<^verbatim>\<open>Wait\<close> of the port forwarding handler says is what happened, and the end is orderly.
  When it returns because the handler has ended, all five goroutines have returned, the
  handler is stopped, the smux session and both ends of the pipe are closed; the result is nil
  exactly if \<^verbatim>\<open>Stop()\<close> came before any failure, and otherwise the error with which a copy loop
  ended.\<close>

theorem mux_wait_tells_why:
  assumes "mux_reachable tp G H p" and "errgroup_laws H" and "muxWait H OnGroup ctx p = Some res"
  shows "pumpsReturned p \<and> hstopped p \<and> \<not> smuxOpen p \<and> \<not> dataConnOpen p \<and> \<not> clientConnOpen p
    \<and> (res = None \<longleftrightarrow> hcause H p = Some errMuxStopRequested)
    \<and> (\<forall>e. res = Some e \<longrightarrow>
        opc (outc p) = OReturned e \<and> out_error e \<or> ipc (inc p) = IReturned e \<and> in_error e)"
proof -
  note inv = reachable_mux_inv [OF assms(1,2)]
  have ended: "pumpsReturned p \<and> hstopped p \<and> tCleanup p = Finished
    \<and> (res = None \<longleftrightarrow> hcause H p = Some errMuxStopRequested)
    \<and> (\<forall>e. res = Some e \<longrightarrow>
        opc (outc p) = OReturned e \<and> out_error e \<or> ipc (inc p) = IReturned e \<and> in_error e)"
    using handlerWait_ended [OF inv(1,2) assms(3) [unfolded muxWait_def]] .
  then have "muxCleanupPc p = McFinished"
    using inv(5) by (simp add: close_inv_def)
  with inv(5) have "\<not> smuxOpen p" "\<not> dataConnOpen p" "\<not> clientConnOpen p"
    by (simp_all add: close_inv_def)
  with ended show ?thesis
    by blast
qed

text \<open>A stopped port forwarding handler always ends. In every reachable state in which its
  goroutines were started and it has been stopped or its group is cancelled (and the process
  has not panicked), at most thirteen steps of its own goroutines lead to a state in which
  \<^verbatim>\<open>Wait\<close> returns; none of them is a step of the session or of the tunnel's other end, except
  that a pending \<^verbatim>\<open>OpenStream\<close> returns.\<close>

lemma mux_can_end:
  assumes "mux_reachable tp G H p" and "errgroup_laws H" and "rpc (rd (ssn p)) \<noteq> RPanicked"
    and "tOut p \<noteq> NotStarted" and "hstopped p \<or> hcause H p \<noteq> None"
  shows "\<exists>es q res. length es \<le> 13 \<and> set es \<subseteq> mux_exits \<and> mux_run tp G H es p = Some q
    \<and> muxWait H OnGroup ctx q = Some res"
proof -
  have "alive (ssn p)"
    using assms(3) by (simp add: alive_def)
  from mux_can_end_run [OF assms(1,2) this assms(4,5)] obtain es q where q: "mux_run tp G H es p = Some q"
    "length es \<le> 13" "set es \<subseteq> mux_exits" "hcause H q \<noteq> None" "pumpsReturned q"
    by blast
  then have "\<exists>res. muxWait H OnGroup ctx q = Some res"
    by (simp add: muxWait_def handlerWait_def)
  with q show ?thesis
    by blast
qed

theorem mux_wait_tells_why_witness:
  "\<exists>q res. mux_reachable sample_tp first_error_group first_error_group q
    \<and> muxWait first_error_group OnGroup None q = Some res \<and> pumpsReturned q \<and> \<not> smuxOpen q"
proof -
  obtain p where p: "mux_reachable sample_tp first_error_group first_error_group p" "alive (ssn p)" "tOut p = Running"
    "hstopped p"
    by (rule mux_traffic)
  then have "tOut p \<noteq> NotStarted" "hstopped p \<or> hcause first_error_group p \<noteq> None"
    by simp_all
  from mux_can_end_run [OF p(1) first_error_group_laws p(2) this] obtain es q where
    q: "mux_run sample_tp first_error_group first_error_group es p = Some q"
      "hcause first_error_group q \<noteq> None" "pumpsReturned q"
    by blast
  then have "\<exists>res. muxWait first_error_group OnGroup None q = Some res"
    by (simp add: muxWait_def handlerWait_def)
  with mux_wait_tells_why [OF mux_run_reachable [OF p(1) q(1)] first_error_group_laws]
    mux_run_reachable [OF p(1) q(1)] show ?thesis
    by blast
qed

end
