(* ===== verification/Mux_Session.thy ===== *)
theory Mux_Session
  imports Mux_Spec Pumps_Links
begin

text \<open>
  A session with the port forwarding handler, as a whole: it ends when it is stopped or when
  anything in it fails, and what \<^verbatim>\<open>Session.Wait\<close> then returns. The handler is shown to keep the
  contract of a handler (\<^theory_text>\<open>Session_Handler\<close>); its \<^verbatim>\<open>Start\<close> shakes hands over the session, so that
  the session moves while \<^verbatim>\<open>Start\<close> runs.
\<close>

section \<open>The handshake\<close>

definition moved_own :: "third_party \<Rightarrow> 'g errgroup \<Rightarrow> 'g session \<Rightarrow> 'g session \<Rightarrow> bool" where
  "moved_own tp G s0 s \<longleftrightarrow> sess_reachable tp G s \<and> distinct (hWritten s) \<and> (session_own tp G)\<^sup>*\<^sup>* s0 s"

lemma background_own:
  assumes "runBackground tp G (during_start sched) s = Some u"
  shows "alive u" "(session_own tp G)\<^sup>*\<^sup>* s u"
proof -
  show "alive u"
    using assms by (auto simp: runBackground_def split: option.splits if_splits)
  have "\<not> handler_returns e" if "\<not> handler_event e" for e
    using that by (cases e) simp_all
  then show "(session_own tp G)\<^sup>*\<^sup>* s u"
    by (intro runBackground_own [OF assms]) (simp add: during_start_def)
qed

interpretation own: session_reader_writer "sessionRead tp G (during_start sched) pick ctx"
  "sessionWrite tp G (during_start sched) pick ctx" hRead givenMessages "moved_own tp G s0" for tp G sched pick ctx s0
proof unfold_locales
  fix s r s' assume v: "moved_own tp G s0 s" and step: "sessionRead tp G (during_start sched) pick ctx s = Some (r, s')"
  then have valid: "sess_reachable tp G s \<and> distinct (hWritten s)"
    by (simp add: moved_own_def)
  show "givenMessages s' = givenMessages s" "hRead s' = hRead s @ (case r of Inr m \<Rightarrow> [m] | Inl _ \<Rightarrow> [])"
    by (rule reach.read_laws [OF valid step])+
  obtain u where u: "runBackground tp G (during_start sched) s = Some u" "Read G (pick u) (ctx u) u = Some (r, s')"
    using step by (auto simp: sessionRead_def split: option.splits)
  note B = background_own [OF u(1)]
  from B(2) Read_own(1) [OF u(2) B(1)] have "(session_own tp G)\<^sup>*\<^sup>* s s'"
    by (rule rtranclp.rtrancl_into_rtrancl)
  then show "moved_own tp G s0 s'"
    using v reach.read_valid [OF valid step] by (auto simp: moved_own_def)
next
  fix s m e s' assume v: "moved_own tp G s0 s" and step: "sessionWrite tp G (during_start sched) pick ctx m s = Some (e, s')"
  then have valid: "sess_reachable tp G s \<and> distinct (hWritten s)"
    by (simp add: moved_own_def)
  show "hRead s' = hRead s" "givenMessages s' = givenMessages s @ (if e = None then [m] else [])"
    by (rule reach.write_laws [OF valid step])+
  obtain u where u: "runBackground tp G (during_start sched) s = Some u" "handlerWrite G (pick u) (ctx u) m u = Some (e, s')"
    using step by (auto simp: sessionWrite_def handlerWrite_def split: option.splits)
  note B = background_own [OF u(1)]
  from B(2) handlerWrite_own(1) [OF u(2) B(1)] have "(session_own tp G)\<^sup>*\<^sup>* s s'"
    by (rule rtranclp_trans)
  then show "moved_own tp G s0 s'"
    using v reach.write_valid [OF valid step] by (auto simp: moved_own_def)
qed

section \<open>The links\<close>

lemma mux_run_steps: "run_steps (mux_step tp G H) es p = mux_run tp G H es p"
  by (induction es arbitrary: p) (auto split: option.splits)

lemma mux_trans_eq: "mux_trans tp G H = (\<lambda>p q. \<exists>e. mux_step tp G H e p = Some q)"
  by (intro ext) (simp add: mux_trans.simps)

lemma mux_step_action: "mux_step tp G H e p = Some q \<Longrightarrow> alive (ssn p) \<and> mux_action tp G H e p = Some q"
  by (simp add: mux_step_def alive_def split: if_splits)

lemma muxSetup_frame:
  "ssn (muxSetup version smuxErr p) = ssn p" "hstopped (muxSetup version smuxErr p) = hstopped p"
  "hgrp (muxSetup version smuxErr p) = hgrp p" "startResult (muxSetup version smuxErr p) \<noteq> None"
  by (simp_all add: muxSetup_def startPumps_def Let_def split: option.split)

lemma muxStart_own:
  assumes "flow_inv tp G p" and "muxStart tp G sched pick ctx now uid smuxErr p = Some q"
  shows "(session_own tp G)\<^sup>*\<^sup>* (ssn p) (ssn q)" "hstopped q = (hstopped p \<or> handlerStopped (ssn q))" "hgrp q = hgrp p"
    "startResult p = None"
proof -
  from assms(2) obtain res s where fresh: "startResult p = None"
    and shake: "PerformHandshake (sessionRead tp G (during_start sched) pick ctx)
        (sessionWrite tp G (during_start sched) pick ctx) now uid (ssn p) = Some (res, s)"
    and q: "ssn q = s" "hstopped q = (hstopped p \<or> handlerStopped s)" "hgrp q = hgrp p"
    by (auto simp: muxStart_def muxSetup_frame Let_def split: if_splits option.splits sum.splits)
  have "moved_own tp G (ssn p) (ssn p)"
    using assms(1) by (simp add: moved_own_def flow_inv_def)
  from own.handshake_valid [OF shake this] fresh q show "(session_own tp G)\<^sup>*\<^sup>* (ssn p) (ssn q)"
    "hstopped q = (hstopped p \<or> handlerStopped (ssn q))" "hgrp q = hgrp p" "startResult p = None"
    by (simp_all add: moved_own_def)
qed

text \<open>Every step moves the session by its own steps, or is a return of the handler to it.\<close>

lemma mux_step_moves:
  assumes "mux_step tp G H e p = Some q" and "flow_inv tp G p"
  obtains (own) "(session_own tp G)\<^sup>*\<^sup>* (ssn p) (ssn q)" "\<And>b. e \<noteq> MuWaited b" "e \<noteq> MuStarted"
  | (started) res where "e = MuStarted" "sessionStep tp G (EvHandlerStart res) p = Some q" "startResult p = Some res"
  | (waited) b res where "e = MuWaited b" "muxWait H b None p = Some res"
      "sessionStep tp G (EvHandlerWait res) p = Some q"
proof -
  note act = mux_step_action [OF assms(1)]
  show thesis
  proof (cases e)
    case MuStarted
    with act started show ?thesis
      by (auto simp: muxStarted_def split: option.splits)
  next
    case (MuWaited b)
    with act waited show ?thesis
      by (auto simp: muxWaited_def split: option.splits)
  next
    case (MuPump pe)
    with act pump_step_own [of tp G H errMuxStopRequested pe p q] own show ?thesis
      by auto
  next
    case (MuStart sched pick ctx now uid smuxErr)
    with act muxStart_own(1) [OF assms(2)] own show ?thesis
      by auto
  qed (use act own in \<open>auto simp: muxCleanup_def muxDialReturn_def muxDial_def handlerStop_def
      hReturn_def split: if_splits mux_cleanup_pc.splits\<close>)
qed

text \<open>If the session reports that the handler failed to start, it did, with that error.\<close>

definition mux_link :: "('g, 'h) mux \<Rightarrow> bool" where
  "mux_link p \<longleftrightarrow> link_inv p \<and> (\<forall>x. failError (ssn p) = Some x \<longrightarrow>
     (\<exists>e. startResult p = Some (Some e) \<and> x = Errorf ''handler failed to start: %w'' [e]))"

lemma startResult_session:
  fixes p q :: "('g, 'h) mux"
  assumes "sessionStep tp G e p = Some q"
  shows "startResult q = startResult p"
proof -
  have "pumps.more q = pumps.more p"
    by (rule sessionStepE [OF assms])
  from mux_fields(2) [OF this] show ?thesis .
qed

lemma startResult_stays:
  assumes "mux_step tp G H e p = Some q" and "startResult p = Some r"
  shows "startResult q = Some r"
proof -
  note act = mux_step_action [OF assms(1)]
  show ?thesis
  proof (cases e)
    case (MuPump pe)
    with act have "pump_step tp G H errMuxStopRequested pe p = Some q"
      by simp
    from mux_fields(2) [OF pump_step_frame(3) [OF this]] assms(2) show ?thesis
      by simp
  next
    case MuStarted
    with act obtain res where "sessionStep tp G (EvHandlerStart res) p = Some q"
      by (auto simp: muxStarted_def split: option.splits)
    from startResult_session [OF this] assms(2) show ?thesis
      by simp
  next
    case (MuWaited b)
    with act obtain res where "sessionStep tp G (EvHandlerWait res) p = Some q"
      by (auto simp: muxWaited_def split: option.splits)
    from startResult_session [OF this] assms(2) show ?thesis
      by simp
  qed (use act assms(2) in \<open>auto simp: muxStart_def muxCleanup_def muxDialReturn_def muxDial_def handlerStop_def
      hReturn_def split: if_splits mux_cleanup_pc.splits\<close>)
qed

lemma mux_link_step:
  assumes "mux_link p" and "mux_inv tp G H p" and "mux_step tp G H e p = Some q"
  shows "mux_link q"
proof -
  note act = mux_step_action [OF assms(3)]
  have link: "link_inv p" and flow: "flow_inv tp G p" and startup: "startup_inv p"
    using assms(1,2) by (simp_all add: mux_link_def mux_inv_def)
  have keep: ?thesis if "link_inv q" "failError (ssn q) = failError (ssn p)"
    using that assms(1) startResult_stays [OF assms(3)] by (fastforce simp: mux_link_def)
  from assms(3) flow show ?thesis
  proof (cases rule: mux_step_moves)
    case own
    have "link_inv q"
    proof (cases e)
      case (MuPump pe)
      with act link show ?thesis
        by (auto intro: link_step)
    next
      case (MuStart sched pick ctx now uid smuxErr)
      with act have start: "muxStart tp G sched pick ctx now uid smuxErr p = Some q"
        by simp
      note S = muxStart_own [OF flow start]
      have "tOut p = NotStarted"
        using startup S(4) by (simp add: startup_inv_def)
      with link S(2) own_spares_wait [OF own(1)] show ?thesis
        by (simp add: link_inv_def)
    qed (use act link own in \<open>auto simp: muxCleanup_def muxDialReturn_def muxDial_def handlerStop_def
        hReturn_def link_inv_def split: if_splits mux_cleanup_pc.splits\<close>)
    with own_spares_wait [OF own(1)] show ?thesis
      by (intro keep) simp_all
  next
    case (started res)
    have "res = None \<Longrightarrow> tOut p \<noteq> NotStarted"
      using startup started(3) by (simp add: startup_inv_def)
    then have "link_inv q"
      using link_sessionStep [OF link started(2)] by simp
    moreover obtain s where "session_step tp G (EvHandlerStart res) (ssn p) = Some s" "ssn q = s"
      by (rule sessionStepE [OF started(2)])
    then have "failError (ssn q) = failError (ssn p)
        \<or> (\<exists>x. res = Some x \<and> failError (ssn q) = Some (Errorf ''handler failed to start: %w'' [x]))"
      using session_step_latches(4) by blast
    ultimately show ?thesis
      using keep startResult_stays [OF assms(3) started(3)] by (auto simp: mux_link_def)
  next
    case (waited b res)
    obtain s where "session_step tp G (EvHandlerWait res) (ssn p) = Some s" "ssn q = s"
      by (rule sessionStepE [OF waited(3)])
    then have "failError (ssn q) = failError (ssn p)"
      using session_step_latches(4) by blast
    with link_sessionStep [OF link waited(3)] show ?thesis
      by (intro keep) simp_all
  qed
qed

lemma mux_link_init: "mux_link (mux_init G H)"
  by (simp add: mux_link_def link_inv_def mux_init_def pumps_init_def pumps.defs session_init_def)

interpretation mlink: inductive_invariant "mux_start G H" "mux_trans tp G H"
  "\<lambda>p. errgroup_laws H \<longrightarrow> mux_inv tp G H p \<and> mux_link p" for tp G H
proof unfold_locales
  fix p q
  show "mux_start G H p \<Longrightarrow> errgroup_laws H \<longrightarrow> mux_inv tp G H p \<and> mux_link p"
    by (simp add: mux_start_def mux_inv_init mux_link_init)
  assume "errgroup_laws H \<longrightarrow> mux_inv tp G H p \<and> mux_link p" and "mux_trans tp G H p q"
  then show "errgroup_laws H \<longrightarrow> mux_inv tp G H q \<and> mux_link q"
    by (auto elim!: mux_transE intro: mux_inv_step mux_link_step)
qed

section \<open>The contract of a handler\<close>

definition mux_failed :: "'h errgroup \<Rightarrow> go_error \<Rightarrow> ('g, 'h) mux \<Rightarrow> bool" where
  "mux_failed H x p \<longleftrightarrow> hcause H p = Some x \<and> x \<noteq> errMuxStopRequested"

abbreviation mux_valid :: "third_party \<Rightarrow> 'g errgroup \<Rightarrow> 'h errgroup \<Rightarrow> ('g, 'h) mux \<Rightarrow> bool" where
  "mux_valid tp G H p \<equiv> mux_reachable tp G H p \<and> errgroup_laws G \<and> errgroup_laws H"

lemma mux_validD:
  assumes "mux_valid tp G H p"
  shows "flow_inv tp G p" "group_inv H errMuxStopRequested p" "mux_link p" "life_inv G (ssn p)"
proof -
  show "flow_inv tp G p" "group_inv H errMuxStopRequested p"
    using reachable_mux_inv(1,2) assms by blast+
  then show "life_inv G (ssn p)"
    using assms by (auto simp: flow_inv_def intro: reachable_life)
  show "mux_link p"
    using mlink.reachable_inv assms by blast
qed

lemma mux_exit_keeps:
  assumes "e \<in> mux_exits" and "mux_step tp G H e p = Some q"
  shows "same_life (ssn p) (ssn q) \<and> rd (ssn q) = rd (ssn p)"
proof -
  note act = mux_step_action [OF assms(2)]
  show ?thesis
  proof (cases "\<exists>pe. e = MuPump pe")
    case True
    with assms(1) act show ?thesis
      by (auto simp: mux_exits_def dest: exit_keeps_life)
  next
    case False
    with assms(1) have "e \<in> {MuCleanup, MuDialReturn} \<or> (\<exists>de. e = MuDial de)"
      by (auto simp: mux_exits_def)
    with act have "ssn q = ssn p"
      by (auto simp: muxCleanup_def muxDialReturn_def muxDial_def handlerStop_def hReturn_def
          split: if_splits mux_cleanup_pc.splits)
    then show ?thesis
      by (simp add: same_life_def)
  qed
qed

lemma muxWait_result:
  assumes "muxWait H OnGroup None p = Some res" and "group_inv H errMuxStopRequested p"
  shows "(\<forall>x. res = Some x \<longrightarrow> mux_failed H x p) \<and> (\<forall>x. mux_failed H x p \<longrightarrow> res = Some x)"
  using assms by (auto simp: muxWait_def handlerWait_def waitResult_def mux_failed_def group_inv_def
      split: if_splits)

interpretation muxsys: session_handler tp G "mux_step tp G H" ssn "mux_valid tp G H" "MuPump \<circ> PuSession"
  mux_exits "MuWaited OnGroup" "\<lambda>p. hstopped p \<or> hcause H p \<noteq> None" "muxWait H OnGroup None" 13
  for tp G H
proof unfold_locales
  fix p q e se s res
  show "e \<in> mux_exits \<Longrightarrow> mux_step tp G H e p = Some q \<Longrightarrow>
      same_life (ssn p) (ssn q) \<and> rd (ssn q) = rd (ssn p)"
    by (rule mux_exit_keeps)
  assume valid: "mux_valid tp G H p"
  note inv = mux_validD [OF valid]
  have link: "link_inv p"
    using inv(3) by (simp add: mux_link_def)
  show "life_inv G (ssn p)"
    by (rule inv(4))
  show "mux_step tp G H e p = Some q \<Longrightarrow> mux_valid tp G H q"
    using valid by (auto intro: reach_step [of "mux_start G H"] mux_transI)
  show "\<exists>q. mux_step tp G H ((MuPump \<circ> PuSession) se) p = Some q \<and> ssn q = s"
    if "closing_event se" "session_step tp G se (ssn p) = Some s"
  proof -
    have "\<not> handler_event se" "rpc (rd (ssn p)) \<noteq> RPanicked"
      using that by (cases se; simp add: session_step_def split: if_splits)+
    with sessionStep_lift [OF that(2)] show ?thesis
      by (simp add: mux_step_def)
  qed
  show "handlerStopped (ssn p) \<Longrightarrow> hstopped p \<or> hcause H p \<noteq> None"
    using link by (simp add: link_inv_def)
  show "\<exists>es q. length es \<le> 13 \<and> set es \<subseteq> mux_exits \<and> run_steps (mux_step tp G H) es p = Some q
      \<and> muxWait H OnGroup None q \<noteq> None"
    if "hstopped p \<or> hcause H p \<noteq> None" "Session.handlerWait (ssn p) \<noteq> NotStarted" "alive (ssn p)"
  proof -
    have "tOut p \<noteq> NotStarted" "rpc (rd (ssn p)) \<noteq> RPanicked"
      using that link by (simp_all add: link_inv_def alive_def)
    with mux_can_end [where ctx = None] valid that(1) show ?thesis
      unfolding mux_run_steps by blast
  qed
  show "\<exists>q. mux_step tp G H (MuWaited OnGroup) p = Some q \<and> muxWait H OnGroup None q = Some res
      \<and> ssn q = goReturn G res ((ssn p)\<lparr>handlerWait := Finished\<rparr>)"
    if "muxWait H OnGroup None p = Some res" "Session.handlerWait (ssn p) = Running" "alive (ssn p)"
    using that by (auto simp: mux_step_def muxWaited_def sessionStep_def session_step_def alive_def
        handlerWaitStep_def handlerStop_def muxWait_def handlerWait_def pumpsReturned_def Let_def split: if_splits)
qed

lemma mux_failed_step:
  assumes "errgroup_laws H" and "flow_inv tp G p" and "mux_step tp G H e p = Some q" and "mux_failed H x p"
  shows "mux_failed H x q"
proof -
  note act = mux_step_action [OF assms(3)] and laws = errgroup_lawsD [OF assms(1)]
  have c: "hcause H p = Some x"
    using assms(4) by (simp add: mux_failed_def)
  have "hcause H q = Some x"
  proof (cases e)
    case (MuPump pe)
    with act c hcause_step [OF assms(1)] show ?thesis
      by auto
  next
    case MuStarted
    with act obtain res where "sessionStep tp G (EvHandlerStart res) p = Some q"
      by (auto simp: muxStarted_def split: option.splits)
    then show ?thesis
      by (rule sessionStepE) (use c in simp)
  next
    case (MuWaited b)
    with act obtain res where "sessionStep tp G (EvHandlerWait res) p = Some q"
      by (auto simp: muxWaited_def split: option.splits)
    then show ?thesis
      by (rule sessionStepE) (use c in simp)
  next
    case (MuStart sched pick ctx now uid smuxErr)
    with act have "hgrp q = hgrp p"
      by (auto dest: muxStart_own(3) [OF assms(2)])
    with c show ?thesis
      by simp
  qed (use act c in \<open>auto simp: muxCleanup_def muxDialReturn_def muxDial_def handlerStop_def hReturn_def laws
      split: if_splits mux_cleanup_pc.splits\<close>)
  with assms(4) show ?thesis
    by (simp add: mux_failed_def)
qed

interpretation muxsys: session_outcome tp G "mux_step tp G H" ssn "mux_valid tp G H" "MuPump \<circ> PuSession"
  mux_exits "MuWaited OnGroup" "\<lambda>p. hstopped p \<or> hcause H p \<noteq> None" "muxWait H OnGroup None" 13
  "\<lambda>p. mux_start G H p \<and> errgroup_laws G \<and> errgroup_laws H" "mux_failed H"
  for tp G H
proof unfold_locales
  fix p q e x res
  show "mux_start G H p \<and> errgroup_laws G \<and> errgroup_laws H \<Longrightarrow> mux_valid tp G H p"
    by (simp add: reach_init)
  show "mux_start G H p \<and> errgroup_laws G \<and> errgroup_laws H \<Longrightarrow> cause G (ssn p) = None"
    by (simp add: mux_start_def mux_init_def pumps_init_def pumps.defs session_init_def errgroup_lawsD)
  show "mux_failed H x p \<Longrightarrow> hstopped p \<or> hcause H p \<noteq> None"
    by (simp add: mux_failed_def)
  assume valid: "mux_valid tp G H p"
  note inv = mux_validD [OF valid]
  show "errgroup_laws G"
    using valid by blast
  show "mux_failed H x p \<Longrightarrow> muxWait H OnGroup None p = Some res \<Longrightarrow> res = Some x"
    using muxWait_result [OF _ inv(2)] by blast
  assume step: "mux_step tp G H e p = Some q"
  show stays: "mux_failed H x p \<Longrightarrow> mux_failed H x q" for x
    using mux_failed_step [OF _ inv(1) step] valid by blast
  from step inv(1) show "(session_own tp G)\<^sup>*\<^sup>* (ssn p) (ssn q)
      \<or> (\<exists>res. session_step tp G (EvHandlerStart res) (ssn p) = Some (ssn q))
      \<or> (\<exists>res. session_step tp G (EvHandlerWait res) (ssn p) = Some (ssn q) \<and> (\<forall>x. res = Some x \<longrightarrow> mux_failed H x q))"
  proof (cases rule: mux_step_moves)
    case (started res)
    then show ?thesis
      by (auto elim: sessionStepE)
  next
    case (waited b res)
    have "b = OnGroup"
      using waited(2) by (cases b) (simp_all add: muxWait_def handlerWait_def)
    with waited(2) muxWait_result [OF _ inv(2)] stays have "\<forall>x. res = Some x \<longrightarrow> mux_failed H x q"
      by blast
    moreover have "session_step tp G (EvHandlerWait res) (ssn p) = Some (ssn q)"
      using waited(3) by (auto elim: sessionStepE)
    ultimately show ?thesis
      by blast
  qed blast
qed

section \<open>A sample run\<close>

text \<open>The session sees \<^verbatim>\<open>Start\<close> return, and is then stopped by its user.\<close>

lemma mux_session_up:
  obtains p where "mux_reachable sample_tp first_error_group first_error_group p" and "startPc (ssn p) = StReturned None"
    and "rpc (rd (ssn p)) \<noteq> RPanicked" and "stopped (ssn p)"
proof -
  obtain p where p: "mux_reachable sample_tp first_error_group first_error_group p" "startResult p = Some None"
    "alive (ssn p)" "startPc (ssn p) = StStarting"
    by (rule mux_started)
  have "\<exists>q. mux_run sample_tp first_error_group first_error_group
      [MuStarted, MuPump (PuSession (EvStop 0 [])), MuPump (PuSession EvStopReturn)] p = Some q
    \<and> startPc (ssn q) = StReturned None \<and> rpc (rd (ssn q)) \<noteq> RPanicked \<and> stopped (ssn q)"
    using p(2-4) by (auto simp: mux_step_def alive_def muxStarted_def sessionStep_def session_step_def startHandler_def
        handlerStop_def Stop_def stopReturn_def signalStop_def Let_def split: option.splits)
  then obtain q where q: "mux_run sample_tp first_error_group first_error_group
      [MuStarted, MuPump (PuSession (EvStop 0 [])), MuPump (PuSession EvStopReturn)] p = Some q"
    "startPc (ssn q) = StReturned None" "rpc (rd (ssn q)) \<noteq> RPanicked" "stopped (ssn q)"
    by blast
  show thesis
    by (rule that [OF mux_run_reachable [OF p(1) q(1)] q(2-4)])
qed

section \<open>Properties\<close>

text \<open>C12: A session with the port forwarding handler ends. In every reachable state in which
  \<^verbatim>\<open>Start\<close> has returned nil (and the process has not panicked), once \<^verbatim>\<open>Stop\<close> has taken effect, the
  session has been cancelled or the handler has failed while the session waits for it, at most
  43 steps of the session's and the handler's goroutines lead to a state in which \<^verbatim>\<open>Wait\<close> of both
  returns. None of them is data from the socket or from the tunnel's other end.\<close>

theorem mux_session_ends:
  assumes "mux_reachable tp G H p" and "errgroup_laws G" and "errgroup_laws H"
    and "startPc (ssn p) = StReturned None" and "rpc (rd (ssn p)) \<noteq> RPanicked"
    and "stopped (ssn p) \<or> cause G (ssn p) \<noteq> None
      \<or> Session.handlerWait (ssn p) = Running \<and> mux_failed H x p"
  shows "\<exists>es q res. length es \<le> 43
    \<and> set es \<subseteq> {MuPump (PuSession e) | e. closing_event e} \<union> mux_exits \<union> {MuWaited OnGroup}
    \<and> mux_run tp G H es p = Some q
    \<and> muxWait H OnGroup None q \<noteq> None \<and> Wait G OnGroup ctx (ssn q) = Some res"
proof -
  have valid: "mux_valid tp G H p"
    using assms(1-3) by blast
  have "Session.handlerWait (ssn p) \<noteq> NotStarted"
    using mux_validD(4) [OF valid] assms(4) by (simp add: life_inv_def start_inv_def)
  moreover have "muxsys.going G H p"
    using assms(6) unfolding muxsys.going_def by blast
  moreover have "alive (ssn p)"
    using assms(5) by (simp add: alive_def)
  ultimately obtain es q res where q: "length es \<le> 2 * 13 + 17"
    "set es \<subseteq> (MuPump \<circ> PuSession) ` {e. closing_event e} \<union> mux_exits \<union> {MuWaited OnGroup}"
    "run_steps (mux_step tp G H) es p = Some q" "muxWait H OnGroup None q \<noteq> None"
    "Wait G OnGroup ctx (ssn q) = Some res"
    using muxsys.going_ends [OF valid] by blast
  have lifted: "(MuPump \<circ> PuSession) ` {e. closing_event e} = {MuPump (PuSession e) | e. closing_event e}"
    by auto
  from q [unfolded lifted] show ?thesis
    unfolding mux_run_steps by (intro exI [of _ es] exI [of _ q] exI [of _ res]) simp
qed

theorem mux_session_ends_witness:
  "\<exists>p es q res. mux_reachable sample_tp first_error_group first_error_group p \<and> length es \<le> 43
    \<and> mux_run sample_tp first_error_group first_error_group es p = Some q
    \<and> Wait first_error_group OnGroup None (ssn q) = Some res"
proof -
  obtain p where p: "mux_reachable sample_tp first_error_group first_error_group p"
    "startPc (ssn p) = StReturned None" "rpc (rd (ssn p)) \<noteq> RPanicked" "stopped (ssn p)"
    by (rule mux_session_up)
  from p(4) have "stopped (ssn p) \<or> cause first_error_group (ssn p) \<noteq> None
      \<or> Session.handlerWait (ssn p) = Running \<and> mux_failed first_error_group errMuxStopRequested p"
    by blast
  from mux_session_ends [OF p(1) first_error_group_laws first_error_group_laws p(2,3) this, of None] p(1)
  show ?thesis
    by blast
qed

text \<open>C13: What \<^verbatim>\<open>Session.Wait\<close> of a session with the port forwarding handler says is what happened.
  When it returns because the session has ended, the result is nil exactly if the first error
  was that of a requested stop; any other result is the error with which the receiver, the
  sender or a copy loop ended, or says that the handler failed to start and why: the
  handshake, the agent's version or smux.\<close>

theorem mux_session_tells_why:
  assumes "mux_reachable tp G H p" and "errgroup_laws G" and "errgroup_laws H"
    and "Wait G OnGroup ctx (ssn p) = Some res"
  shows "(res = None \<longleftrightarrow> cause G (ssn p) = Some errSessionStopRequested)
    \<and> (\<forall>x. res = Some x \<longrightarrow>
        rpc (rd (ssn p)) = RReturned x \<or> wreturned (wrt (ssn p)) = Some x
        \<or> opc (outc p) = OReturned x \<and> out_error x \<or> ipc (inc p) = IReturned x \<and> in_error x
        \<or> (\<exists>e. startResult p = Some (Some e) \<and> x = Errorf ''handler failed to start: %w'' [e]
            \<and> (errors_Is e ErrHandshakeFailed \<or> errors_Is e ErrRemoteVersionNotSupported
              \<or> errors_Is e ErrCreateSmuxClientFailed)))"
proof -
  have reach: "reachable (\<lambda>p. mux_start G H p \<and> errgroup_laws G \<and> errgroup_laws H)
      (\<lambda>p q. \<exists>e. mux_step tp G H e p = Some q) p"
    using assms(1-3) by (simp add: mux_trans_eq)
  have valid: "mux_valid tp G H p"
    using assms(1-3) by blast
  note inv = mux_validD [OF valid]
  have failed: "opc (outc p) = OReturned x \<and> out_error x \<or> ipc (inc p) = IReturned x \<and> in_error x"
    if "mux_failed H x p" for x
    using that inv(1,2) by (auto simp: mux_failed_def group_inv_def flow_inv_def out_inv_def in_inv_def)
  have start: "\<exists>e. startResult p = Some (Some e) \<and> x = Errorf ''handler failed to start: %w'' [e]
      \<and> (errors_Is e ErrHandshakeFailed \<or> errors_Is e ErrRemoteVersionNotSupported
        \<or> errors_Is e ErrCreateSmuxClientFailed)" if "failError (ssn p) = Some x" for x
    using that inv(3) reachable_mux_inv(3) [OF assms(1,3)] by (fastforce simp: mux_link_def startup_inv_def)
  from muxsys.reported [OF reach assms(4)] failed start show ?thesis
    unfolding own_error_def by blast
qed

theorem mux_session_tells_why_witness:
  "\<exists>q res. mux_reachable sample_tp first_error_group first_error_group q
    \<and> Wait first_error_group OnGroup None (ssn q) = Some res
    \<and> (res = None \<longleftrightarrow> cause first_error_group (ssn q) = Some errSessionStopRequested)"
proof -
  obtain p where p: "mux_reachable sample_tp first_error_group first_error_group p"
    "startPc (ssn p) = StReturned None" "rpc (rd (ssn p)) \<noteq> RPanicked" "stopped (ssn p)"
    by (rule mux_session_up)
  have valid: "mux_valid sample_tp first_error_group first_error_group p"
    using p(1) first_error_group_laws by blast
  have "Session.handlerWait (ssn p) \<noteq> NotStarted" "alive (ssn p)"
    using mux_validD(4) [OF valid] p(2,3) by (simp_all add: life_inv_def start_inv_def alive_def)
  with muxsys.system_ends [OF first_error_group_laws valid, of None] p(4) obtain es q res where
    q: "run_steps (mux_step sample_tp first_error_group first_error_group) es p = Some q"
      "Wait first_error_group OnGroup None (ssn q) = Some res"
    by blast
  note reach = mux_run_reachable [OF p(1) q(1) [unfolded mux_run_steps]]
  from mux_session_tells_why [OF reach first_error_group_laws first_error_group_laws q(2)] reach q(2) show ?thesis
    by blast
qed

end
