(* ===== verification/Spec2Isabelle.thy ===== *)
theory Spec2Isabelle
  imports Version Handshake_Spec Session_Defaults Message_Text Stream_Session Mux_Session
begin

text \<open>
  A model of ssmlib, a Go library that speaks the protocol of AWS Systems Manager sessions: it
  opens a websocket to the service, runs a sequenced and acknowledged message stream over it,
  and hands the stream to a handler (an interactive shell, or multiplexed port forwarding).

  \<^bold>\<open>Parts of the program and their theories.\<close>

  \<^item> \<^theory_text>\<open>Ssm_Prelude\<close>: words, bytes and strings as Go has them, the errors of all packages as one
    datatype with \<^verbatim>\<open>errors.Is\<close>, the reachable states of a step relation, and the locale
    \<open>inductive_invariant\<close>, interpreted once for each machine. \<^theory_text>\<open>Go_Strconv\<close>, \<^theory_text>\<open>Go_Bytes\<close>, \<^theory_text>\<open>Go_Json\<close>, \<^theory_text>\<open>Sha256\<close>, \<^theory_text>\<open>Go_Chan\<close>, \<^theory_text>\<open>Go_Map\<close>:
    what the code uses of the standard library (\<^verbatim>\<open>strconv.Atoi\<close>, \<^verbatim>\<open>strings.Split\<close>, big-endian
    integers, trimming, \<^verbatim>\<open>encoding/json\<close>, SHA-256, channels as bounded queues, maps), in full.
    \<^theory_text>\<open>Go_Errgroup\<close>: the third-party errgroup as a record of operations with its documented laws.
  \<^item> \<^theory_text>\<open>Version\<close> (\<^verbatim>\<open>version/version.go\<close>): \<^verbatim>\<open>SupportsVersion\<close> on strings.
  \<^item> \<^theory_text>\<open>Message_Types\<close>, \<^theory_text>\<open>Agent_Message\<close>, \<^theory_text>\<open>Message_Payloads\<close> (\<^verbatim>\<open>messages/types.go\<close>,
    \<^verbatim>\<open>messages/message.go\<close>): constants, the binary codec with its bounds checks and the run-time
    panic of a slice expression, the constructors and the JSON payloads.
  \<^item> \<^theory_text>\<open>Session_Reader\<close> (\<^verbatim>\<open>handleIncomingMessages\<close>), \<^theory_text>\<open>Session_Writer\<close> (\<^verbatim>\<open>handleOutgoingMessages\<close>),
    both in \<^verbatim>\<open>session.go\<close>: one goroutine each, as a machine whose steps are the answers of the
    socket, the clock, the channels and the context. Messages the sender keeps are addresses in
    a heap, since the code keeps the caller's pointers.
  \<^item> \<^theory_text>\<open>Session\<close>, \<^theory_text>\<open>Session_Flow\<close>, \<^theory_text>\<open>Session_Shutdown\<close>, \<^theory_text>\<open>Session_Spec\<close> (\<^verbatim>\<open>session.go\<close>): the whole
    session, with the goroutines of \<^verbatim>\<open>Start\<close>, the four channels between them, \<^verbatim>\<open>Stop\<close>, \<^verbatim>\<open>Wait\<close>, \<^verbatim>\<open>Read\<close>
    and \<^verbatim>\<open>Write\<close>; its flow control, the way down of a cancelled session, and the promises of a
    session. \<^theory_text>\<open>Session_Defaults\<close>: \<^verbatim>\<open>init\<close>
    with the default handler, dialer and logger (\<^verbatim>\<open>handler/discardLogger.go\<close>). \<^theory_text>\<open>Message_Text\<close>:
    \<^verbatim>\<open>AgentMessage.String\<close> and the payload structs that no code uses.
  \<^item> \<^theory_text>\<open>Handler_Interface\<close> (\<^verbatim>\<open>handler/session.go\<close>, \<^verbatim>\<open>handler.go\<close>): the interface between session and
    handler as a locale, interpreted on the session model; \<^verbatim>\<open>NopHandler\<close>.
  \<^item> \<^theory_text>\<open>Handshake\<close>, \<^theory_text>\<open>Handshake_Spec\<close> (\<^verbatim>\<open>handler/handshake.go\<close>): \<^verbatim>\<open>PerformHandshake\<close> over the interface.
  \<^item> \<^theory_text>\<open>Handler_Copy\<close> (\<^verbatim>\<open>handler/misc.go\<close>): the two copy loops with their helper goroutines, and
    \<^verbatim>\<open>SetTerminalSize\<close>.
  \<^item> \<^theory_text>\<open>Handler_Pumps\<close>: what the two data handlers share, that is both copy loops against a whole
    session, the stop listener, \<^verbatim>\<open>Stop\<close> and \<^verbatim>\<open>Wait\<close>. \<^theory_text>\<open>Stream\<close>, \<^theory_text>\<open>Stream_Spec\<close>
    (\<^verbatim>\<open>handler/stream.go\<close>, \<^verbatim>\<open>handler/termsize.go\<close>) and \<^theory_text>\<open>Mux\<close>, \<^theory_text>\<open>Mux_Spec\<close>
    (\<^verbatim>\<open>handler/muxPortForward.go\<close>) extend it. \<^theory_text>\<open>Mux_Dial\<close>: \<^verbatim>\<open>Dial\<close> and \<^verbatim>\<open>handleDialRequests\<close>.
  \<^item> \<^theory_text>\<open>Session_Handler\<close>: the interface \<^verbatim>\<open>Handler\<close> (\<^verbatim>\<open>handler.go\<close>) from the side of the session, as two
    locales on a system of session and handler: what a handler must do so that the whole ends
    (\<open>session_handler\<close>), and so that \<^verbatim>\<open>Session.Wait\<close> says why (\<open>session_outcome\<close>). They are interpreted
    for all three handlers of the library: \<^theory_text>\<open>Nop_Session\<close> (\<^verbatim>\<open>NopHandler\<close>), \<^theory_text>\<open>Stream_Session\<close> and
    \<^theory_text>\<open>Mux_Session\<close>, the latter two with the shared \<^theory_text>\<open>Pumps_Links\<close>.

  \<^bold>\<open>How the parts interact.\<close> The receiver feeds \<^verbatim>\<open>ackReceived\<close> and \<^verbatim>\<open>outgoingControlMessages\<close>, which
  the sender drains, and \<^verbatim>\<open>incomingDataMessages\<close>, which \<^verbatim>\<open>Read\<close> drains; \<^verbatim>\<open>Write\<close> feeds
  \<^verbatim>\<open>outgoingMessages\<close>. An errgroup ends all goroutines with the first error of one. In the state
  of a handler the session is a field (\<open>ssn\<close>), and the handler's goroutines act on it through
  \<^verbatim>\<open>Read\<close> and \<^verbatim>\<open>Write\<close>; the cleanup of the session stops the handler, and the end of the handler
  is an event of the session.

  \<^bold>\<open>Concurrency.\<close> A goroutine is a program counter with its local state; one step is one action up
  to the next point where it can block or be observed, and any step that is enabled may be
  taken, so a property of the reachable states holds for every schedule. A communication on an
  unbuffered channel is one step of both sides. Histories (fields \<open>hIn\<close>, \<open>hSent\<close>, \<open>oWrites\<close>
  and so on) record what went over an interface; no step depends on them.

  \<^bold>\<open>What is shown.\<close> The codec: round trips, soundness of decoding, when it
  panics. Receiver: delivery in order without gap or repetition, exact acknowledgements, repair of
  reordering. Sender: order and numbering, identical retransmissions, the window, the ticker.
  Session: these from method to socket in every reachable state, flow control (how far
  \<^verbatim>\<open>Write\<close> gets ahead of the remote's acknowledgements, and these ahead of
  \<^verbatim>\<open>Read\<close>), complete shutdown, the ability to end from every cancelled
  state, and that all it takes in is well formed. Handlers: data end to end in both directions,
  handshake and version checks before the tunnel starts, what \<^verbatim>\<open>Wait\<close>
  reports, no stream of \<^verbatim>\<open>Dial\<close> lost. Session and handler together, for
  each handler: a stop or a failure anywhere ends the whole, and what
  \<^verbatim>\<open>Session.Wait\<close> then says is the first thing that happened. Where the
  code departs from its comments or loses something, a theorem states what it does (a panic on a
  length field that wraps, a session that survives its handler, a session that cannot be ended
  after a failed dial unless it is started again, a call of \<^verbatim>\<open>Dial\<close> that
  hangs, and others).

  \<^bold>\<open>Bounds and fuel.\<close> The limits are the code's: 50 messages out of order, 10
  in flight, 20 per queue, buffers of 1024 bytes. The JSON parser (\<open>parseValue\<close>,
  \<open>parseElems\<close>, \<open>parseMembers\<close> in \<^theory_text>\<open>Go_Json\<close>)
  recurses on fuel that \<open>json_Parse\<close> takes from the length of its input;
  \<open>json_Parse_fuel\<close> shows that more fuel never changes the result, on any input. No
  other definition uses fuel. The loops of the goroutines are step relations; the waiting loops of
  the handshake, which may not end, are partial functions, and \<open>handshake_completes\<close>
  says when they return. The theorems that something ends give the number of steps: 14 for a
  cancelled session, 8 for a stream handler and 13 for a port forwarding handler; together 16 with
  a \<^verbatim>\<open>NopHandler\<close>, and 33 and 43 with the others, which may first have to
  end themselves. Hypotheses such as a length below \<open>2 ^ 63\<close> are the range of the
  int64 counters; machine integers are words, and their wrap-around is part of the model.

  \<^bold>\<open>Parameters.\<close> Third-party code is given by parameters or by the events: the errgroup (with
  \<open>errgroup_laws\<close> as a hypothesis and \<open>first_error_group\<close> as an instance),
  \<^verbatim>\<open>websocket.IsCloseError\<close> and the rendering of UUIDs, the dialer and the socket, the user's
  \<^verbatim>\<open>io.Reader\<close> and \<^verbatim>\<open>io.Writer\<close>, \<^verbatim>\<open>smux\<close>, \<^verbatim>\<open>term.GetSize\<close>.

  \<^bold>\<open>Not modelled.\<close> A call of \<^verbatim>\<open>Session.Start\<close> during
  another one, or after one that has spawned the goroutines (sessions are documented as
  single-use); after a failed dial or a data channel that could not be opened
  \<^verbatim>\<open>Start\<close> may be called again, and that is modelled. Log calls, which
  have no effect on the behaviour; what the default dialer, reader and writer do inside the
  libraries they call; the tests. When a ticker or timer fires is left to the schedule, which
  includes every real one; fairness is not assumed, so progress is stated as the existence of a
  bounded run to the end.
\<close>

end
